(* ===== verification/Prelude.thy ===== *)
theory Prelude
  imports Main "HOL-Library.Word" "HOL-Library.Char_ord" "HOL-Library.List_Lexorder"
begin

text \<open>
  Shared vocabulary of the development: the named collections the component proofs feed,
  the parts of \<open>std::string\<close>, \<open>std::map\<close> and the C number routines that the
  sources use, and the generic lemmas about them.

  A byte string (\<open>std::string\<close>) is a \<^typ>\<open>string\<close>, that is a list of the 256
  characters; \<open>length\<close> counts bytes. A \<open>std::map\<close> whose iteration order the code
  observes is an association list kept strictly sorted by key.
\<close>

named_theorems string_simps
named_theorems omap_simps
named_theorems inv_intros

section \<open>Errors\<close>

text \<open>
  The C++ exceptions the modelled code throws or lets escape. \<open>Undefined_read\<close> is no exception:
  it is the outcome the models give to a read outside of a buffer, which C++ leaves undefined, and
  \<open>Never_returns\<close> the one they give to a handler that calls itself, or loops, for ever.
\<close>

datatype exn =
    Out_of_range
  | Undefined_read
  | Bad_cast
  | Request_forgery_error
  | Cppcms_error string
  | Cppdb_error string
  | Archive_error
  | Database_version_error
  | Database_is_not_configured_error
  | Magick_error
  | Length_error
  | Never_returns

text \<open>A computation over a state \<open>'s\<close> that may throw; effects made before the throw stay.\<close>

type_synonym ('s, 'a) action = "'s \<Rightarrow> (exn + 'a) \<times> 's"

definition ret :: "'a \<Rightarrow> ('s, 'a) action" where
  "ret x s = (Inr x, s)"

definition throw :: "exn \<Rightarrow> ('s, 'a) action" where
  "throw e s = (Inl e, s)"

definition andThen :: "('s, 'a) action \<Rightarrow> ('a \<Rightarrow> ('s, 'b) action) \<Rightarrow> ('s, 'b) action" where
  "andThen m f s = (case m s of (Inl e, s') \<Rightarrow> (Inl e, s') | (Inr x, s') \<Rightarrow> f x s')"

lemma ret_apply [simp]: "ret x s = (Inr x, s)"
  by (simp add: ret_def)

lemma throw_apply [simp]: "throw e s = (Inl e, s)"
  by (simp add: throw_def)

lemma andThen_Inr: "m s = (Inr x, s') \<Longrightarrow> andThen m f s = f x s'"
  by (simp add: andThen_def)

lemma andThen_Inl: "m s = (Inl e, s') \<Longrightarrow> andThen m f s = (Inl e, s')"
  by (simp add: andThen_def)

lemma andThen_Inr_iff:
  "andThen m f s = (Inr y, s'') \<longleftrightarrow> (\<exists>x s'. m s = (Inr x, s') \<and> f x s' = (Inr y, s''))"
  by (auto simp: andThen_def split: prod.splits sum.splits)

lemma andThen_ret [simp]: "andThen (ret x) f = f x"
  by (rule ext) (simp add: andThen_def)

text \<open>What every outcome of a computation keeps, throwing or not.\<close>

named_theorems keeps_intros

definition keeps :: "('s \<Rightarrow> bool) \<Rightarrow> ('s, 'a) action \<Rightarrow> bool" where
  "keeps P m \<longleftrightarrow> (\<forall>s. P s \<longrightarrow> P (snd (m s)))"

lemma keepsI [intro?]: "(\<And>s. P s \<Longrightarrow> P (snd (m s))) \<Longrightarrow> keeps P m"
  by (simp add: keeps_def)

lemma keepsD: "keeps P m \<Longrightarrow> P s \<Longrightarrow> P (snd (m s))"
  by (simp add: keeps_def)

lemma keeps_ret [keeps_intros]: "keeps P (ret x)"
  by (simp add: keeps_def)

lemma keeps_throw [keeps_intros]: "keeps P (throw e)"
  by (simp add: keeps_def)

lemma keeps_andThen [keeps_intros]: "keeps P m \<Longrightarrow> (\<And>x. keeps P (f x)) \<Longrightarrow> keeps P (andThen m f)"
  by (auto simp: keeps_def andThen_def split: prod.splits sum.splits)

lemma keeps_if [keeps_intros]: "(b \<Longrightarrow> keeps P m) \<Longrightarrow> (\<not> b \<Longrightarrow> keeps P n) \<Longrightarrow> keeps P (if b then m else n)"
  by simp

lemma keeps_option [keeps_intros]:
  "(x = None \<Longrightarrow> keeps P m) \<Longrightarrow> (\<And>y. x = Some y \<Longrightarrow> keeps P (f y)) \<Longrightarrow>
     keeps P (case x of None \<Rightarrow> m | Some y \<Rightarrow> f y)"
  by (cases x) simp_all

lemma keeps_sum [keeps_intros]:
  "(\<And>y. x = Inl y \<Longrightarrow> keeps P (f y)) \<Longrightarrow> (\<And>y. x = Inr y \<Longrightarrow> keeps P (g y)) \<Longrightarrow>
     keeps P (case x of Inl y \<Rightarrow> f y | Inr y \<Rightarrow> g y)"
  by (cases x) simp_all

lemma keeps_prod [keeps_intros]: "(\<And>a b. x = (a, b) \<Longrightarrow> keeps P (f a b)) \<Longrightarrow> keeps P (case x of (a, b) \<Rightarrow> f a b)"
  by (cases x) simp

lemma keeps_Let [keeps_intros]: "(\<And>y. y = x \<Longrightarrow> keeps P (f y)) \<Longrightarrow> keeps P (Let x f)"
  by simp

text \<open>Reading the state and changing it without an error.\<close>

definition reads :: "('s \<Rightarrow> 'a) \<Rightarrow> ('s, 'a) action" where
  "reads f s = (Inr (f s), s)"

definition changes :: "('s \<Rightarrow> 's) \<Rightarrow> ('s, unit) action" where
  "changes f s = (Inr (), f s)"

lemma reads_apply [simp]: "reads f s = (Inr (f s), s)"
  by (simp add: reads_def)

lemma changes_apply [simp]: "changes f s = (Inr (), f s)"
  by (simp add: changes_def)

lemma keeps_reads [keeps_intros]: "keeps P (reads f)"
  by (simp add: keeps_def)

lemma keeps_changes [keeps_intros]: "(\<And>s. P s \<Longrightarrow> P (f s)) \<Longrightarrow> keeps P (changes f)"
  by (simp add: keeps_def)

lemma andThen_reads [simp]: "andThen (reads f) g s = g (f s) s"
  by (simp add: andThen_def)

lemma andThen_changes [simp]: "andThen (changes f) g s = g () (f s)"
  by (simp add: andThen_def)

text \<open>A loop over a list of rows, stopped by an exception.\<close>

fun for_each :: "('r \<Rightarrow> ('s, unit) action) \<Rightarrow> 'r list \<Rightarrow> ('s, unit) action" where
  "for_each f [] = ret ()"
| "for_each f (r # rs) = andThen (f r) (\<lambda>_. for_each f rs)"

lemma keeps_for_each [keeps_intros]: "(\<And>r. r \<in> set rs \<Longrightarrow> keeps P (f r)) \<Longrightarrow> keeps P (for_each f rs)"
  by (induction rs) (simp_all add: keeps_intros)

section \<open>Folds\<close>

lemma fold_keeps: "(\<And>x s. g (f x s) = g s) \<Longrightarrow> g (fold f xs s) = g s"
  by (induction xs arbitrary: s) simp_all

lemma fold_grows:
  assumes "\<And>x s. Q s \<subseteq> Q (f x s)"
  shows "Q s \<subseteq> Q (fold f xs s)"
proof (induction xs arbitrary: s)
  case (Cons x xs)
  show ?case using subset_trans[OF assms Cons.IH] by simp
qed simp

lemma fold_invar: "P s \<Longrightarrow> (\<And>x s. x \<in> set xs \<Longrightarrow> P s \<Longrightarrow> P (f x s)) \<Longrightarrow> P (fold f xs s)"
  by (induction xs arbitrary: s) simp_all

section \<open>Bytes\<close>

abbreviation byte :: "char \<Rightarrow> nat" where
  "byte c \<equiv> of_char c"

abbreviation chr :: "nat \<Rightarrow> char" where
  "chr n \<equiv> char_of n"

lemma byte_less_256 [simp]: "byte c < 256"
  by (metis of_char_mod_256 mod_less_divisor zero_less_numeral)

lemma chr_byte [simp]: "chr (byte c) = c"
  by simp

lemma byte_chr: "n < 256 \<Longrightarrow> byte (chr n) = n"
  by simp

definition is_digit :: "char \<Rightarrow> bool" where
  "is_digit c \<longleftrightarrow> CHR ''0'' \<le> c \<and> c \<le> CHR ''9''"

definition is_lower :: "char \<Rightarrow> bool" where
  "is_lower c \<longleftrightarrow> CHR ''a'' \<le> c \<and> c \<le> CHR ''z''"

definition is_upper :: "char \<Rightarrow> bool" where
  "is_upper c \<longleftrightarrow> CHR ''A'' \<le> c \<and> c \<le> CHR ''Z''"

text \<open>A property of all 256 characters that computes is proved by running through them.\<close>

lemma char_range_cases:
  assumes "\<forall>n < 256. P (chr n)"
  shows "P c"
  using assms[rule_format, of "byte c"] by simp

lemma all_less_256_code: "(\<forall>n < (256::nat). P n) \<longleftrightarrow> list_all P [0..<256]"
  by (auto simp: list_all_iff)

section \<open>Positions in a string\<close>

text \<open>\<open>std::string::npos\<close>, and \<open>find\<close>/\<open>rfind\<close> with \<open>None\<close> for it.\<close>

definition npos :: nat where
  "npos = 2 ^ 64 - 1"

fun starts_with :: "string \<Rightarrow> string \<Rightarrow> bool" where
  "starts_with [] s = True"
| "starts_with (p # ps) [] = False"
| "starts_with (p # ps) (c # cs) = (p = c \<and> starts_with ps cs)"

fun find_str :: "string \<Rightarrow> string \<Rightarrow> nat option" where
  "find_str p [] = (if p = [] then Some 0 else None)"
| "find_str p (c # cs) = (if starts_with p (c # cs) then Some 0 else map_option Suc (find_str p cs))"

definition find_from :: "string \<Rightarrow> string \<Rightarrow> nat \<Rightarrow> nat option" where
  "find_from s p pos =
     (if pos \<le> length s then map_option (\<lambda>i. pos + i) (find_str p (drop pos s)) else None)"

fun rfind_char :: "string \<Rightarrow> char \<Rightarrow> nat option" where
  "rfind_char [] c = None"
| "rfind_char (x # xs) c =
     (case rfind_char xs c of Some i \<Rightarrow> Some (Suc i) | None \<Rightarrow> if x = c then Some 0 else None)"

definition pos_of :: "nat option \<Rightarrow> nat" where
  "pos_of r = (case r of None \<Rightarrow> npos | Some i \<Rightarrow> i)"

text \<open>\<open>s.substr(pos, n)\<close> throws \<open>std::out_of_range\<close> when \<open>pos\<close> is past the end.\<close>

definition substr :: "string \<Rightarrow> nat \<Rightarrow> nat \<Rightarrow> exn + string" where
  "substr s pos n = (if pos > length s then Inl Out_of_range else Inr (take n (drop pos s)))"

definition substr_from :: "string \<Rightarrow> nat \<Rightarrow> exn + string" where
  "substr_from s pos = (if pos > length s then Inl Out_of_range else Inr (drop pos s))"

text \<open>\<open>s.erase(s.find_last_not_of(c) + 1)\<close>, nothing when every character is \<open>c\<close>.\<close>

definition strip_trailing :: "char \<Rightarrow> string \<Rightarrow> string" where
  "strip_trailing c s =
     (if \<exists>x \<in> set s. x \<noteq> c then rev (dropWhile (\<lambda>x. x = c) (rev s)) else s)"

lemma starts_with_iff: "starts_with p s \<longleftrightarrow> (\<exists>r. s = p @ r)"
  by (induction p s rule: starts_with.induct) auto

lemma starts_with_append [simp]: "starts_with p (p @ r)"
  by (auto simp: starts_with_iff)

lemma starts_with_take: "starts_with p s \<longleftrightarrow> take (length p) s = p"
  by (metis append_eq_conv_conj starts_with_iff append_take_drop_id)

lemma find_str_SomeD:
  "find_str p s = Some i \<Longrightarrow> i + length p \<le> length s \<and> take (length p) (drop i s) = p"
proof (induction p s arbitrary: i rule: find_str.induct)
  case (1 p)
  then show ?case by (simp split: if_splits)
next
  case (2 p c cs)
  show ?case
  proof (cases "starts_with p (c # cs)")
    case True
    with 2 have "i = 0" by simp
    moreover from True obtain r where "c # cs = p @ r" by (auto simp: starts_with_iff)
    ultimately show ?thesis by simp
  next
    case False
    with 2 show ?thesis by auto
  qed
qed

lemma find_str_first:
  "find_str p s = Some i \<Longrightarrow> j < i \<Longrightarrow> \<not> starts_with p (drop j s)"
proof (induction p s arbitrary: i j rule: find_str.induct)
  case (2 p c cs)
  then show ?case by (cases j) (auto split: if_splits)
qed (simp split: if_splits)

lemma find_str_None: "find_str p s = None \<Longrightarrow> \<not> starts_with p (drop j s)"
proof (induction p s arbitrary: j rule: find_str.induct)
  case (1 p)
  then show ?case by (cases p) auto
next
  case (2 p c cs)
  then show ?case by (cases j) (auto split: if_splits)
qed

lemma find_str_split:
  assumes "find_str p s = Some i"
  shows "s = take i s @ p @ drop (i + length p) s"
proof -
  have "drop i s = p @ drop (length p) (drop i s)"
    using find_str_SomeD[OF assms] by (metis append_take_drop_id)
  then show ?thesis
    by (metis append_take_drop_id drop_drop add.commute)
qed

lemma find_from_SomeD:
  "find_from s p pos = Some i \<Longrightarrow>
     pos \<le> i \<and> i + length p \<le> length s \<and> take (length p) (drop i s) = p"
  by (auto simp: find_from_def add.commute split: if_splits dest!: find_str_SomeD)

lemma rfind_char_None_iff: "rfind_char s c = None \<longleftrightarrow> c \<notin> set s"
  by (induction s c rule: rfind_char.induct) (auto split: option.splits)

lemma rfind_char_SomeD:
  "rfind_char s c = Some i \<Longrightarrow> i < length s \<and> s ! i = c \<and> c \<notin> set (drop (Suc i) s)"
proof (induction s c arbitrary: i rule: rfind_char.induct)
  case (2 x xs c)
  then show ?case
    by (cases "rfind_char xs c") (auto simp: rfind_char_None_iff split: if_splits)
qed simp

section \<open>Numbers as text\<close>

fun dec_nat :: "nat \<Rightarrow> string" where
  "dec_nat n = (if n < 10 then [chr (48 + n)] else dec_nat (n div 10) @ [chr (48 + n mod 10)])"

declare dec_nat.simps [simp del]

text \<open>\<open>out << i\<close> for an integer.\<close>

definition dec :: "int \<Rightarrow> string" where
  "dec i = (if i < 0 then CHR ''-'' # dec_nat (nat (- i)) else dec_nat (nat i))"

definition hex_digit :: "nat \<Rightarrow> char" where
  "hex_digit n = (if n < 10 then chr (48 + n) else chr (87 + n))"

fun hex_nat :: "nat \<Rightarrow> string" where
  "hex_nat n = (if n < 16 then [hex_digit n] else hex_nat (n div 16) @ [hex_digit (n mod 16)])"

declare hex_nat.simps [simp del]

definition is_space :: "char \<Rightarrow> bool" where
  "is_space c \<longleftrightarrow> c \<in> {CHR '' '', CHR 0x09, CHR 0x0A, CHR 0x0B, CHR 0x0C, CHR 0x0D}"

definition digits_val :: "string \<Rightarrow> int" where
  "digits_val s = foldl (\<lambda>a c. 10 * a + (int (byte c) - 48)) 0 (takeWhile is_digit s)"

text \<open>
  \<open>strtol\<close> in base 10: leading white space, an optional sign, digits; the value saturates at
  the bounds of a 64-bit \<open>long\<close>. \<open>atol\<close> is \<open>strtol\<close>, \<open>atoi\<close> its conversion to \<open>int\<close>.
\<close>

definition strtol :: "string \<Rightarrow> int" where
  "strtol s =
     (let t = dropWhile is_space s;
          v = (case t of
                 c # r \<Rightarrow> if c = CHR ''-'' then - digits_val r
                           else if c = CHR ''+'' then digits_val r else digits_val t
               | [] \<Rightarrow> 0)
      in max (- (2 ^ 63)) (min (2 ^ 63 - 1) v))"

definition atol :: "string \<Rightarrow> int" where
  "atol s = strtol s"

definition to_int32 :: "int \<Rightarrow> int" where
  "to_int32 v = (v + 2 ^ 31) mod 2 ^ 32 - 2 ^ 31"

definition atoi :: "string \<Rightarrow> int" where
  "atoi s = to_int32 (strtol s)"

lemma to_int32_id: "- (2 ^ 31) \<le> v \<Longrightarrow> v < 2 ^ 31 \<Longrightarrow> to_int32 v = v"
  by (simp add: to_int32_def)

lemma to_int32_range: "- (2 ^ 31) \<le> to_int32 v \<and> to_int32 v < 2 ^ 31"
  by (simp add: to_int32_def pos_mod_bound[of "2 ^ 32", simplified] )

lemma dec_digit: "d < 10 \<Longrightarrow> is_digit (chr (48 + d)) \<and> byte (chr (48 + d)) = 48 + d"
  by (auto simp: is_digit_def less_eq_char_def)

lemma dec_nat_digits: "list_all is_digit (dec_nat n)"
proof (induction n rule: dec_nat.induct)
  case (1 n)
  then show ?case
    by (subst dec_nat.simps) (simp add: dec_digit[THEN conjunct1])
qed

lemma dec_nat_not_Nil [simp]: "dec_nat n \<noteq> []"
  by (subst dec_nat.simps) simp

lemma dec_nat_foldl: "foldl (\<lambda>a c. 10 * a + (int (byte c) - 48)) 0 (dec_nat n) = int n"
proof (induction n rule: dec_nat.induct)
  case (1 n)
  show ?case
  proof (cases "n < 10")
    case True
    then show ?thesis by (subst dec_nat.simps) (simp add: dec_digit)
  next
    case False
    then have IH: "foldl (\<lambda>a c. 10 * a + (int (byte c) - 48)) 0 (dec_nat (n div 10)) = int (n div 10)"
      using 1 by blast
    have d: "int (byte (chr (48 + n mod 10))) = 48 + int (n mod 10)"
      using dec_digit[of "n mod 10"] by simp
    have "10 * int (n div 10) + int (n mod 10) = int n"
      by (metis mult_div_mod_eq of_nat_add of_nat_mult of_nat_numeral)
    with IH d False show ?thesis by (subst dec_nat.simps) simp
  qed
qed

lemma digits_val_dec_nat: "digits_val (dec_nat n) = int n"
proof -
  have "takeWhile is_digit (dec_nat n) = dec_nat n"
    using dec_nat_digits[of n] by (simp add: list_all_iff takeWhile_eq_all_conv)
  then show ?thesis by (simp only: digits_val_def dec_nat_foldl)
qed

lemma is_digit_not_space: "is_digit c \<Longrightarrow> \<not> is_space c"
  by (auto simp: is_digit_def is_space_def less_eq_char_def)

lemma is_digit_not_sign: "is_digit c \<Longrightarrow> c \<noteq> CHR ''-'' \<and> c \<noteq> CHR ''+''"
  by (auto simp: is_digit_def less_eq_char_def)

lemma strtol_dec:
  assumes "- (2 ^ 63) \<le> i" and "i < 2 ^ 63"
  shows "strtol (dec i) = i"
proof (cases "i < 0")
  case True
  have "\<not> is_space (CHR ''-'')" by (simp add: is_space_def)
  with True assms show ?thesis
    by (simp add: strtol_def dec_def digits_val_dec_nat)
next
  case False
  obtain c r where cr: "dec_nat (nat i) = c # r" by (cases "dec_nat (nat i)") auto
  then have "is_digit c" using dec_nat_digits[of "nat i"] by simp
  then have "\<not> is_space c" "c \<noteq> CHR ''-''" "c \<noteq> CHR ''+''"
    by (auto dest: is_digit_not_space is_digit_not_sign)
  moreover have "digits_val (c # r) = i"
    using digits_val_dec_nat[of "nat i"] cr False by simp
  ultimately show ?thesis
    using cr False assms by (simp add: strtol_def dec_def)
qed

lemma atoi_dec: "- (2 ^ 31) \<le> i \<Longrightarrow> i < 2 ^ 31 \<Longrightarrow> atoi (dec i) = i"
  by (simp add: atoi_def strtol_dec to_int32_id)

lemma dec_inj: "dec i = dec j \<Longrightarrow> i = j"
proof -
  have *: "digits_val (if i < 0 then tl (dec i) else dec i) = \<bar>i\<bar>" for i
    by (simp add: dec_def digits_val_dec_nat)
  have sgn: "hd (dec i) = CHR ''-'' \<longleftrightarrow> i < 0" for i
  proof (cases "i < 0")
    case False
    obtain c r where cr: "dec_nat (nat i) = c # r" by (cases "dec_nat (nat i)") auto
    then have "is_digit c" using dec_nat_digits[of "nat i"] by simp
    then show ?thesis using False cr by (auto simp: dec_def dest: is_digit_not_sign)
  qed (simp add: dec_def)
  assume eq: "dec i = dec j"
  then have "i < 0 \<longleftrightarrow> j < 0" using sgn by metis
  moreover from this *[of i] *[of j] eq have "\<bar>i\<bar> = \<bar>j\<bar>" by metis
  ultimately show "i = j" by arith
qed

lemma dec_eq_iff [simp]: "dec i = dec j \<longleftrightarrow> i = j"
  by (auto dest: dec_inj)

section \<open>Integers in memory\<close>

text \<open>The little-endian bytes of an unsigned value, as \<open>memcpy\<close> sees them, and back.\<close>

fun le_bytes :: "nat \<Rightarrow> nat \<Rightarrow> string" where
  "le_bytes 0 v = []"
| "le_bytes (Suc n) v = chr (v mod 256) # le_bytes n (v div 256)"

fun le_val :: "string \<Rightarrow> nat" where
  "le_val [] = 0"
| "le_val (c # s) = byte c + 256 * le_val s"

lemma length_le_bytes [simp]: "length (le_bytes n v) = n"
  by (induction n arbitrary: v) auto

lemma le_val_le_bytes: "le_val (le_bytes n v) = v mod 256 ^ n"
proof (induction n arbitrary: v)
  case (Suc n)
  have "v mod 256 + 256 * (v div 256 mod 256 ^ n) = v mod (256 * 256 ^ n)"
    by (simp add: mod_mult2_eq)
  then show ?case by (simp add: Suc)
qed simp

lemma le_val_bound: "le_val s < 256 ^ length s"
proof (induction s)
  case (Cons c s)
  define k :: nat where "k = 256 ^ length s"
  have "le_val s < k" "byte c < 256" using Cons by (simp_all add: k_def)
  then have "byte c + 256 * le_val s < 256 * k" by linarith
  then show ?case by (simp add: k_def)
qed simp

section \<open>Ordered maps\<close>

text \<open>\<open>std::map\<close>: \<open>m[k] = v\<close>, \<open>m.erase(k)\<close>, \<open>m.find(k)\<close>, iterated in key order.\<close>

fun omap_set :: "'k::linorder \<Rightarrow> 'v \<Rightarrow> ('k \<times> 'v) list \<Rightarrow> ('k \<times> 'v) list" where
  "omap_set k v [] = [(k, v)]"
| "omap_set k v ((a, b) # m) =
     (if k < a then (k, v) # (a, b) # m
      else if k = a then (k, v) # m
      else (a, b) # omap_set k v m)"

definition omap_erase :: "'k \<Rightarrow> ('k \<times> 'v) list \<Rightarrow> ('k \<times> 'v) list" where
  "omap_erase k m = filter (\<lambda>(a, _). a \<noteq> k) m"

definition omap_ok :: "('k::linorder \<times> 'v) list \<Rightarrow> bool" where
  "omap_ok m \<longleftrightarrow> sorted_wrt (<) (map fst m)"

lemma omap_ok_Nil [simp]: "omap_ok []"
  by (simp add: omap_ok_def)

lemma omap_ok_Cons: "omap_ok ((k, v) # m) \<longleftrightarrow> (\<forall>a \<in> fst ` set m. k < a) \<and> omap_ok m"
  by (auto simp: omap_ok_def)

lemma omap_ok_distinct: "omap_ok m \<Longrightarrow> distinct (map fst m)"
  by (simp add: omap_ok_def strict_sorted_iff)

lemma fst_set_omap_set [omap_simps]: "fst ` set (omap_set k v m) = insert k (fst ` set m)"
  by (induction k v m rule: omap_set.induct) auto

lemma omap_ok_set [inv_intros]: "omap_ok m \<Longrightarrow> omap_ok (omap_set k v m)"
  by (induction k v m rule: omap_set.induct)
     (auto simp: omap_ok_Cons fst_set_omap_set image_iff)

lemma map_of_omap_set [omap_simps]: "map_of (omap_set k v m) = (map_of m)(k \<mapsto> v)"
  by (induction k v m rule: omap_set.induct) (auto simp: fun_eq_iff)

lemma map_of_omap_erase [omap_simps]: "map_of (omap_erase k m) = (map_of m)(k := None)"
  by (induction m) (auto simp: omap_erase_def fun_eq_iff)

lemma omap_ok_erase [inv_intros]: "omap_ok m \<Longrightarrow> omap_ok (omap_erase k m)"
  by (induction m) (auto simp: omap_erase_def omap_ok_Cons)

lemma omap_set_append:
  "omap_ok (m @ [(k, v)]) \<Longrightarrow> omap_set k v m = m @ [(k, v)]"
proof (induction m)
  case (Cons p m)
  obtain a b where p: "p = (a, b)" by (cases p)
  from Cons.prems have "a < k" "omap_ok (m @ [(k, v)])" by (auto simp: p omap_ok_Cons)
  with Cons.IH show ?case by (auto simp: p)
qed simp

section \<open>Expiry queues\<close>

text \<open>\<open>std::multimap<time_t,pointer>::insert\<close>: after the entries with the same time.\<close>

fun mmap_insert :: "int \<Rightarrow> string \<Rightarrow> (int \<times> string) list \<Rightarrow> (int \<times> string) list" where
  "mmap_insert t k [] = [(t, k)]"
| "mmap_insert t k ((a, b) # m) = (if t < a then (t, k) # (a, b) # m else (a, b) # mmap_insert t k m)"

lemma set_mmap_insert: "set (mmap_insert t k m) = insert (t, k) (set m)"
  by (induction t k m rule: mmap_insert.induct) auto

lemma distinct_mmap_insert: "distinct (mmap_insert t k m) \<longleftrightarrow> (t, k) \<notin> set m \<and> distinct m"
  by (induction t k m rule: mmap_insert.induct) (auto simp: set_mmap_insert)

lemma sorted_mmap_insert: "sorted (map fst m) \<Longrightarrow> sorted (map fst (mmap_insert t k m))"
proof (induction t k m rule: mmap_insert.induct)
  case (2 t k a b m)
  then show ?case by (auto simp: set_mmap_insert)
qed simp

end
