(* ===== verification/Http_Util.thy ===== *)
theory Http_Util
  imports Prelude
begin

text \<open>
  The text routines the blog uses on everything that goes into a page, a URL or a header:
  \<open>lib/cppcms/src/util.cpp\<close> (\<open>escape\<close>, \<open>urlencode\<close>, \<open>urldecode\<close>) and
  \<open>lib/cppcms/private/http_protocol.h\<close> (tokens, quoted strings, case-insensitive compare).
  A pair of C++ iterators is the list of the bytes between them; a returned iterator is the
  rest of the list from it on.
\<close>

section \<open>HTML escaping\<close>

definition escape_char :: "char \<Rightarrow> string" where
  "escape_char c =
     (if c = CHR ''<'' then ''&lt;''
      else if c = CHR ''>'' then ''&gt;''
      else if c = CHR ''&'' then ''&amp;''
      else if c = CHR 0x22 then ''&quot;''
      else if c = CHR 0x27 then ''&#39;''
      else [c])"

fun escape :: "string \<Rightarrow> string" where
  "escape [] = []"
| "escape (c # s) = escape_char c @ escape s"

text \<open>
  The overload that writes to a \<open>std::streambuf\<close>. The buffer accepts \<open>room\<close> more bytes;
  \<open>sputn\<close> writes what fits and reports how many bytes that was.
\<close>

record sbuf =
  written :: string
  room :: nat

definition sputn :: "string \<Rightarrow> sbuf \<Rightarrow> nat \<times> sbuf" where
  "sputn s b = (let n = min (length s) (room b)
                in (n, b\<lparr>written := written b @ take n s, room := room b - n\<rparr>))"

fun escape_to_buf :: "string \<Rightarrow> sbuf \<Rightarrow> int \<times> sbuf" where
  "escape_to_buf [] b = (0, b)"
| "escape_to_buf (c # s) b =
     (let (n, b') = sputn (escape_char c) b
      in if n \<noteq> length (escape_char c) then (-1, b') else escape_to_buf s b')"

text \<open>A reader of the escaped text: what an HTML parser makes of the five entities.\<close>

fun unescape :: "string \<Rightarrow> string" where
  "unescape [] = []"
| "unescape (c # s) =
     (if starts_with ''&lt;'' (c # s) then CHR ''<'' # unescape (drop 3 s)
      else if starts_with ''&gt;'' (c # s) then CHR ''>'' # unescape (drop 3 s)
      else if starts_with ''&amp;'' (c # s) then CHR ''&'' # unescape (drop 4 s)
      else if starts_with ''&quot;'' (c # s) then CHR 0x22 # unescape (drop 5 s)
      else if starts_with ''&#39;'' (c # s) then CHR 0x27 # unescape (drop 4 s)
      else c # unescape s)"

definition html_special :: "char set" where
  "html_special = {CHR ''<'', CHR ''>'', CHR 0x22, CHR 0x27}"

lemma escape_append: "escape (s @ t) = escape s @ escape t"
  by (induction s) auto

lemma escape_char_safe: "set (escape_char c) \<inter> html_special = {}"
  by (auto simp: escape_char_def html_special_def split: if_splits)

lemma escape_safe: "set (escape s) \<inter> html_special = {}"
  by (induction s) (use escape_char_safe in auto)

lemma unescape_escape_char: "unescape (escape_char c @ s) = c # unescape s"
proof (cases "c \<in> {CHR ''<'', CHR ''>'', CHR ''&'', CHR 0x22, CHR 0x27}")
  case True
  then show ?thesis by (auto simp: escape_char_def)
next
  case False
  then show ?thesis by (auto simp: escape_char_def)
qed

lemma unescape_escape: "unescape (escape s) = s"
  by (induction s) (auto simp: unescape_escape_char)

lemma escape_char_length: "1 \<le> length (escape_char c) \<and> length (escape_char c) \<le> 6"
  by (simp add: escape_char_def)

lemma escape_to_buf_full:
  "length (escape s) \<le> room b \<Longrightarrow>
     escape_to_buf s b =
       (0, b\<lparr>written := written b @ escape s, room := room b - length (escape s)\<rparr>)"
  by (induction s arbitrary: b) (auto simp: sputn_def Let_def)

lemma escape_to_buf_short:
  "room b < length (escape s) \<Longrightarrow>
     escape_to_buf s b = (-1, b\<lparr>written := written b @ take (room b) (escape s), room := 0\<rparr>)"
proof (induction s arbitrary: b)
  case (Cons c s)
  show ?case
  proof (cases "length (escape_char c) \<le> room b")
    case True
    with Cons.prems Cons.IH[of "b\<lparr>written := written b @ escape_char c,
        room := room b - length (escape_char c)\<rparr>"]
    show ?thesis by (auto simp: sputn_def Let_def)
  next
    case False
    then show ?thesis by (auto simp: sputn_def Let_def)
  qed
qed simp

section \<open>URL encoding\<close>

definition unreserved :: "char \<Rightarrow> bool" where
  "unreserved c \<longleftrightarrow> is_lower c \<or> is_upper c \<or> is_digit c \<or>
     c \<in> {CHR ''-'', CHR ''_'', CHR ''.'', CHR ''~''}"

definition hex_lower :: "nat \<Rightarrow> char" where
  "hex_lower n = ''0123456789abcdef'' ! n"

fun urlencode :: "string \<Rightarrow> string" where
  "urlencode [] = []"
| "urlencode (c # s) =
     (if unreserved c then c # urlencode s
      else CHR ''%'' # hex_lower (byte c div 16 mod 16) # hex_lower (byte c mod 16) # urlencode s)"

definition xdigit :: "char \<Rightarrow> bool" where
  "xdigit c \<longleftrightarrow> is_digit c \<or> (CHR ''a'' \<le> c \<and> c \<le> CHR ''f'') \<or> (CHR ''A'' \<le> c \<and> c \<le> CHR ''F'')"

text \<open>The value \<open>sscanf(buf, "%x", &value)\<close> reads from one hexadecimal digit.\<close>

definition hex_value :: "char \<Rightarrow> nat" where
  "hex_value c =
     (if is_digit c then byte c - 48 else if CHR ''a'' \<le> c \<and> c \<le> CHR ''f'' then byte c - 87
      else byte c - 55)"

fun urldecode :: "string \<Rightarrow> string" where
  "urldecode [] = []"
| "urldecode (c # s) =
     (if c = CHR ''+'' then CHR '' '' # urldecode s
      else if c = CHR ''%'' then
        (case s of
           a # b # r \<Rightarrow>
             if xdigit a \<and> xdigit b then chr (16 * hex_value a + hex_value b) # urldecode r
             else urldecode s
         | _ \<Rightarrow> urldecode s)
      else c # urldecode s)"

lemma hex_lower_props:
  "n < 16 \<Longrightarrow> xdigit (hex_lower n) \<and> hex_value (hex_lower n) = n"
proof -
  have "\<forall>n \<in> set [0..<16]. xdigit (hex_lower n) \<and> hex_value (hex_lower n) = n"
    by code_simp
  then show "n < 16 \<Longrightarrow> ?thesis" by simp
qed

lemma byte_div_16: "byte c div 16 < 16"
  using byte_less_256[of c] by linarith

lemma byte_split_16: "16 * (byte c div 16) + byte c mod 16 = byte c"
  by simp

lemma unreserved_plain: "unreserved c \<Longrightarrow> c \<noteq> CHR ''+'' \<and> c \<noteq> CHR ''%''"
  by (auto simp: unreserved_def is_lower_def is_upper_def is_digit_def less_eq_char_def)

lemma urldecode_percent:
  "urldecode (CHR ''%'' # hex_lower (byte c div 16 mod 16) # hex_lower (byte c mod 16) # s)
     = c # urldecode s"
proof -
  have "byte c div 16 mod 16 = byte c div 16" using byte_div_16[of c] by simp
  moreover have "byte c mod 16 < 16" by simp
  moreover have "chr (byte c div 16 * 16 + byte c mod 16) = c"
    by (simp add: mult.commute)
  ultimately show ?thesis
    using byte_div_16[of c] byte_split_16[of c] by (simp add: hex_lower_props)
qed

lemma urldecode_urlencode: "urldecode (urlencode s) = s"
  by (induction s) (auto simp: unreserved_plain urldecode_percent simp del: urldecode.simps(2)
      intro: urldecode.simps(2)[THEN trans])

lemma urlencode_length: "length s \<le> length (urlencode s) \<and> length (urlencode s) \<le> 3 * length s"
  by (induction s) auto

lemma hex_lower_unreserved: "n < 16 \<Longrightarrow> unreserved (hex_lower n)"
proof -
  have "\<forall>n \<in> set [0..<16]. unreserved (hex_lower n)" by code_simp
  then show "n < 16 \<Longrightarrow> ?thesis" by simp
qed

lemma urlencode_chars: "c \<in> set (urlencode s) \<Longrightarrow> unreserved c \<or> c = CHR ''%''"
  by (induction s) (auto simp: hex_lower_unreserved split: if_splits)

section \<open>HTTP tokens and quoted strings\<close>

definition separator :: "char \<Rightarrow> bool" where
  "separator c \<longleftrightarrow> c \<in> set ''()<>@,;:'' \<or> c = CHR 0x5C \<or> c = CHR 0x22 \<or>
     c \<in> set ''/[]?={} '' \<or> c = CHR 0x09"

text \<open>\<open>c-'A'+'a'\<close> on a letter.\<close>

definition ascii_to_lower :: "char \<Rightarrow> char" where
  "ascii_to_lower c = (if c < CHR ''A'' \<or> c > CHR ''Z'' then c else chr (byte c - 65 + 97))"

fun skip_ws :: "string \<Rightarrow> string" where
  "skip_ws [] = []"
| "skip_ws (c # s) =
     (if c = CHR 0x0D then
        (case s of
           n # w # r \<Rightarrow>
             if n = CHR 0x0A \<and> (w = CHR '' '' \<or> w = CHR 0x09) then skip_ws r else c # s
         | _ \<Rightarrow> c # s)
      else if c = CHR '' '' \<or> c = CHR 0x09 then skip_ws s
      else c # s)"

definition token_char :: "char \<Rightarrow> bool" where
  "token_char c \<longleftrightarrow> 0x20 \<le> byte c \<and> byte c \<le> 0x7E \<and> \<not> separator c"

definition tocken :: "string \<Rightarrow> string" where
  "tocken s = dropWhile token_char s"

text \<open>
  The loop of \<open>unquote\<close> after the opening quote: \<open>None\<close> when the input ends before the closing
  quote, otherwise the text and what follows the closing quote.
\<close>

fun unquote_loop :: "string \<Rightarrow> string \<Rightarrow> (string \<times> string) option" where
  "unquote_loop acc [] = None"
| "unquote_loop acc (c # s) =
     (if c = CHR 0x22 then Some (acc, s)
      else if c = CHR 0x5C then
        (case s of d # r \<Rightarrow> unquote_loop (acc @ [d]) r | [] \<Rightarrow> unquote_loop (acc @ [c]) s)
      else unquote_loop (acc @ [c]) s)"

text \<open>\<open>unquote(begin, end)\<close> moves \<open>begin\<close> past the string only when it is well formed.\<close>

definition unquote :: "string \<Rightarrow> string \<times> string" where
  "unquote s =
     (case s of
        c # r \<Rightarrow> if c = CHR 0x22
                  then (case unquote_loop [] r of Some (t, rest) \<Rightarrow> (t, rest) | None \<Rightarrow> ([], s))
                  else ([], s)
      | [] \<Rightarrow> ([], s))"

fun quote_body :: "string \<Rightarrow> string" where
  "quote_body [] = []"
| "quote_body (c # s) = (if byte c < 32 then [CHR 0x5C, c] else [c]) @ quote_body s"

definition quote :: "string \<Rightarrow> string" where
  "quote s = CHR 0x22 # quote_body s @ [CHR 0x22]"

text \<open>A plain \<open>char\<close> is signed on the platforms the build targets.\<close>

definition schar :: "char \<Rightarrow> int" where
  "schar c = (if byte c < 128 then int (byte c) else int (byte c) - 256)"

fun compare_nocase :: "string \<Rightarrow> string \<Rightarrow> int" where
  "compare_nocase [] [] = 0"
| "compare_nocase [] (_ # _) = -1"
| "compare_nocase (_ # _) [] = 1"
| "compare_nocase (a # l) (b # r) =
     (let cl = schar (ascii_to_lower a); cr = schar (ascii_to_lower b)
      in if cl < cr then -1 else if cl > cr then 1 else compare_nocase l r)"

fun prefix_loop :: "string \<Rightarrow> string \<Rightarrow> bool" where
  "prefix_loop [] s = True"
| "prefix_loop (c # p) [] = False"
| "prefix_loop (c # p) (d # s) = (ascii_to_lower c = ascii_to_lower d \<and> prefix_loop p s)"

definition is_prefix_of :: "string \<Rightarrow> string \<Rightarrow> bool" where
  "is_prefix_of p s = prefix_loop p (skip_ws s)"

lemma skip_ws_suffix: "\<exists>w. s = w @ skip_ws s"
proof (induction s rule: skip_ws.induct)
  case (2 c s)
  show ?case
  proof (cases "c = CHR 0x0D")
    case True
    show ?thesis
    proof (cases "\<exists>n w r. s = n # w # r \<and> n = CHR 0x0A \<and> (w = CHR '' '' \<or> w = CHR 0x09)")
      case True
      then obtain n w r where nwr: "s = n # w # r" "n = CHR 0x0A" "w = CHR '' '' \<or> w = CHR 0x09"
        by blast
      then obtain u where "r = u @ skip_ws r" using 2(1) \<open>c = CHR 0x0D\<close> by blast
      then have "c # s = (c # n # w # u) @ skip_ws (c # s)"
        using nwr \<open>c = CHR 0x0D\<close> by simp
      then show ?thesis by blast
    next
      case False
      then have "skip_ws (c # s) = c # s"
        using \<open>c = CHR 0x0D\<close> by (auto split: list.splits)
      then show ?thesis by (metis append_Nil)
    qed
  next
    case False
    show ?thesis
    proof (cases "c = CHR '' '' \<or> c = CHR 0x09")
      case True
      with False 2(2) obtain u where "s = u @ skip_ws s" by blast
      then have "c # s = (c # u) @ skip_ws (c # s)" using True False by simp
      then show ?thesis by blast
    next
      case c: False
      then show ?thesis using False by (metis append_Nil skip_ws.simps(2))
    qed
  qed
qed simp

lemma tocken_stops: "tocken s = [] \<or> \<not> token_char (hd (tocken s))"
  by (metis tocken_def hd_dropWhile)

lemma unquote_loop_append:
  "CHR 0x22 \<notin> set s \<Longrightarrow> CHR 0x5C \<notin> set s \<Longrightarrow>
     unquote_loop acc (quote_body s @ CHR 0x22 # r) = Some (acc @ s, r)"
  by (induction s arbitrary: acc) auto

lemma unquote_quote:
  "CHR 0x22 \<notin> set s \<Longrightarrow> CHR 0x5C \<notin> set s \<Longrightarrow> unquote (quote s @ r) = (s, r)"
  by (simp add: unquote_def quote_def unquote_loop_append)

lemma quote_body_stops_at_quote:
  "CHR 0x22 \<notin> set s \<Longrightarrow> CHR 0x5C \<notin> set s \<Longrightarrow>
     unquote (quote (s @ CHR 0x22 # t) @ r) = (s, quote_body t @ CHR 0x22 # r)"
proof -
  assume *: "CHR 0x22 \<notin> set s" "CHR 0x5C \<notin> set s"
  have "quote_body (s @ CHR 0x22 # t) = quote_body s @ CHR 0x22 # quote_body t"
    by (induction s) auto
  then show ?thesis
    using * unquote_loop_append[of s "[]"] by (simp add: unquote_def quote_def)
qed

lemma schar_inj: "schar a = schar b \<longleftrightarrow> a = b"
proof
  assume "schar a = schar b"
  moreover have "int (byte a) < 256" "int (byte b) < 256" by simp_all
  ultimately have "int (byte a) = int (byte b)"
    unfolding schar_def by (simp only: split: if_splits; linarith)
  then have "byte a = byte b" by simp
  then show "a = b" by (metis chr_byte)
qed simp

definition lower_key :: "char \<Rightarrow> int" where
  "lower_key c = schar (ascii_to_lower c)"

lemma compare_nocase_Cons:
  "compare_nocase (a # l) (b # r) =
     (if lower_key a = lower_key b then compare_nocase l r
      else if lower_key a < lower_key b then -1 else 1)"
  by (simp add: lower_key_def Let_def)

declare compare_nocase.simps(4) [simp del]

lemma lower_key_eq: "lower_key a = lower_key b \<longleftrightarrow> ascii_to_lower a = ascii_to_lower b"
  by (simp add: lower_key_def schar_inj)

lemma compare_nocase_eq_0:
  "compare_nocase l r = 0 \<longleftrightarrow> map ascii_to_lower l = map ascii_to_lower r"
proof (induction l arbitrary: r)
  case Nil
  then show ?case by (cases r) simp_all
next
  case (Cons a l)
  then show ?case by (cases r) (simp_all add: compare_nocase_Cons lower_key_eq)
qed

lemma compare_nocase_sym: "compare_nocase r l = - compare_nocase l r"
proof (induction l arbitrary: r)
  case Nil
  then show ?case by (cases r) simp_all
next
  case (Cons a l)
  show ?case
  proof (cases r)
    case (Cons b r')
    have "compare_nocase r' l = - compare_nocase l r'" by (rule Cons.IH)
    then show ?thesis by (simp add: Cons compare_nocase_Cons)
  qed simp
qed

lemma compare_nocase_trans:
  "compare_nocase a b < 0 \<Longrightarrow> compare_nocase b c < 0 \<Longrightarrow> compare_nocase a c < 0"
proof (induction a arbitrary: b c)
  case Nil
  then show ?case by (cases b; cases c) simp_all
next
  case (Cons x a)
  obtain y b' z c' where "b = y # b'" "c = z # c'"
    using Cons.prems by (cases b; cases c) simp_all
  with Cons show ?case
    by (simp add: compare_nocase_Cons split: if_splits)
qed

lemma prefix_loop_iff:
  "prefix_loop p s \<longleftrightarrow>
     length p \<le> length s \<and> map ascii_to_lower (take (length p) s) = map ascii_to_lower p"
  by (induction p s rule: prefix_loop.induct) auto

section \<open>What the utilities promise\<close>


text \<open>
  Escaping straight into a stream buffer delivers the same bytes as escaping
  into a string, or, when the buffer has no room for them all, exactly the bytes that fit and
  an error.
\<close>

theorem escape_into_a_buffer:
  "escape_to_buf s b =
     (if length (escape s) \<le> room b
      then (0, b\<lparr>written := written b @ escape s, room := room b - length (escape s)\<rparr>)
      else (-1, b\<lparr>written := written b @ take (room b) (escape s), room := 0\<rparr>))"
  using escape_to_buf_full[of s b] escape_to_buf_short[of b s] by simp

text \<open>
  Property C37. A string survives URL encoding: decoding gives it back, the encoded form is at
  most three times as long and has only unreserved characters and percent signs.
\<close>

theorem url_encoding_round_trip:
  "urldecode (urlencode s) = s \<and> length (urlencode s) \<le> 3 * length s \<and>
     list_all (\<lambda>c. unreserved c \<or> c = CHR ''%'') (urlencode s)"
  using urldecode_urlencode urlencode_length urlencode_chars by (auto simp: list_all_iff)

text \<open>
  The comparison that orders the response headers is a strict weak order whose
  ties are the names that differ in case only, so the map of headers has one entry per name.
\<close>

theorem header_order:
  "(compare_nocase a b = 0 \<longleftrightarrow> map ascii_to_lower a = map ascii_to_lower b) \<and>
     compare_nocase b a = - compare_nocase a b \<and>
     (compare_nocase a b < 0 \<longrightarrow> compare_nocase b c < 0 \<longrightarrow> compare_nocase a c < 0)"
  using compare_nocase_eq_0 compare_nocase_sym compare_nocase_trans by blast

theorem header_order_witness:
  "compare_nocase ''Age'' ''date'' < 0 \<and> compare_nocase ''date'' ''ETag'' < 0 \<and>
     compare_nocase ''Age'' ''ETag'' < 0"
proof -
  have a: "compare_nocase ''Age'' ''date'' < 0" by code_simp
  have b: "compare_nocase ''date'' ''ETag'' < 0" by code_simp
  show ?thesis using header_order[of "''Age''" "''date''" "''ETag''"] a b by blast
qed

text \<open>
  \<open>unquote\<close> reads back what \<open>quote\<close> wrote only when the text has no quote and no
  backslash: \<open>quote\<close> does not escape, so a value with a quote in it is cut there and the rest
  of it is left in the header for the next token.
\<close>

theorem quoted_value_is_cut:
  assumes "CHR 0x22 \<notin> set s" "CHR 0x5C \<notin> set s"
  shows "unquote (quote s @ r) = (s, r) \<and>
    unquote (quote (s @ CHR 0x22 # t) @ r) = (s, quote_body t @ CHR 0x22 # r)"
  using unquote_quote[OF assms] quote_body_stops_at_quote[OF assms] by blast

theorem quoted_value_is_cut_witness:
  "unquote (quote (''a'' @ CHR 0x22 # ''; admin'') @ '';'') = (''a'', quote_body ''; admin'' @ CHR 0x22 # '';'')"
  using quoted_value_is_cut[of "''a''" "'';''" "''; admin''"] by simp

end
