(* ===== verification/Base64.thy ===== *)
theory Base64
  imports Prelude
begin

unbundle bit_operations_syntax

text \<open>
  \<open>lib/cppcms/src/base64.cpp\<close>: base64 with the URL alphabet, which the session code uses for
  tokens and cookies. An \<open>unsigned char\<close> is an \<open>8 word\<close>; the \<open>target\<close> buffer of the C++
  routines is the list they write, whose length is what the returned pointer says.
\<close>

type_synonym uchar = "8 word"

definition to_uc :: "char \<Rightarrow> uchar" where
  "to_uc c = word_of_nat (byte c)"

definition of_uc :: "uchar \<Rightarrow> char" where
  "of_uc w = chr (unat w)"

definition encode_6_to_8 :: string where
  "encode_6_to_8 = ''ABCDEFGHIJKLMNOPQRSTUVWXYZabcdefghijklmnopqrstuvwxyz0123456789-_''"

definition enc6 :: "uchar \<Rightarrow> uchar" where
  "enc6 w = to_uc (encode_6_to_8 ! unat w)"

definition encode_8_to_6 :: "uchar \<Rightarrow> uchar" where
  "encode_8_to_6 c =
     (if 65 \<le> c \<and> c \<le> 90 then c - 65
      else if 97 \<le> c \<and> c \<le> 122 then 26 + c - 97
      else if 48 \<le> c \<and> c \<le> 57 then 52 + c - 48
      else if c = 45 then 62
      else if c = 95 then 63
      else 0)"

text \<open>\<open>bencode(in, out, len)\<close> for the \<open>len\<close> bytes that are left, three at most.\<close>

fun bencode :: "uchar list \<Rightarrow> uchar list" where
  "bencode [] = []"
| "bencode [a] = [enc6 (drop_bit 2 a), enc6 (push_bit 4 (a AND 0x03))]"
| "bencode [a, b] =
     [enc6 (drop_bit 2 a),
      enc6 (push_bit 4 (a AND 0x03) OR drop_bit 4 (b AND 0xf0)),
      enc6 (push_bit 2 (b AND 0x0f))]"
| "bencode (a # b # c # _) =
     [enc6 (drop_bit 2 a),
      enc6 (push_bit 4 (a AND 0x03) OR drop_bit 4 (b AND 0xf0)),
      enc6 (push_bit 2 (b AND 0x0f) OR drop_bit 6 (c AND 0xc0)),
      enc6 (c AND 0x3f)]"

definition inp :: "uchar list \<Rightarrow> nat \<Rightarrow> uchar" where
  "inp in8 i = (if i < length in8 then encode_8_to_6 (in8 ! i) else 0)"

definition bdecode :: "uchar list \<Rightarrow> uchar list" where
  "bdecode in8 =
     (let o0 = push_bit 2 (inp in8 0) OR drop_bit 4 (inp in8 1);
          o1 = push_bit 4 (inp in8 1) OR drop_bit 2 (inp in8 2);
          o2 = (push_bit 6 (inp in8 2) AND 0xc0) OR inp in8 3
      in if length in8 = 2 then [o0] else if length in8 = 3 then [o0, o1] else [o0, o1, o2])"

definition encoded_size :: "nat \<Rightarrow> nat" where
  "encoded_size s =
     (if s mod 3 = 1 then s div 3 * 4 + 2
      else if s mod 3 = 2 then s div 3 * 4 + 3
      else s div 3 * 4)"

definition decoded_size :: "nat \<Rightarrow> int" where
  "decoded_size s =
     (if s mod 4 = 1 then -1
      else if s mod 4 = 2 then int (s div 4 * 3 + 1)
      else if s mod 4 = 3 then int (s div 4 * 3 + 2)
      else int (s div 4 * 3))"

fun encode :: "uchar list \<Rightarrow> uchar list" where
  "encode (a # b # c # r) = bencode [a, b, c] @ encode r"
| "encode r = (if r \<noteq> [] then bencode r else [])"

fun decode :: "uchar list \<Rightarrow> uchar list" where
  "decode (a # b # c # d # r) = bdecode [a, b, c, d] @ decode r"
| "decode r = (if r \<noteq> [] then bdecode r else [])"

text \<open>The \<open>std::string\<close> interface; \<open>output\<close> is the caller's string, passed by reference.\<close>

definition encode_string :: "string \<Rightarrow> string" where
  "encode_string input =
     (if encoded_size (length input) = 0 then []
      else map of_uc (encode (map to_uc input)))"

definition decode_string :: "string \<Rightarrow> string \<Rightarrow> bool \<times> string" where
  "decode_string input output =
     (let ds = decoded_size (length input)
      in if ds < 0 then (False, output)
         else if ds = 0 then (True, output)
         else (True, map of_uc (take (nat ds) (decode (map to_uc input)))))"

section \<open>Round trip\<close>

lemma of_uc_to_uc [simp]: "of_uc (to_uc c) = c"
  by (simp add: of_uc_def to_uc_def unat_of_nat)

lemma to_uc_of_uc [simp]: "to_uc (of_uc w) = w"
proof -
  have "unat w < 256" using unsigned_less[of w] by simp
  then show ?thesis by (simp add: of_uc_def to_uc_def)
qed

lemma encode_8_to_6_enc6: "w < 64 \<Longrightarrow> encode_8_to_6 (enc6 w) = w"
proof -
  have all: "\<forall>n \<in> set [0..<64]. encode_8_to_6 (enc6 (word_of_nat n)) = word_of_nat n"
    by (simp add: upt_conv_Cons encode_8_to_6_def enc6_def encode_6_to_8_def to_uc_def
        word_le_nat_alt)
  assume "w < 64"
  then have "unat w \<in> set [0..<64]" by (simp add: word_less_nat_alt)
  then show ?thesis using all[rule_format, of "unat w"] by simp
qed

lemma uchar_bits_eqI:
  fixes v w :: uchar
  assumes "bit v 0 = bit w 0" "bit v 1 = bit w 1" "bit v 2 = bit w 2" "bit v 3 = bit w 3"
    "bit v 4 = bit w 4" "bit v 5 = bit w 5" "bit v 6 = bit w 6" "bit v 7 = bit w 7"
  shows "v = w"
proof (rule bit_word_eqI)
  fix n :: nat
  assume "n < LENGTH(8)"
  then have "n \<in> {0, 1, 2, 3, 4, 5, 6, 7}" by auto
  then show "bit v n = bit w n" using assms by auto
qed

lemma uchar_no_bit [simp]: "8 \<le> n \<Longrightarrow> \<not> bit v n" for v :: uchar
  using bit_imp_le_length[of v n] by auto

lemma less_64_bits: "\<not> bit v 6 \<Longrightarrow> \<not> bit v 7 \<Longrightarrow> v < 64" for v :: uchar
proof -
  assume "\<not> bit v 6" "\<not> bit v 7"
  then have "v AND 0x3f = v"
    by (intro uchar_bits_eqI) (simp_all add: bit_simps)
  moreover have "v AND 0x3f \<le> 0x3f" by (rule word_and_le1)
  ultimately have "v \<le> 0x3f" by simp
  then show "v < 64" by (simp add: word_le_nat_alt word_less_nat_alt)
qed

lemma sextet_bounds:
  fixes a b c :: uchar
  shows "drop_bit 2 a < 64"
    and "push_bit 4 (a AND 0x03) < 64"
    and "push_bit 4 (a AND 0x03) OR drop_bit 4 (b AND 0xf0) < 64"
    and "push_bit 2 (b AND 0x0f) < 64"
    and "push_bit 2 (b AND 0x0f) OR drop_bit 6 (c AND 0xc0) < 64"
    and "c AND 0x3f < 64"
  by (rule less_64_bits; simp add: bit_simps)+

lemma octets_from_sextets:
  fixes a b c :: uchar
  shows "push_bit 2 (drop_bit 2 a) OR drop_bit 4 (push_bit 4 (a AND 0x03)) = a"
    and "push_bit 2 (drop_bit 2 a) OR
           drop_bit 4 (push_bit 4 (a AND 0x03) OR drop_bit 4 (b AND 0xf0)) = a"
    and "push_bit 4 (push_bit 4 (a AND 0x03) OR drop_bit 4 (b AND 0xf0)) OR
           drop_bit 2 (push_bit 2 (b AND 0x0f)) = b"
    and "push_bit 4 (push_bit 4 (a AND 0x03) OR drop_bit 4 (b AND 0xf0)) OR
           drop_bit 2 (push_bit 2 (b AND 0x0f) OR drop_bit 6 (c AND 0xc0)) = b"
    and "push_bit 6 (push_bit 2 (b AND 0x0f) OR drop_bit 6 (c AND 0xc0)) AND 0xc0 OR
           (c AND 0x3f) = c"
  by (rule uchar_bits_eqI; simp add: bit_simps)+

lemmas sextets = encode_8_to_6_enc6[OF sextet_bounds(1)] encode_8_to_6_enc6[OF sextet_bounds(2)]
  encode_8_to_6_enc6[OF sextet_bounds(3)] encode_8_to_6_enc6[OF sextet_bounds(4)]
  encode_8_to_6_enc6[OF sextet_bounds(5)] encode_8_to_6_enc6[OF sextet_bounds(6)]

lemma bdecode_bencode:
  "bdecode (bencode [a]) = [a]"
  "bdecode (bencode [a, b]) = [a, b]"
  "bdecode (bencode [a, b, c]) = [a, b, c]"
  by (simp_all only: bencode.simps bdecode_def inp_def Let_def)
     (simp_all add: sextets[simplified] octets_from_sextets[simplified])

lemma decode_encode: "decode (encode xs) = xs"
proof (induction xs rule: encode.induct)
  case (1 a b c r)
  then show ?case
    using bdecode_bencode(3)[of a b c] by simp
qed (use bdecode_bencode in simp_all)

lemma encoded_size_add3: "encoded_size (3 + n) = 4 + encoded_size n"
proof -
  have "(3 + n) div 3 = 1 + n div 3" by presburger
  then show ?thesis by (simp add: encoded_size_def)
qed

lemma length_bencode: "length (bencode [a, b, c]) = 4"
  by simp

lemma length_encode: "length (encode xs) = encoded_size (length xs)"
proof (induction xs rule: encode.induct)
  case (1 a b c r)
  have "length (a # b # c # r) = 3 + length r" by simp
  with 1 show ?case by (simp only: encoded_size_add3 encode.simps length_append length_bencode)
qed (simp_all add: encoded_size_def)

lemma length_bdecode:
  "length (bdecode xs) = (if length xs = 2 then 1 else if length xs = 3 then 2 else 3)"
  by (simp add: bdecode_def Let_def)

lemma decoded_size_add4: "0 \<le> decoded_size n \<Longrightarrow> decoded_size (4 + n) = 3 + decoded_size n"
proof -
  have "(4 + n) div 4 = 1 + n div 4" by presburger
  then show "0 \<le> decoded_size n \<Longrightarrow> ?thesis" by (simp add: decoded_size_def split: if_splits)
qed

lemma decoded_size_add4_neg: "decoded_size (4 + n) < 0 \<longleftrightarrow> decoded_size n < 0"
  by (simp add: decoded_size_def)

lemma length_decode:
  "decoded_size (length xs) \<ge> 0 \<Longrightarrow> int (length (decode xs)) = decoded_size (length xs)"
proof (induction xs rule: decode.induct)
  case (1 a b c d r)
  have len: "length (a # b # c # d # r) = 4 + length r" by simp
  with 1(2) have nn: "0 \<le> decoded_size (length r)"
    using decoded_size_add4_neg[of "length r"] unfolding len by linarith
  have "int (length (decode (a # b # c # d # r))) = 3 + int (length (decode r))"
    by (simp add: length_bdecode)
  also have "\<dots> = decoded_size (length (a # b # c # d # r))"
    using 1(1)[OF nn] nn by (simp only: len decoded_size_add4)
  finally show ?case .
qed (simp_all add: decoded_size_def length_bdecode)

lemma decoded_encoded_size: "decoded_size (encoded_size n) = int n"
proof -
  obtain q r where n: "n = 3 * q + r" "r < 3"
    using mult_div_mod_eq[of 3 n] by (metis mod_less_divisor zero_less_numeral)
  then have "r = 0 \<or> r = 1 \<or> r = 2" by arith
  then show ?thesis
  proof (elim disjE)
    assume r: "r = 0"
    then have "encoded_size n = 4 * q" by (simp add: encoded_size_def n)
    then show ?thesis by (simp add: decoded_size_def n r)
  next
    assume r: "r = 1"
    have "(3 * q + 1) mod 3 = 1" "(3 * q + 1) div 3 = q" by presburger+
    then have "encoded_size n = 4 * q + 2" by (simp add: encoded_size_def n r)
    moreover have "(4 * q + 2) mod 4 = 2" "(4 * q + 2) div 4 = q" by presburger+
    ultimately show ?thesis by (simp add: decoded_size_def n r)
  next
    assume r: "r = 2"
    have "(3 * q + 2) mod 3 = 2" "(3 * q + 2) div 3 = q" by presburger+
    then have "encoded_size n = 4 * q + 3" by (simp add: encoded_size_def n r)
    moreover have "(4 * q + 3) mod 4 = 3" "(4 * q + 3) div 4 = q" by presburger+
    ultimately show ?thesis by (simp add: decoded_size_def n r)
  qed
qed

lemma decode_encode_string: "decode_string (encode_string s) old = (True, if s = [] then old else s)"
proof (cases "s = []")
  case True
  then show ?thesis by (simp add: encode_string_def decode_string_def encoded_size_def decoded_size_def)
next
  case False
  then have nz: "encoded_size (length s) \<noteq> 0"
    using decoded_encoded_size[of "length s"]
    by (metis decoded_size_def div_0 length_0_conv mod_0 mult_0 of_nat_0 of_nat_eq_0_iff
        zero_neq_numeral zero_neq_one)
  then have e: "encode_string s = map of_uc (encode (map to_uc s))"
    by (simp add: encode_string_def)
  have "decoded_size (length (encode_string s)) = int (length s)"
    by (simp add: e length_encode decoded_encoded_size)
  moreover have "decode (map to_uc (encode_string s)) = map to_uc s"
    by (simp add: e decode_encode o_def)
  ultimately show ?thesis using False by (simp add: decode_string_def o_def)
qed


end
