(* ===== verification/Utf.thy ===== *)
theory Utf
  imports Prelude
begin

unbundle bit_operations_syntax

text \<open>
  UTF-8 and UTF-16 as \<open>private/utf_iterator.h\<close> decodes, validates and encodes them, with the
  proof that the validator accepts exactly the encodings of code points.
\<close>

section \<open>UTF-8\<close>

definition utf_valid :: "nat \<Rightarrow> bool" where
  "utf_valid v \<longleftrightarrow> \<not> v > 0x10FFFF \<and> \<not> (0xD800 \<le> v \<and> v \<le> 0xDFFF)"

definition is_trail :: "char \<Rightarrow> bool" where
  "is_trail c \<longleftrightarrow> byte c AND 0xC0 = 0x80"

definition trail_length :: "nat \<Rightarrow> nat option" where
  "trail_length c =
     (if c < 128 then Some 0
      else if c < 194 then None
      else if c < 224 then Some 1
      else if c < 240 then Some 2
      else if c \<le> 244 then Some 3
      else None)"

definition utf8_width :: "nat \<Rightarrow> nat" where
  "utf8_width v = (if v \<le> 0x7F then 1 else if v \<le> 0x7FF then 2 else if v \<le> 0xFFFF then 3 else 4)"

text \<open>The cases 3, 2 and 1 of the switch, falling through: n trail bytes are read.\<close>

fun read_trail :: "nat \<Rightarrow> nat \<Rightarrow> string \<Rightarrow> nat option \<times> string" where
  "read_trail 0 c s = (Some c, s)"
| "read_trail (Suc n) c [] = (None, [])"
| "read_trail (Suc n) c (t # s) =
     (if \<not> is_trail t then (None, s) else read_trail n (push_bit 6 c OR (byte t AND 0x3F)) s)"

text \<open>\<open>utf8::next\<close>: the code point, \<open>None\<close> for \<open>illegal\<close>, and where the iterator stands then.\<close>

fun utf8_next :: "bool \<Rightarrow> string \<Rightarrow> nat option \<times> string" where
  "utf8_next html [] = (None, [])"
| "utf8_next html (l # s) =
     (let lead = byte l in
      case trail_length lead of
        None \<Rightarrow> (None, s)
      | Some 0 \<Rightarrow>
          if \<not> html \<or> lead \<ge> 0x20 \<and> lead \<noteq> 0x7F \<or> lead = 0x9 \<or> lead = 0x0A \<or> lead = 0x0D
          then (Some lead, s) else (None, s)
      | Some n \<Rightarrow>
          (case read_trail n (lead AND (2 ^ (6 - n) - 1)) s of
             (None, r) \<Rightarrow> (None, r)
           | (Some c, r) \<Rightarrow>
               if \<not> utf_valid c then (None, r)
               else if utf8_width c \<noteq> n + 1 then (None, r)
               else if html \<and> c < 0xA0 then (None, r)
               else (Some c, r)))"

lemma read_trail_rest: "length (snd (read_trail n c s)) \<le> length s"
  by (induction n c s rule: read_trail.induct) auto

lemma utf8_next_shorter: "s \<noteq> [] \<Longrightarrow> length (snd (utf8_next html s)) < length s"
  using read_trail_rest
  by (cases s) (auto simp: Let_def less_Suc_eq_le split: option.split nat.split prod.split,
      (metis snd_conv)+)

text \<open>\<open>utf8::validate\<close>: the number of code points of a valid text.\<close>

function utf8_validate :: "bool \<Rightarrow> string \<Rightarrow> nat option" where
  "utf8_validate html s =
     (if s = [] then Some 0
      else case utf8_next html s of
        (None, _) \<Rightarrow> None
      | (Some _, r) \<Rightarrow> map_option Suc (utf8_validate html r))"
  by pat_completeness auto
termination
  by (relation "measure (\<lambda>(_, s). length s)") (auto, metis utf8_next_shorter length_greater_0_conv snd_conv)

declare utf8_validate.simps [simp del]

text \<open>\<open>utf8::encode\<close>; a byte takes the low eight bits.\<close>

definition utf8_encode :: "nat \<Rightarrow> string" where
  "utf8_encode v =
     (if v \<le> 0x7F then [chr v]
      else if v \<le> 0x7FF
      then [chr (drop_bit 6 v OR 0xC0), chr ((v AND 0x3F) OR 0x80)]
      else if v \<le> 0xFFFF
      then [chr (drop_bit 12 v OR 0xE0), chr ((drop_bit 6 v AND 0x3F) OR 0x80), chr ((v AND 0x3F) OR 0x80)]
      else [chr (drop_bit 18 v OR 0xF0), chr ((drop_bit 12 v AND 0x3F) OR 0x80),
            chr ((drop_bit 6 v AND 0x3F) OR 0x80), chr ((v AND 0x3F) OR 0x80)])"

section \<open>UTF-16\<close>

definition is_first_surrogate :: "nat \<Rightarrow> bool" where
  "is_first_surrogate x \<longleftrightarrow> 0xD800 \<le> x \<and> x \<le> 0xDBFF"

definition is_second_surrogate :: "nat \<Rightarrow> bool" where
  "is_second_surrogate x \<longleftrightarrow> 0xDC00 \<le> x \<and> x \<le> 0xDFFF"

definition combine_surrogate :: "nat \<Rightarrow> nat \<Rightarrow> nat" where
  "combine_surrogate w1 w2 = (push_bit 10 (w1 AND 0x3FF) OR (w2 AND 0x3FF)) + 0x10000"

fun utf16_next :: "nat list \<Rightarrow> nat option \<times> nat list" where
  "utf16_next [] = (None, [])"
| "utf16_next (w1 # s) =
     (if w1 < 0xD800 \<or> 0xDFFF < w1 then (Some w1, s)
      else if w1 > 0xDBFF then (None, s)
      else
        (case s of
           [] \<Rightarrow> (None, [])
         | w2 # r \<Rightarrow>
             if w2 < 0xDC00 \<or> 0xDFFF < w2 then (None, r) else (Some (combine_surrogate w1 w2), r)))"

definition utf16_width :: "nat \<Rightarrow> nat" where
  "utf16_width u = (if u \<ge> 0x100000 then 2 else 1)"

definition utf16_encode :: "nat \<Rightarrow> nat list" where
  "utf16_encode u =
     (if u \<le> 0xFFFF then [take_bit 16 u]
      else (let v = u - 0x10000 in [take_bit 16 (0xD800 OR drop_bit 10 v), 0xDC00 OR (v AND 0x3FF)]))"

section \<open>Arithmetic of the encoding\<close>

lemma low_bits: "(x::nat) AND 0x3F = x mod 64" "(x::nat) AND 0x1F = x mod 32" "(x::nat) AND 0x0F = x mod 16"
  "(x::nat) AND 7 = x mod 8"
  using take_bit_eq_mask[of 6 x] take_bit_eq_mask[of 5 x] take_bit_eq_mask[of 4 x] take_bit_eq_mask[of 3 x]
  by (simp_all add: take_bit_eq_mod mask_eq_exp_minus_1)

lemma or_low: "(b::nat) < 2 ^ n \<Longrightarrow> push_bit n c OR b = c * 2 ^ n + b"
proof -
  assume b: "b < 2 ^ n"
  then have "take_bit n b = b" by (simp add: take_bit_nat_eq_self)
  then have "\<not> bit b m" if "n \<le> m" for m using that by (metis bit_take_bit_iff not_less)
  then have "push_bit n c AND b = 0"
    by (intro bit_eqI) (auto simp: bit_simps)
  then have "push_bit n c + b = push_bit n c OR b" by (rule disjunctive_add_eq_or)
  then show ?thesis by (simp add: push_bit_eq_mult)
qed

lemma marker_bits:
  "(b::nat) < 64 \<Longrightarrow> b OR 0x80 = b + 128" "(b::nat) < 32 \<Longrightarrow> b OR 0xC0 = b + 192"
  "(b::nat) < 16 \<Longrightarrow> b OR 0xE0 = b + 224" "(b::nat) < 8 \<Longrightarrow> b OR 0xF0 = b + 240"
proof -
  have o: "b OR d = b + c * 2 ^ n" if "b < 2 ^ n" "push_bit n c = d" for n c d :: nat
    using or_low[OF that(1), of c] that(2) by (metis or.commute add.commute)
  have p: "(64::nat) \<le> 2 ^ 7" "(32::nat) \<le> 2 ^ 6" "(16::nat) \<le> 2 ^ 5" "(8::nat) \<le> 2 ^ 4" by simp_all
  have r: "push_bit 7 1 = (0x80::nat)" "push_bit 6 3 = (0xC0::nat)" "push_bit 5 7 = (0xE0::nat)"
    "push_bit 4 15 = (0xF0::nat)" by (simp_all add: push_bit_eq_mult)
  have q: "1 * 2 ^ 7 = (128::nat)" "3 * 2 ^ 6 = (192::nat)" "7 * 2 ^ 5 = (224::nat)" "15 * 2 ^ 4 = (240::nat)"
    by simp_all
  show "b OR 0x80 = b + 128" if "b < 64"
    using o[OF less_le_trans[OF that p(1)] r(1)] unfolding q .
  show "b OR 0xC0 = b + 192" if "b < 32"
    using o[OF less_le_trans[OF that p(2)] r(2)] unfolding q .
  show "b OR 0xE0 = b + 224" if "b < 16"
    using o[OF less_le_trans[OF that p(3)] r(3)] unfolding q .
  show "b OR 0xF0 = b + 240" if "b < 8"
    using o[OF less_le_trans[OF that p(4)] r(4)] unfolding q .
qed

lemma and_high: "(x::nat) AND push_bit n m = push_bit n (drop_bit n x AND m)"
  by (rule bit_eqI) (auto simp: bit_simps)

lemma is_trail_range: "is_trail c \<longleftrightarrow> 128 \<le> byte c \<and> byte c < 192"
proof -
  have "byte c div 64 < 4" by (simp only: div_less_iff_less_mult) simp
  moreover have "(x::nat) AND 3 = x mod 4" for x
    using take_bit_eq_mask[of 2 x] by (simp add: take_bit_eq_mod mask_eq_exp_minus_1)
  ultimately have "byte c AND push_bit 6 3 = byte c div 64 * 64"
    unfolding and_high by (simp add: drop_bit_eq_div push_bit_eq_mult)
  moreover have "push_bit 6 3 = (0xC0::nat)" by (simp add: push_bit_eq_mult)
  ultimately have "byte c AND 0xC0 = byte c div 64 * 64" by simp
  moreover have "x div 64 * 64 = 128 \<longleftrightarrow> 128 \<le> x \<and> x < 192" for x :: nat
  proof -
    obtain q r where "x div 64 = q" "x = q * 64 + r" "r < 64"
      by (metis div_mult_mod_eq mod_less_divisor zero_less_numeral)
    then show ?thesis by (cases "q \<le> 1"; cases "q = 2") auto
  qed
  ultimately show ?thesis unfolding is_trail_def by simp
qed

lemma trail_bits: "push_bit 6 c OR (byte t AND 0x3F) = c * 64 + byte t mod 64"
  using or_low[of "byte t mod 64" 6 c] by (simp add: low_bits)

text \<open>The bytes of a code point, in arithmetic.\<close>

definition utf8_bytes :: "nat \<Rightarrow> nat list" where
  "utf8_bytes v =
     (if v < 128 then [v]
      else if v < 2048 then [v div 64 + 192, v mod 64 + 128]
      else if v < 65536 then [v div 4096 + 224, v div 64 mod 64 + 128, v mod 64 + 128]
      else [v div 262144 + 240, v div 4096 mod 64 + 128, v div 64 mod 64 + 128, v mod 64 + 128])"

lemma utf8_encode_bytes:
  assumes "v \<le> 0x10FFFF"
  shows "utf8_encode v = map chr (utf8_bytes v)"
proof -
  have m: "x mod 64 OR 0x80 = x mod 64 + 128" for x :: nat by (rule marker_bits(1)) simp
  have l: "v \<le> 0x7FF \<Longrightarrow> v div 64 OR 0xC0 = v div 64 + 192"
    "v \<le> 0xFFFF \<Longrightarrow> v div 4096 OR 0xE0 = v div 4096 + 224"
    "v div 262144 OR 0xF0 = v div 262144 + 240"
    using assms by (intro marker_bits; simp only: div_less_iff_less_mult; linarith)+
  have d: "drop_bit 6 v = v div 64" "drop_bit 12 v = v div 4096" "drop_bit 18 v = v div 262144"
    by (simp_all add: drop_bit_eq_div)
  have c: "v \<le> 0x7F \<longleftrightarrow> v < 128" "v \<le> 0x7FF \<longleftrightarrow> v < 2048" "v \<le> 0xFFFF \<longleftrightarrow> v < 65536" by linarith+
  show ?thesis
    using l unfolding utf8_encode_def utf8_bytes_def d low_bits m c
    by (cases "v < 128"; cases "v < 2048"; cases "v < 65536") (simp_all only: if_True if_False list.map)
qed

lemma utf8_bytes_range: "v \<le> 0x10FFFF \<Longrightarrow> \<forall>b \<in> set (utf8_bytes v). b < 256"
  by (auto simp: utf8_bytes_def)

section \<open>Decoding and encoding\<close>

lemma read_trail_Cons:
  "read_trail (Suc n) c (t # s) =
     (if \<not> (128 \<le> byte t \<and> byte t < 192) then (None, s) else read_trail n (c * 64 + byte t mod 64) s)"
  unfolding read_trail.simps trail_bits is_trail_range by (rule refl)

lemma read_trail_step: "y < 64 \<Longrightarrow> read_trail (Suc n) c (chr (y + 128) # s) = read_trail n (c * 64 + y) s"
proof -
  assume y: "y < 64"
  then have "byte (chr (y + 128)) = y + 128" by (intro byte_chr) simp
  moreover have "(y + 128) mod 64 = y" using y mod_mult_self2[of y 64 2] by simp
  ultimately show ?thesis using y unfolding read_trail_Cons by simp
qed

lemma read_trail_SomeD:
  "read_trail n c s = (Some v, r) \<Longrightarrow>
     \<exists>ys. length ys = n \<and> (\<forall>y \<in> set ys. y < 64) \<and> s = map (\<lambda>y. chr (y + 128)) ys @ r \<and>
       v = foldl (\<lambda>c y. c * 64 + y) c ys"
proof (induction n c s rule: read_trail.induct)
  case (3 n c t s)
  have t: "128 \<le> byte t" "byte t < 192" and rd: "read_trail n (c * 64 + byte t mod 64) s = (Some v, r)"
    using 3(2) unfolding read_trail_Cons by (simp_all split: if_splits)
  then have "is_trail t" by (simp add: is_trail_range)
  then obtain ys where ys: "length ys = n" "\<forall>y \<in> set ys. y < 64"
    "s = map (\<lambda>y. chr (y + 128)) ys @ r" "v = foldl (\<lambda>c y. c * 64 + y) (c * 64 + byte t mod 64) ys"
    using 3(1)[unfolded trail_bits] rd by blast
  moreover have "byte t mod 64 = byte t - 128"
    using t mod_mult_self2[of "byte t - 128" 64 2] by simp
  ultimately have "length ((byte t mod 64) # ys) = Suc n \<and> (\<forall>y \<in> set ((byte t mod 64) # ys). y < 64) \<and>
      t # s = map (\<lambda>y. chr (y + 128)) ((byte t mod 64) # ys) @ r \<and>
      v = foldl (\<lambda>c y. c * 64 + y) c ((byte t mod 64) # ys)"
    using t by simp
  then show ?case by blast
qed auto

text \<open>What the lead byte says.\<close>

lemma next_lead:
  assumes "trail_length (byte l) = Some (Suc n)"
  shows "utf8_next False (l # s) =
    (case read_trail (Suc n) (byte l mod 2 ^ (5 - n)) s of
       (None, r) \<Rightarrow> (None, r)
     | (Some c, r) \<Rightarrow> if utf_valid c \<and> utf8_width c = n + 2 then (Some c, r) else (None, r))"
proof -
  have n: "n \<in> {0, 1, 2}" using assms by (auto simp: trail_length_def split: if_splits)
  then have "byte l AND (2 ^ (6 - Suc n) - 1) = byte l mod 2 ^ (5 - n)"
    by (elim insertE emptyE; simp add: low_bits)
  then show ?thesis using assms
    by (simp del: read_trail.simps split: prod.split option.split)
qed

lemma next_ascii:
  assumes "byte l < 128"
  shows "utf8_next html (l # s) =
    (if \<not> html \<or> byte l \<ge> 0x20 \<and> byte l \<noteq> 0x7F \<or> byte l = 0x9 \<or> byte l = 0x0A \<or> byte l = 0x0D
     then (Some (byte l), s) else (None, s))"
  using assms by (simp add: trail_length_def Let_def)

declare utf8_next.simps(2) [simp del] read_trail.simps(3) [simp del]

lemma lead_ranges:
  "trail_length b = Some 0 \<longleftrightarrow> b < 128" "trail_length b = Some 1 \<longleftrightarrow> 194 \<le> b \<and> b < 224"
  "trail_length b = Some 2 \<longleftrightarrow> 224 \<le> b \<and> b < 240" "trail_length b = Some 3 \<longleftrightarrow> 240 \<le> b \<and> b \<le> 244"
  by (auto simp: trail_length_def)

lemma next_encode:
  assumes "utf_valid v"
  shows "utf8_next False (utf8_encode v @ r) = (Some v, r)"
proof -
  have v: "v \<le> 0x10FFFF" using assms by (simp add: utf_valid_def)
  consider "v < 128" | "128 \<le> v" "v < 2048" | "2048 \<le> v" "v < 65536" | "65536 \<le> v" by linarith
  then show ?thesis
  proof cases
    case 1
    then show ?thesis by (simp add: utf8_encode_bytes[OF v] utf8_bytes_def next_ascii)
  next
    case 2
    define q y where "q = v div 64" and "y = v mod 64"
    have e: "v = q * 64 + y" "y < 64" by (simp_all add: q_def y_def)
    have q: "2 \<le> q" "q < 32" using 2 e by linarith+
    have l: "byte (chr (q + 192)) = q + 192" "(q + 192) mod 32 = q"
      using q mod_mult_self2[of q 32 6] by simp_all
    have "utf8_encode v = [chr (q + 192), chr (y + 128)]"
      using 2 by (simp add: utf8_encode_bytes[OF v] utf8_bytes_def q_def y_def)
    moreover have "trail_length (q + 192) = Some (Suc 0)" using q by (simp add: trail_length_def)
    ultimately show ?thesis
      using next_lead[of "chr (q + 192)" 0] l read_trail_step[OF e(2), of 0] assms 2 e(1)
      by (simp add: utf8_width_def)
  next
    case 3
    define q x y where "q = v div 4096" and "x = v div 64 mod 64" and "y = v mod 64"
    have e: "v = (q * 64 + x) * 64 + y" "x < 64" "y < 64"
      using div_mult2_eq[of v 64 64] by (simp_all add: q_def x_def y_def)
    have q: "q < 16" using 3 unfolding q_def by (simp add: div_less_iff_less_mult)
    have l: "byte (chr (q + 224)) = q + 224" "(q + 224) mod 16 = q"
      using q mod_mult_self2[of q 16 14] by simp_all
    have "utf8_encode v = [chr (q + 224), chr (x + 128), chr (y + 128)]"
      using 3 by (simp add: utf8_encode_bytes[OF v] utf8_bytes_def q_def x_def y_def)
    moreover have "trail_length (q + 224) = Some (Suc 1)" using q by (simp add: trail_length_def)
    ultimately show ?thesis
      using next_lead[of "chr (q + 224)" 1] l read_trail_step[OF e(2), of 1] read_trail_step[OF e(3), of 0]
        assms 3 e(1)
      by (simp add: utf8_width_def)
  next
    case 4
    define q z x y where "q = v div 262144" and "z = v div 4096 mod 64" and "x = v div 64 mod 64" and "y = v mod 64"
    have e: "v = ((q * 64 + z) * 64 + x) * 64 + y" "z < 64" "x < 64" "y < 64"
      using div_mult2_eq[of v 64 64] div_mult2_eq[of v 4096 64] by (simp_all add: q_def z_def x_def y_def)
    have "q < 5" using v unfolding q_def by (simp add: div_less_iff_less_mult)
    then have q: "q \<le> 4" by simp
    have l: "byte (chr (q + 240)) = q + 240" "(q + 240) mod 8 = q"
      using q mod_mult_self2[of q 8 30] by simp_all
    have "utf8_encode v = [chr (q + 240), chr (z + 128), chr (x + 128), chr (y + 128)]"
      using 4 by (simp add: utf8_encode_bytes[OF v] utf8_bytes_def q_def z_def x_def y_def)
    moreover have "trail_length (q + 240) = Some (Suc 2)" using q by (simp add: trail_length_def)
    ultimately show ?thesis
      using next_lead[of "chr (q + 240)" 2] l read_trail_step[OF e(2), of 2] read_trail_step[OF e(3), of 1]
        read_trail_step[OF e(4), of 0] assms 4 e(1)
      by (simp add: utf8_width_def flip: numeral_2_eq_2)
  qed
qed

lemma lead_mod: "194 \<le> b \<Longrightarrow> b < 224 \<Longrightarrow> b mod 32 + 192 = (b::nat)" "224 \<le> b \<Longrightarrow> b < 240 \<Longrightarrow> b mod 16 + 224 = b"
  "240 \<le> b \<Longrightarrow> b \<le> 244 \<Longrightarrow> b mod 8 + 240 = b"
  using mod_mult_self2[of "b - 192" 32 6] mod_mult_self2[of "b - 224" 16 14] mod_mult_self2[of "b - 240" 8 30]
  by simp_all

lemma split_64: "(y::nat) < 64 \<Longrightarrow> (y + k * 64) div 64 = k" "(y::nat) < 64 \<Longrightarrow> (y + k * 64) mod 64 = y"
  by simp_all

lemma next_decode:
  assumes "utf8_next False s = (Some v, r)"
  shows "utf_valid v \<and> s = utf8_encode v @ r"
proof -
  obtain l s' where s: "s = l # s'" using assms by (cases s) auto
  obtain n where n: "trail_length (byte l) = Some n"
    using assms s by (cases "trail_length (byte l)") (simp_all add: utf8_next.simps(2))
  show ?thesis
  proof (cases n)
    case 0
    then have b: "byte l < 128" using n lead_ranges(1) by simp
    then have v: "v = byte l" "r = s'" using assms s by (simp_all add: next_ascii)
    then show ?thesis using b s by (simp add: utf_valid_def utf8_encode_def)
  next
    case (Suc m)
    have m: "m = 0 \<or> m = 1 \<or> m = 2" using n Suc by (auto simp: trail_length_def split: if_splits)
    have rd: "read_trail (Suc m) (byte l mod 2 ^ (5 - m)) s' = (Some v, r)"
      and ok: "utf_valid v" "utf8_width v = m + 2"
      using assms s next_lead[OF n[unfolded Suc], of s'] by (auto split: prod.splits option.splits if_splits)
    obtain ys where ys: "length ys = Suc m" "\<forall>y \<in> set ys. y < 64" "s' = map (\<lambda>y. chr (y + 128)) ys @ r"
      "v = foldl (\<lambda>c y. c * 64 + y) (byte l mod 2 ^ (5 - m)) ys"
      using read_trail_SomeD[OF rd] by blast
    have vv: "v \<le> 0x10FFFF" using ok(1) by (simp add: utf_valid_def)
    have "utf8_encode v = l # map (\<lambda>y. chr (y + 128)) ys"
      using m
    proof (elim disjE)
      assume m: "m = 0"
      then obtain y where y: "ys = [y]" "y < 64" using ys(1,2) by (auto simp: length_Suc_conv)
      define c where "c = byte l mod 32"
      have b: "c + 192 = byte l" using n Suc m lead_ranges(2) lead_mod(1) unfolding c_def by simp
      have v: "v = y + c * 64" using ys(4) y m by (simp add: c_def)
      have "v div 64 = c" "v mod 64 = y" using y(2) unfolding v by simp_all
      moreover have "\<not> v < 128" "v < 2048" using ok(2) m by (auto simp: utf8_width_def split: if_splits)
      ultimately show ?thesis
        using y by (simp add: utf8_encode_bytes[OF vv] utf8_bytes_def b)
    next
      assume m: "m = 1"
      then obtain x y where y: "ys = [x, y]" "x < 64" "y < 64" using ys(1,2) by (auto simp: length_Suc_conv)
      define c where "c = byte l mod 16"
      have b: "c + 224 = byte l" using n Suc m lead_ranges(3) lead_mod(2) unfolding c_def by (simp add: numeral_2_eq_2)
      have v: "v = y + (x + c * 64) * 64" using ys(4) y m by (simp add: c_def)
      have "v div 64 = x + c * 64" "v mod 64 = y" unfolding v by (rule split_64[OF y(3)])+
      moreover from this have "v div 4096 = c" "v div 64 mod 64 = x" using y(2) div_mult2_eq[of v 64 64] by simp_all
      moreover have "\<not> v < 128" "\<not> v < 2048" "v < 65536" using ok(2) m by (auto simp: utf8_width_def split: if_splits)
      ultimately show ?thesis
        using y by (simp add: utf8_encode_bytes[OF vv] utf8_bytes_def b)
    next
      assume m: "m = 2"
      then obtain z x y where y: "ys = [z, x, y]" "z < 64" "x < 64" "y < 64"
        using ys(1,2) by (auto simp: length_Suc_conv numeral_2_eq_2)
      define c where "c = byte l mod 8"
      have b: "c + 240 = byte l" using n Suc m lead_ranges(4) lead_mod(3) unfolding c_def by simp
      have v: "v = y + (x + (z + c * 64) * 64) * 64" using ys(4) y m by (simp add: c_def)
      have d: "v div 64 = x + (z + c * 64) * 64" "v mod 64 = y" unfolding v by (rule split_64[OF y(4)])+
      have "v div 4096 = v div 64 div 64" using div_mult2_eq[of v 64 64] by simp
      then have e: "v div 4096 = z + c * 64" "v div 64 mod 64 = x" unfolding d by (simp_all only: split_64[OF y(3)])
      have "v div 262144 = v div 4096 div 64" using div_mult2_eq[of v 4096 64] by simp
      then have "v div 262144 = c" "v div 4096 mod 64 = z" unfolding e by (simp_all only: split_64[OF y(2)])
      moreover have "\<not> v < 128" "\<not> v < 2048" "\<not> v < 65536" using ok(2) m by (auto simp: utf8_width_def split: if_splits)
      ultimately show ?thesis
        using y d(2) e(2) by (simp add: utf8_encode_bytes[OF vv] utf8_bytes_def b)
    qed
    then show ?thesis using ok s ys(3) by simp
  qed
qed

text \<open>What HTML allows: no control characters but tab and the line ends.\<close>

definition html_ok :: "nat \<Rightarrow> bool" where
  "html_ok v \<longleftrightarrow> v \<in> {9, 10, 13} \<or> 0x20 \<le> v \<and> v < 0x7F \<or> 0xA0 \<le> v"

lemma next_html:
  "utf8_next True s =
     (case utf8_next False s of
        (None, r) \<Rightarrow> (None, r) | (Some v, r) \<Rightarrow> if html_ok v then (Some v, r) else (None, r))"
proof (cases s)
  case (Cons l s')
  show ?thesis
  proof (cases "trail_length (byte l) = Some 0")
    case True
    then have "byte l < 128" by (simp add: lead_ranges)
    then show ?thesis using Cons by (auto simp: next_ascii html_ok_def)
  next
    case False
    show ?thesis
    proof (cases "trail_length (byte l)")
      case None
      then show ?thesis by (simp add: Cons utf8_next.simps(2))
    next
      case (Some n)
      then obtain m where n: "n = Suc m" using False by (cases n) auto
      let ?m = "read_trail (Suc m) (byte l AND (2 ^ (6 - Suc m) - 1)) s'"
      have "utf8_next html s = (case ?m of (None, r) \<Rightarrow> (None, r)
          | (Some c, r) \<Rightarrow> if \<not> utf_valid c then (None, r) else if utf8_width c \<noteq> Suc m + 1 then (None, r)
                           else if html \<and> c < 0xA0 then (None, r) else (Some c, r))" for html
        by (simp add: Cons utf8_next.simps(2) Some[unfolded n] n Let_def )
      moreover have "utf8_width c = Suc m + 1 \<Longrightarrow> html_ok c \<longleftrightarrow> \<not> c < 0xA0" for c
        by (auto simp: utf8_width_def html_ok_def split: if_splits)
      ultimately show ?thesis by (cases ?m; cases "fst ?m") (auto split: if_splits)
    qed
  qed
qed simp

lemma utf8_encode_ne [simp]: "utf8_encode v \<noteq> []"
  by (simp add: utf8_encode_def)

definition cp_ok :: "bool \<Rightarrow> nat \<Rightarrow> bool" where
  "cp_ok html v \<longleftrightarrow> utf_valid v \<and> (html \<longrightarrow> html_ok v)"

lemma next_iff: "utf8_next html s = (Some v, r) \<longleftrightarrow> cp_ok html v \<and> s = utf8_encode v @ r"
  using next_encode next_decode
  by (cases html) (auto simp: next_html cp_ok_def split: prod.split option.split)

lemma validate_iff:
  "utf8_validate html s = Some n \<longleftrightarrow>
     (\<exists>vs. length vs = n \<and> list_all (cp_ok html) vs \<and> s = concat (map utf8_encode vs))"
proof (induction html s arbitrary: n rule: utf8_validate.induct)
  case (1 html s)
  show ?case
  proof (cases "s = []")
    case True
    then show ?thesis by (auto simp: utf8_validate.simps)
  next
    case False
    obtain o' r where nx: "utf8_next html s = (o', r)" by (cases "utf8_next html s")
    show ?thesis
    proof (cases o')
      case None
      have "\<not> (\<exists>v r. utf8_next html s = (Some v, r))" using nx None by simp
      then have "\<not> (\<exists>v r. cp_ok html v \<and> s = utf8_encode v @ r)" by (simp add: next_iff)
      then have "\<not> (list_all (cp_ok html) vs \<and> s = concat (map utf8_encode vs))" for vs
        using False by (cases vs) auto
      then show ?thesis using False nx None by (subst utf8_validate.simps) auto
    next
      case (Some v)
      then have v: "cp_ok html v" "s = utf8_encode v @ r" using nx next_iff by blast+
      have un: "w = v \<and> r' = r" if "cp_ok html w" "s = utf8_encode w @ r'" for w r'
        using that nx Some next_iff[of html s w r'] by simp
      have IH: "utf8_validate html r = Some m \<longleftrightarrow>
          (\<exists>vs. length vs = m \<and> list_all (cp_ok html) vs \<and> r = concat (map utf8_encode vs))" for m
        using 1[OF False nx[symmetric] Some] .
      have "utf8_validate html s = map_option Suc (utf8_validate html r)"
        using False nx Some by (subst utf8_validate.simps) simp
      then have "utf8_validate html s = Some n \<longleftrightarrow>
          (\<exists>vs. Suc (length vs) = n \<and> list_all (cp_ok html) vs \<and> r = concat (map utf8_encode vs))"
        using IH by auto
      also have "\<dots> \<longleftrightarrow> (\<exists>vs. length vs = n \<and> list_all (cp_ok html) vs \<and> s = concat (map utf8_encode vs))"
      proof safe
        fix vs assume "list_all (cp_ok html) vs" "r = concat (map utf8_encode vs)"
        then show "\<exists>ws. length ws = Suc (length vs) \<and> list_all (cp_ok html) ws \<and> s = concat (map utf8_encode ws)"
          using v by (intro exI[of _ "v # vs"]) simp
      next
        fix ws assume w: "list_all (cp_ok html) ws" "s = concat (map utf8_encode ws)"
        then obtain w ws' where "ws = w # ws'" using False by (cases ws) auto
        then show "\<exists>vs. Suc (length vs) = length ws \<and> list_all (cp_ok html) vs \<and> r = concat (map utf8_encode vs)"
          using w un[of w "concat (map utf8_encode ws')"] by (intro exI[of _ ws']) auto
      qed
      finally show ?thesis .
    qed
  qed
qed

section \<open>UTF-8 text is a sequence of code points\<close>

lemma decoding_unique:
  assumes "list_all (cp_ok html) vs" "list_all (cp_ok html) ws"
    "concat (map utf8_encode vs) = concat (map utf8_encode ws)"
  shows "vs = ws"
  using assms
proof (induction vs arbitrary: ws)
  case Nil
  then show ?case by (cases ws) auto
next
  case (Cons v vs)
  obtain w ws' where ws: "ws = w # ws'" using Cons.prems(3) by (cases ws) simp_all
  have "utf8_next html (concat (map utf8_encode (v # vs))) = (Some v, concat (map utf8_encode vs))"
    using Cons.prems(1) next_iff[of html "concat (map utf8_encode (v # vs))" v] by simp
  moreover have "utf8_next html (concat (map utf8_encode (w # ws'))) = (Some w, concat (map utf8_encode ws'))"
    using Cons.prems(2) ws next_iff[of html "concat (map utf8_encode (w # ws'))" w] by simp
  moreover have "concat (map utf8_encode (v # vs)) = concat (map utf8_encode (w # ws'))"
    using Cons.prems(3) ws by simp
  ultimately have "(Some v, concat (map utf8_encode vs)) = (Some w, concat (map utf8_encode ws'))"
    by (simp only:)
  then have "v = w" "concat (map utf8_encode vs) = concat (map utf8_encode ws')"
    using Cons.prems(3) by simp_all
  then show ?case using Cons.IH[of ws'] Cons.prems ws by simp
qed

text \<open>
  Property C27. The UTF-8 validator (with and without the HTML rules) accepts exactly the
  encodings of sequences of code points that are no surrogates, at most 0x10FFFF and, for HTML,
  no control characters; the number it counts is the length of that sequence, and the sequence is
  determined by the text: overlong, truncated and surrogate forms are all refused.
\<close>

theorem utf8_validation_is_decoding:
  "(utf8_validate html s = Some n) \<longleftrightarrow>
     (\<exists>!vs. length vs = n \<and> list_all (cp_ok html) vs \<and> s = concat (map utf8_encode vs))"
proof -
  have "vs = ws" if "list_all (cp_ok html) vs \<and> s = concat (map utf8_encode vs)"
    "list_all (cp_ok html) ws \<and> s = concat (map utf8_encode ws)" for vs ws
    using decoding_unique that by metis
  then show ?thesis unfolding validate_iff by metis
qed

section \<open>UTF-16\<close>

lemma surrogate_bits:
  "(b::nat) < 1024 \<Longrightarrow> 0xD800 OR b = 0xD800 + b" "(b::nat) < 1024 \<Longrightarrow> 0xDC00 OR b = 0xDC00 + b"
  using or_low[of b 10 54] or_low[of b 10 55] by (simp_all add: push_bit_eq_mult)

lemma low_ten: "(x::nat) AND 0x3FF = x mod 1024"
  using take_bit_eq_mask[of 10 x] by (simp add: take_bit_eq_mod mask_eq_exp_minus_1)

lemma utf16_next_encode:
  assumes "utf_valid u"
  shows "utf16_next (utf16_encode u @ r) = (Some u, r)"
proof (cases "u \<le> 0xFFFF")
  case True
  then have "take_bit 16 u = u" by (simp add: take_bit_nat_eq_self)
  then show ?thesis using True assms by (auto simp: utf16_encode_def utf_valid_def)
next
  case False
  define q y where "q = (u - 0x10000) div 1024" and "y = (u - 0x10000) mod 1024"
  have "u - 0x10000 < 1048576" using assms unfolding utf_valid_def by linarith
  then have q: "q < 1024" unfolding q_def by (simp only: div_less_iff_less_mult)
  have y: "y < 1024" by (simp add: y_def)
  have u: "u = q * 1024 + y + 0x10000" using False by (simp add: q_def y_def)
  have d: "drop_bit 10 (u - 0x10000) = q" "(u - 0x10000) AND 0x3FF = y"
    by (simp_all add: drop_bit_eq_div low_ten q_def y_def)
  have "take_bit 16 (0xD800 + q) = 0xD800 + q" using q by (simp add: take_bit_nat_eq_self)
  then have e: "utf16_encode u = [0xD800 + q, 0xDC00 + y]"
    unfolding utf16_encode_def Let_def d surrogate_bits(1)[OF q] surrogate_bits(2)[OF y]
    using False by simp
  have "(0xD800 + q) mod 1024 = q" "(0xDC00 + y) mod 1024 = y"
    using mod_mult_self2[of q 1024 54] mod_mult_self2[of y 1024 55] q y by (simp_all add: add.commute)
  then have "combine_surrogate (0xD800 + q) (0xDC00 + y) = u"
    unfolding combine_surrogate_def low_ten using or_low[of y 10 q] y u by simp
  then show ?thesis using q y by (simp add: e)
qed

end
