(* ===== verification/Encoding.thy ===== *)
theory Encoding
  imports Utf
begin

text \<open>
  The validators of the 8-bit charsets in \<open>private/encoding_validators.h\<close>, and the choice of a
  validator and the filtering of invalid text in \<open>src/encoding.cpp\<close>. The conversion between
  charsets (ICU or iconv behind \<open>booster::locale::conv\<close>) is a parameter.
\<close>

section \<open>The 8-bit charsets\<close>

text \<open>
  Each validator is the same loop: every byte is counted; tab and the line ends are passed over;
  a byte in the charset's gaps ends it with \<open>false\<close>. The count of a valid text is the result.
\<close>

fun each_byte :: "(nat \<Rightarrow> bool) \<Rightarrow> string \<Rightarrow> nat option" where
  "each_byte bad [] = Some 0"
| "each_byte bad (c # s) =
     (if byte c = 0x09 \<or> byte c = 0x0A \<or> byte c = 0x0D then map_option Suc (each_byte bad s)
      else if bad (byte c) then None
      else map_option Suc (each_byte bad s))"

definition utf8_valid :: "string \<Rightarrow> nat option" where
  "utf8_valid s = utf8_validate True s"

definition ascii_valid :: "string \<Rightarrow> nat option" where
  "ascii_valid = each_byte (\<lambda>c. c < 0x20 \<or> 0x7E < c)"

definition iso_8859_1_2_4_5_9_10_13_14_15_16_valid :: "string \<Rightarrow> nat option" where
  "iso_8859_1_2_4_5_9_10_13_14_15_16_valid = each_byte (\<lambda>c. c < 0x20 \<or> 0x7F \<le> c \<and> c < 0xA0)"

definition iso_8859_3_valid :: "string \<Rightarrow> nat option" where
  "iso_8859_3_valid = each_byte (\<lambda>c. c < 0x20 \<or> 0x7F \<le> c \<and> c < 0xA0 \<or>
       c \<in> set [0xA5, 0xAE, 0xBE, 0xC3, 0xD0, 0xE3, 0xF0])"

definition iso_8859_6_valid :: "string \<Rightarrow> nat option" where
  "iso_8859_6_valid = each_byte (\<lambda>c. c < 0x20 \<or> 0x7F \<le> c \<and> c < 0xA0 \<or>
       0xA1 \<le> c \<and> c \<le> 0xA3 \<or> 0xA5 \<le> c \<and> c \<le> 0xAB \<or> 0xAE \<le> c \<and> c \<le> 0xBA \<or>
       0xBC \<le> c \<and> c \<le> 0xBE \<or> 0xC0 = c \<or> 0xDB \<le> c \<and> c \<le> 0xDF \<or> 0xF3 \<le> c \<and> c \<le> 0xFF)"

definition iso_8859_7_valid :: "string \<Rightarrow> nat option" where
  "iso_8859_7_valid = each_byte (\<lambda>c. c < 0x20 \<or> 0x7F \<le> c \<and> c < 0xA0 \<or>
       c \<in> set [0xAE, 0xD2, 0xFF])"

definition iso_8859_8_valid :: "string \<Rightarrow> nat option" where
  "iso_8859_8_valid = each_byte (\<lambda>c. c < 0x20 \<or> 0x7F \<le> c \<and> c < 0xA0 \<or> 0xBF \<le> c \<and> c \<le> 0xDE \<or>
       c \<in> set [0xA1, 0xFB, 0xFC, 0xFF])"

definition iso_8859_11_valid :: "string \<Rightarrow> nat option" where
  "iso_8859_11_valid = each_byte (\<lambda>c. c < 0x20 \<or> 0x7F \<le> c \<and> c < 0xA0 \<or>
       c \<in> set [0xDB, 0xDC, 0xDD, 0xDE, 0xFC, 0xFD, 0xFE, 0xFF])"

definition windows_1250_valid :: "string \<Rightarrow> nat option" where
  "windows_1250_valid = each_byte (\<lambda>c. c < 0x20 \<or> 0x7F = c \<or>
       c \<in> set [0x81, 0x83, 0x88, 0x90, 0x98])"

definition windows_1251_valid :: "string \<Rightarrow> nat option" where
  "windows_1251_valid = each_byte (\<lambda>c. c < 0x20 \<or> 0x7F = c \<or> c = 152)"

definition windows_1252_valid :: "string \<Rightarrow> nat option" where
  "windows_1252_valid = each_byte (\<lambda>c. c < 0x20 \<or> 0x7F = c \<or>
       c \<in> set [0x81, 0x8D, 0x8F, 0x90, 0x9D])"

definition windows_1253_valid :: "string \<Rightarrow> nat option" where
  "windows_1253_valid = each_byte (\<lambda>c. c < 0x20 \<or> 0x7F = c \<or>
       c \<in> set [0x81, 0x88, 0x8A, 0x8C, 0x8D, 0x8E, 0x8F, 0x90, 0x98, 0x9A, 0x9C, 0x9D, 0x9E, 0x9F, 0xAA, 0xD2, 0xFF])"

definition windows_1254_valid :: "string \<Rightarrow> nat option" where
  "windows_1254_valid = each_byte (\<lambda>c. c < 0x20 \<or> 0x7F = c \<or>
       c \<in> set [0x81, 0x8D, 0x8E, 0x8F, 0x90, 0x9D, 0x9E])"

definition windows_1255_valid :: "string \<Rightarrow> nat option" where
  "windows_1255_valid = each_byte (\<lambda>c. c < 0x20 \<or> 0x7F = c \<or>
       c \<in> set [0x81, 0x8A, 0x8C, 0x8D, 0x8E, 0x8F, 0x90, 0x9A, 0x9C, 0x9D, 0x9E, 0x9F, 0xD9, 0xDA, 0xDB, 0xDC, 0xDD, 0xDE, 0xDF, 0xCA, 0xFB, 0xFC, 0xFF])"

definition windows_1256_valid :: "string \<Rightarrow> nat option" where
  "windows_1256_valid = each_byte (\<lambda>c. c < 0x20 \<or> 0x7F = c)"

definition windows_1257_valid :: "string \<Rightarrow> nat option" where
  "windows_1257_valid = each_byte (\<lambda>c. c < 0x20 \<or> 0x7F = c \<or>
       c \<in> set [0x81, 0x83, 0x88, 0x8A, 0x8C, 0x90, 0x98, 0x9A, 0x9C, 0x9F, 0xA1, 0xA5])"

definition windows_1258_valid :: "string \<Rightarrow> nat option" where
  "windows_1258_valid = each_byte (\<lambda>c. c < 0x20 \<or> c = 0x7F \<or>
       c \<in> set [0x81, 0x8A, 0x8D, 0x8E, 0x8F, 0x90, 0x9A, 0x9D, 0x9E])"

definition koi8_valid :: "string \<Rightarrow> nat option" where
  "koi8_valid = each_byte (\<lambda>c. c < 0x20 \<or> 0x7F = c)"

section \<open>Choosing a validator\<close>

text \<open>
  Names of encodings are compared by their letters and digits only, in lower case, up to the
  first zero byte; \<open>next\<close> gives 0 at the end.
\<close>

fun next_letter :: "string \<Rightarrow> char \<times> string" where
  "next_letter [] = (CHR 0x00, [])"
| "next_letter (c # s) =
     (if c = CHR 0x00 then (CHR 0x00, c # s)
      else if CHR ''0'' \<le> c \<and> c \<le> CHR ''9'' then (c, s)
      else if CHR ''a'' \<le> c \<and> c \<le> CHR ''z'' then (c, s)
      else if CHR ''A'' \<le> c \<and> c \<le> CHR ''Z'' then (chr (byte c - byte (CHR ''A'') + byte (CHR ''a'')), s)
      else next_letter s)"

lemma next_letter_shorter: "fst (next_letter s) \<noteq> CHR 0x00 \<Longrightarrow> length (snd (next_letter s)) < length s"
  by (induction s) auto

function encodings_less :: "string \<Rightarrow> string \<Rightarrow> bool" where
  "encodings_less l r =
     (case (next_letter l, next_letter r) of
        ((a, l'), (b, r')) \<Rightarrow>
          if a < b then True else if a > b then False
          else if a = CHR 0x00 then False else encodings_less l' r')"
  by pat_completeness auto
termination
  by (relation "measure (\<lambda>(l, _). length l)") (auto, metis next_letter_shorter fst_conv snd_conv)

declare encodings_less.simps [simp del]

definition predefined :: "(string \<times> (string \<Rightarrow> nat option)) list" where
  "predefined =
     (let iso = iso_8859_1_2_4_5_9_10_13_14_15_16_valid in
      [(''latin1'', iso), (''iso88591'', iso), (''iso88592'', iso), (''iso88594'', iso), (''iso88595'', iso),
       (''iso88599'', iso), (''iso885910'', iso), (''iso885913'', iso), (''iso885914'', iso),
       (''iso885915'', iso), (''iso885916'', iso),
       (''iso88593'', iso_8859_3_valid), (''iso88596'', iso_8859_6_valid), (''iso88597'', iso_8859_7_valid),
       (''iso88598'', iso_8859_8_valid), (''iso885911'', iso_8859_11_valid),
       (''windows1250'', windows_1250_valid), (''windows1251'', windows_1251_valid),
       (''windows1252'', windows_1252_valid), (''windows1253'', windows_1253_valid),
       (''windows1255'', windows_1255_valid), (''windows1256'', windows_1256_valid),
       (''windows1257'', windows_1257_valid), (''windows1258'', windows_1258_valid),
       (''cp1250'', windows_1250_valid), (''cp1251'', windows_1251_valid), (''cp1252'', windows_1252_valid),
       (''cp1253'', windows_1253_valid), (''cp1255'', windows_1255_valid), (''cp1256'', windows_1256_valid),
       (''cp1257'', windows_1257_valid), (''cp1258'', windows_1258_valid),
       (''koi8r'', koi8_valid), (''koi8u'', koi8_valid),
       (''utf8'', utf8_valid), (''usascii'', ascii_valid), (''ascii'', ascii_valid)])"

definition get_validator :: "string \<Rightarrow> (string \<Rightarrow> nat option) option" where
  "get_validator name =
     map_option snd (find (\<lambda>(k, _). \<not> encodings_less k name \<and> \<not> encodings_less name k) predefined)"

text \<open>
  \<open>conv::between\<close> as the parameter \<open>between\<close>: the text, the target and the source charset, and
  whether it stops at invalid input; \<open>None\<close> is an exception derived from \<open>std::runtime_error\<close>.
\<close>

type_synonym converter = "bool \<Rightarrow> string \<Rightarrow> string \<Rightarrow> string \<Rightarrow> string option"

definition valid_text :: "converter \<Rightarrow> string \<Rightarrow> string \<Rightarrow> nat option" where
  "valid_text between encoding s =
     (case get_validator encoding of
        Some tester \<Rightarrow> tester s
      | None \<Rightarrow>
          (case between True ''UTF-8'' encoding s of
             None \<Rightarrow> None
           | Some u \<Rightarrow> (case get_validator ''utf-8'' of Some tester \<Rightarrow> tester u | None \<Rightarrow> None)))"

definition is_utf8 :: "string \<Rightarrow> bool" where
  "is_utf8 encoding \<longleftrightarrow> \<not> encodings_less encoding ''utf8'' \<and> \<not> encodings_less ''utf8'' encoding"

definition to_utf8 :: "converter \<Rightarrow> string \<Rightarrow> string \<Rightarrow> string option" where
  "to_utf8 between encoding s = (if is_utf8 encoding then Some s else between False ''UTF-8'' encoding s)"

definition from_utf8 :: "converter \<Rightarrow> string \<Rightarrow> string \<Rightarrow> string option" where
  "from_utf8 between encoding s = (if is_utf8 encoding then Some s else between False encoding ''UTF-8'' s)"

section \<open>Filtering invalid text\<close>

text \<open>The first loop: what is read up to the first illegal sequence, and the rest from there.\<close>

function first_illegal :: "string \<Rightarrow> string \<times> string" where
  "first_illegal s =
     (if s = [] then ([], [])
      else case utf8_next True s of
        (None, _) \<Rightarrow> ([], s)
      | (Some _, r) \<Rightarrow>
          (case first_illegal r of (good, rest) \<Rightarrow> (take (length s - length r) s @ good, rest)))"
  by pat_completeness auto
termination
  by (relation "measure length") (auto, metis utf8_next_shorter length_greater_0_conv snd_conv)

text \<open>The second loop; a sequence that is only forbidden in HTML is replaced as a whole.\<close>

function filter_utf8 :: "char \<Rightarrow> string \<Rightarrow> string" where
  "filter_utf8 replace s =
     (if s = [] then []
      else case utf8_next True s of
        (Some _, r) \<Rightarrow> take (length s - length r) s @ filter_utf8 replace r
      | (None, _) \<Rightarrow>
          (if replace \<noteq> CHR 0x00 then [replace] else []) @
          (case utf8_next False s of
             (None, _) \<Rightarrow> filter_utf8 replace (tl s)
           | (Some _, r) \<Rightarrow> filter_utf8 replace r))"
  by pat_completeness auto
termination
  by (relation "measure (\<lambda>(_, s). length s)")
     (auto, (metis utf8_next_shorter length_greater_0_conv snd_conv)+)

declare first_illegal.simps [simp del] filter_utf8.simps [simp del]

text \<open>\<open>None\<close>: valid, the output is not touched.\<close>

definition validate_or_filter_utf8 :: "char \<Rightarrow> string \<Rightarrow> string option" where
  "validate_or_filter_utf8 replace s =
     (case first_illegal s of (good, rest) \<Rightarrow>
        if rest = [] then None else Some (good @ filter_utf8 replace rest))"

definition filter_bytes :: "(string \<Rightarrow> nat option) \<Rightarrow> char \<Rightarrow> string \<Rightarrow> string" where
  "filter_bytes tester repl s =
     concat (map (\<lambda>c. if tester [c] \<noteq> None then [c] else if repl \<noteq> CHR 0x00 then [repl] else []) s)"

definition validate_or_filter_single_byte :: "(string \<Rightarrow> nat option) \<Rightarrow> char \<Rightarrow> string \<Rightarrow> string option" where
  "validate_or_filter_single_byte tester repl s =
     (if tester s \<noteq> None then None else Some (filter_bytes tester repl s))"

definition is_ascii_compatible :: "string \<Rightarrow> bool" where
  "is_ascii_compatible encoding = (case get_validator encoding of Some _ \<Rightarrow> True | None \<Rightarrow> False)"

text \<open>The outer \<open>None\<close> is an exception of the conversion, the inner one a valid text.\<close>

definition validate_or_filter :: "converter \<Rightarrow> string \<Rightarrow> char \<Rightarrow> string \<Rightarrow> string option option" where
  "validate_or_filter between encoding replace s =
     (if is_utf8 encoding then Some (validate_or_filter_utf8 replace s)
      else case get_validator encoding of
        Some tester \<Rightarrow> Some (validate_or_filter_single_byte tester replace s)
      | None \<Rightarrow>
          if valid_text between encoding s \<noteq> None then Some None
          else case between False ''UTF-8'' encoding s of
            None \<Rightarrow> None
          | Some u \<Rightarrow>
              map_option Some (between False encoding ''UTF-8''
                (case validate_or_filter_utf8 (CHR 0x00) u of None \<Rightarrow> u | Some v \<Rightarrow> v)))"

section \<open>Filtered text is valid\<close>

text \<open>What the comparator sees of a name.\<close>

function letters :: "string \<Rightarrow> string" where
  "letters s = (case next_letter s of (c, r) \<Rightarrow> if c = CHR 0x00 then [] else c # letters r)"
  by pat_completeness auto
termination
  by (relation "measure length") (auto, metis next_letter_shorter fst_conv snd_conv)

declare letters.simps [simp del]

lemma encodings_equal: "\<not> encodings_less l r \<and> \<not> encodings_less r l \<longleftrightarrow> letters l = letters r"
proof (induction l r rule: encodings_less.induct)
  case (1 l r)
  obtain a l' where l: "next_letter l = (a, l')" by (cases "next_letter l")
  obtain b r' where r: "next_letter r = (b, r')" by (cases "next_letter r")
  note ls = letters.simps[of l] letters.simps[of r] encodings_less.simps[of l r] encodings_less.simps[of r l]
  have "a < b \<or> b < a \<or> a = b" using linorder_less_linear[of a b] by blast
  then show ?case
    using 1[OF refl l[symmetric] r[symmetric]] l r by (auto simp: ls)
qed

lemma is_utf8_letters: "is_utf8 e \<longleftrightarrow> letters e = letters ''utf8''"
  by (simp add: is_utf8_def encodings_equal)

lemma get_validator_letters:
  "get_validator e = map_option snd (find (\<lambda>(k, _). letters k = letters e) predefined)"
  by (simp add: get_validator_def encodings_equal)

lemma find_nth: "map P xs = replicate n False @ True # bs \<Longrightarrow> find P xs = Some (xs ! n)"
  by (induction n arbitrary: xs) (auto simp: map_eq_Cons_conv)

lemma utf8_validator:
  assumes "is_utf8 e"
  shows "get_validator e = Some utf8_valid"
proof -
  have "map (\<lambda>(k, _). letters k = letters ''utf8'') predefined = replicate 34 False @ True # [False, False]"
    by code_simp
  from find_nth[OF this] have "find (\<lambda>(k, _). letters k = letters ''utf8'') predefined = Some (''utf8'', utf8_valid)"
    by (simp add: predefined_def)
  then show ?thesis using assms unfolding get_validator_letters is_utf8_letters by simp
qed

lemma other_validators: "list_all (\<lambda>(k, v). k = ''utf8'' \<or> (\<exists>bad. v = each_byte bad)) predefined"
  unfolding predefined_def Let_def ascii_valid_def iso_8859_1_2_4_5_9_10_13_14_15_16_valid_def
    iso_8859_3_valid_def iso_8859_6_valid_def iso_8859_7_valid_def iso_8859_8_valid_def iso_8859_11_valid_def
    windows_1250_valid_def windows_1251_valid_def windows_1252_valid_def windows_1253_valid_def
    windows_1255_valid_def windows_1256_valid_def windows_1257_valid_def windows_1258_valid_def koi8_valid_def
  by (simp only: list.pred_inject prod.case) blast

lemma byte_validator:
  assumes "get_validator e = Some tester" "\<not> is_utf8 e"
  obtains bad where "tester = each_byte bad"
proof -
  obtain k where k: "find (\<lambda>(k, _). letters k = letters e) predefined = Some (k, tester)"
    using assms(1) by (auto simp: get_validator_letters)
  have "(k, tester) \<in> set predefined" "letters k = letters e"
    using k by (auto simp: find_Some_iff in_set_conv_nth simp del: predefined_def)
  moreover from this assms(2) have "k \<noteq> ''utf8''" by (auto simp: is_utf8_letters)
  ultimately show ?thesis using other_validators that by (auto simp: list_all_iff)
qed

lemma each_byte_append: "each_byte bad (s @ t) \<noteq> None \<longleftrightarrow> each_byte bad s \<noteq> None \<and> each_byte bad t \<noteq> None"
  by (induction s) auto

lemma filter_bytes_valid:
  assumes "repl = CHR 0x00 \<or> each_byte bad [repl] \<noteq> None"
  shows "each_byte bad (filter_bytes (each_byte bad) repl s) \<noteq> None"
proof (induction s)
  case (Cons c s)
  then show ?case using assms by (auto simp: filter_bytes_def each_byte_append simp del: not_None_eq each_byte.simps(2))
qed (simp add: filter_bytes_def)

abbreviation utf8_ok :: "string \<Rightarrow> bool" where
  "utf8_ok s \<equiv> utf8_validate True s \<noteq> None"

lemma utf8_ok_iff: "utf8_ok s \<longleftrightarrow> (\<exists>vs. list_all (cp_ok True) vs \<and> s = concat (map utf8_encode vs))"
  using validate_iff[of True s] by auto

lemma utf8_ok_append: "utf8_ok s \<Longrightarrow> utf8_ok t \<Longrightarrow> utf8_ok (s @ t)"
  unfolding utf8_ok_iff
proof (elim exE conjE)
  fix vs ws
  assume "list_all (cp_ok True) vs" "s = concat (map utf8_encode vs)"
    "list_all (cp_ok True) ws" "t = concat (map utf8_encode ws)"
  then show "\<exists>us. list_all (cp_ok True) us \<and> s @ t = concat (map utf8_encode us)"
    by (intro exI[of _ "vs @ ws"]) simp
qed

lemma utf8_ok_step:
  assumes "utf8_next True s = (Some v, r)"
  shows "utf8_ok (take (length s - length r) s)" "s = take (length s - length r) s @ r"
proof -
  have v: "cp_ok True v" "s = utf8_encode v @ r" using assms next_iff by blast+
  then have t: "take (length s - length r) s = utf8_encode v" by simp
  show "utf8_ok (take (length s - length r) s)"
    unfolding t utf8_ok_iff using v(1) by (intro exI[of _ "[v]"]) simp
  show "s = take (length s - length r) s @ r" using v(2) t by simp
qed

lemma utf8_ok_Nil [simp]: "utf8_validate True [] = Some 0"
  by (simp add: utf8_validate.simps)

lemma filter_utf8_valid:
  assumes "replace = CHR 0x00 \<or> utf8_ok [replace]"
  shows "utf8_ok (filter_utf8 replace s)"
  using assms
proof (induction replace s rule: filter_utf8.induct)
  case (1 replace s)
  let ?mark = "if replace \<noteq> CHR 0x00 then [replace] else []"
  have mark: "utf8_ok ?mark" using 1(4) by auto
  show ?case
  proof (cases "s = []")
    case True
    then show ?thesis by (simp add: filter_utf8.simps)
  next
    case False
    obtain o1 r where nx: "utf8_next True s = (o1, r)" by (cases "utf8_next True s")
    show ?thesis
    proof (cases o1)
      case (Some v)
      then show ?thesis
        using utf8_ok_append[OF utf8_ok_step(1)[of s v r] 1(3)[OF False nx[symmetric] Some 1(4)]] nx False
        by (simp add: filter_utf8.simps[of replace s])
    next
      case None
      obtain o2 r' where nx': "utf8_next False s = (o2, r')" by (cases "utf8_next False s")
      show ?thesis
      proof (cases o2)
        case None2: None
        show ?thesis
          using utf8_ok_append[OF mark 1(1)[OF False nx[symmetric] None nx'[symmetric] None2 1(4)]]
            nx None nx' None2 False
          by (simp add: filter_utf8.simps[of replace s])
      next
        case (Some w)
        show ?thesis
          using utf8_ok_append[OF mark 1(2)[OF False nx[symmetric] None nx'[symmetric] Some 1(4)]]
            nx None nx' Some False
          by (simp add: filter_utf8.simps[of replace s])
      qed
    qed
  qed
qed

lemma first_illegal_splits:
  "first_illegal s = (good, rest) \<Longrightarrow>
     s = good @ rest \<and> utf8_ok good \<and> (utf8_ok s \<longleftrightarrow> rest = [])"
proof (induction s arbitrary: good rest rule: first_illegal.induct)
  case (1 s)
  show ?case
  proof (cases "s = []")
    case True
    then show ?thesis using 1 by (simp add: first_illegal.simps)
  next
    case False
    obtain o1 r where nx: "utf8_next True s = (o1, r)" by (cases "utf8_next True s")
    show ?thesis
    proof (cases o1)
      case None
      then have "good = []" "rest = s" using 1(2) False nx by (simp_all add: first_illegal.simps[of s])
      moreover have "utf8_validate True s = None" using None False nx by (simp add: utf8_validate.simps[of True s])
      ultimately show ?thesis using False by simp
    next
      case (Some v)
      obtain g where g: "first_illegal r = (g, rest)" "good = take (length s - length r) s @ g"
        using 1(2) False nx Some by (auto simp: first_illegal.simps[of s] split: prod.splits)
      have IH: "r = g @ rest \<and> utf8_ok g \<and> (utf8_ok r \<longleftrightarrow> rest = [])"
        using 1(1)[OF False nx[symmetric] Some g(1)] .
      note st = utf8_ok_step[OF nx[unfolded Some]]
      have "utf8_validate True s = map_option Suc (utf8_validate True r)"
        using False nx Some by (simp add: utf8_validate.simps[of True s])
      then have vr: "utf8_ok s \<longleftrightarrow> utf8_ok r" by simp
      have "take (length s - length r) s @ r = good @ rest"
        unfolding g(2) append.assoc by (rule arg_cong[where f = "(@) _"], rule IH[THEN conjunct1])
      with st(2) have sg: "s = good @ rest" by (rule trans)
      have "utf8_ok good" unfolding g(2) using IH by (intro utf8_ok_append[OF st(1)]) (elim conjE)
      moreover have "utf8_ok s \<longleftrightarrow> rest = []" using vr IH by blast
      ultimately show ?thesis using sg by blast
    qed
  qed
qed

lemma validate_or_filter_utf8_spec:
  "validate_or_filter_utf8 replace s = None \<longleftrightarrow> utf8_ok s"
  "validate_or_filter_utf8 replace s = Some t \<Longrightarrow> replace = CHR 0x00 \<or> utf8_ok [replace] \<Longrightarrow> utf8_ok t"
proof -
  obtain good rest where f: "first_illegal s = (good, rest)" by (cases "first_illegal s")
  show "validate_or_filter_utf8 replace s = None \<longleftrightarrow> utf8_ok s"
    using first_illegal_splits[OF f] unfolding validate_or_filter_utf8_def f by auto
  show "utf8_ok t" if "validate_or_filter_utf8 replace s = Some t" "replace = CHR 0x00 \<or> utf8_ok [replace]"
    using first_illegal_splits[OF f] f that utf8_ok_append[of good] filter_utf8_valid[of replace rest]
    by (auto simp: validate_or_filter_utf8_def split: if_splits)
qed

text \<open>
  Property C28. For every charset the table knows, filtering never fails: text that the charset's
  validator accepts is left alone, and any other text is replaced by one that the validator
  accepts, whenever the replacement character (if there is one) is itself valid.
\<close>

theorem filtered_text_is_valid:
  assumes "is_ascii_compatible encoding"
    and "replace = CHR 0x00 \<or> valid_text between encoding [replace] \<noteq> None"
  shows "if valid_text between encoding s \<noteq> None
         then validate_or_filter between encoding replace s = Some None
         else \<exists>t. validate_or_filter between encoding replace s = Some (Some t) \<and>
                  valid_text between encoding t \<noteq> None"
proof (cases "is_utf8 encoding")
  case True
  have v: "valid_text between encoding t = utf8_validate True t" for t
    using True by (simp add: valid_text_def utf8_validator utf8_valid_def)
  show ?thesis
    using assms(2) validate_or_filter_utf8_spec[of replace s] True unfolding v
    by (cases "validate_or_filter_utf8 replace s") (auto simp: validate_or_filter_def)
next
  case False
  obtain tester where t: "get_validator encoding = Some tester"
    using assms(1) by (auto simp: is_ascii_compatible_def split: option.splits)
  obtain bad where bad: "tester = each_byte bad" using byte_validator[OF t False] .
  have "valid_text between encoding s = each_byte bad s" for s
    using t bad by (simp add: valid_text_def)
  then show ?thesis
    using assms(2) filter_bytes_valid[of replace bad s] t bad False
    by (simp add: validate_or_filter_def validate_or_filter_single_byte_def)
qed

lemma filtered_text_is_valid_witness:
  "validate_or_filter (\<lambda>_ _ _ _. None) ''ISO-8859-7'' (CHR ''?'') [CHR ''a'', CHR 0xAE, CHR ''b''] =
     Some (Some ''a?b'') \<and>
   (\<exists>t. validate_or_filter (\<lambda>_ _ _ _. None) ''ISO-8859-7'' (CHR ''?'') [CHR ''a'', CHR 0xAE, CHR ''b''] = Some (Some t) \<and>
        valid_text (\<lambda>_ _ _ _. None) ''ISO-8859-7'' t \<noteq> None)"
proof -
  have a: "is_ascii_compatible ''ISO-8859-7''" by code_simp
  have b: "CHR ''?'' = CHR 0x00 \<or> valid_text (\<lambda>_ _ _ _. None) ''ISO-8859-7'' [CHR ''?''] \<noteq> None" by code_simp
  have c: "valid_text (\<lambda>_ _ _ _. None) ''ISO-8859-7'' [CHR ''a'', CHR 0xAE, CHR ''b''] = None" by code_simp
  have d: "validate_or_filter (\<lambda>_ _ _ _. None) ''ISO-8859-7'' (CHR ''?'') [CHR ''a'', CHR 0xAE, CHR ''b''] =
     Some (Some ''a?b'')" by code_simp
  from filtered_text_is_valid[OF a b, of "[CHR ''a'', CHR 0xAE, CHR ''b'']"] c d show ?thesis by auto
qed

end
