(* ===== verification/Json.thy ===== *)
theory Json
  imports Http_Util Utf
begin

text \<open>
  JSON values, printing and parsing of \<open>src/json.cpp\<close>. Numbers are doubles; their type \<open>'n\<close>, how
  a stream prints one with 16 digits (\<open>show_number\<close>) and how it extracts one (\<open>read_number\<close>: the
  number and how many characters it took) are parameters, the C++ library's. Objects are
  \<open>std::map\<close>s, kept as lists in the order of their keys.
\<close>

section \<open>Values\<close>

datatype 'n json =
    Undefined
  | Null
  | Boolean bool
  | Number 'n
  | Str string
  | Object "(string \<times> 'n json) list"
  | Array "'n json list"

text \<open>The exception \<open>bad_value_cast\<close>.\<close>

definition bad_value_cast :: exn where
  "bad_value_cast = Cppcms_error ''cppcms::json::bad_cast''"

subsection \<open>Paths\<close>

text \<open>
  The parts of a path \<open>a.b.c\<close>. A path that ends in a dot is the path without it: the loop ends
  when the next position is not before the end.
\<close>

fun path_parts :: "string \<Rightarrow> string \<Rightarrow> string list" where
  "path_parts part [] = [part]"
| "path_parts part (c # s) =
     (if c = CHR ''.'' then part # (if s = [] then [] else path_parts [] s) else path_parts (part @ [c]) s)"

fun find_parts :: "'n json \<Rightarrow> string list \<Rightarrow> 'n json" where
  "find_parts v [] = v"
| "find_parts v (p # ps) =
     (if p = [] then Undefined
      else case v of
        Object m \<Rightarrow> (case map_of m p of None \<Rightarrow> Undefined | Some w \<Rightarrow> find_parts w ps)
      | _ \<Rightarrow> Undefined)"

definition find_value :: "'n json \<Rightarrow> string \<Rightarrow> 'n json" where
  "find_value v path = find_parts v (path_parts [] path)"

definition value_at :: "'n json \<Rightarrow> string \<Rightarrow> exn + 'n json" where
  "value_at v path = (if find_value v path = Undefined then Inl bad_value_cast else Inr (find_value v path))"

text \<open>
  \<open>at(path,v)\<close>: anything on the way that is no object becomes one; what was made before an
  exception stays.
\<close>

fun put_parts :: "'n json \<Rightarrow> string list \<Rightarrow> 'n json \<Rightarrow> (exn + unit) \<times> 'n json" where
  "put_parts v [] x = (Inr (), x)"
| "put_parts v (p # ps) x =
     (if p = [] then (Inl bad_value_cast, v)
      else
        let m = (case v of Object m \<Rightarrow> m | _ \<Rightarrow> []);
            (r, w) = put_parts (case map_of m p of None \<Rightarrow> Undefined | Some w \<Rightarrow> w) ps x
        in (r, Object (omap_set p w m)))"

definition put_at :: "'n json \<Rightarrow> string \<Rightarrow> 'n json \<Rightarrow> (exn + unit) \<times> 'n json" where
  "put_at v path x = put_parts v (path_parts [] path) x"

text \<open>\<open>operator[](name)\<close>, with the assignment to the member it returns.\<close>

definition set_member :: "string \<Rightarrow> 'n json \<Rightarrow> 'n json \<Rightarrow> 'n json" where
  "set_member name x v = Object (omap_set name x (case v of Object m \<Rightarrow> m | _ \<Rightarrow> []))"

definition get_member :: "'n json \<Rightarrow> string \<Rightarrow> exn + 'n json" where
  "get_member v name =
     (case v of
        Object m \<Rightarrow> (case map_of m name of None \<Rightarrow> Inl bad_value_cast | Some x \<Rightarrow> Inr x)
      | _ \<Rightarrow> Inl bad_value_cast)"

definition set_element :: "nat \<Rightarrow> 'n json \<Rightarrow> 'n json \<Rightarrow> 'n json" where
  "set_element n x v =
     (let xs = (case v of Array xs \<Rightarrow> xs | _ \<Rightarrow> [])
      in Array ((xs @ replicate (n + 1 - length xs) Null)[n := x]))"

definition get_element :: "'n json \<Rightarrow> nat \<Rightarrow> exn + 'n json" where
  "get_element v n =
     (case v of Array xs \<Rightarrow> if n \<ge> length xs then Inl bad_value_cast else Inr (xs ! n) | _ \<Rightarrow> Inl bad_value_cast)"

section \<open>Printing\<close>

definition json_char :: "char \<Rightarrow> string" where
  "json_char c =
     (if byte c = 0x22 then [CHR 0x5C, CHR 0x22]
      else if byte c = 0x5C then [CHR 0x5C, CHR 0x5C]
      else if byte c = 8 then [CHR 0x5C, CHR ''b'']
      else if byte c = 12 then [CHR 0x5C, CHR ''f'']
      else if byte c = 10 then [CHR 0x5C, CHR ''n'']
      else if byte c = 13 then [CHR 0x5C, CHR ''r'']
      else if byte c = 9 then [CHR 0x5C, CHR ''t'']
      else if byte c \<le> 0x1F
      then [CHR 0x5C, CHR ''u'', CHR ''0'', CHR ''0'', hex_lower (byte c div 16), hex_lower (byte c mod 16)]
      else [c])"

definition to_json :: "string \<Rightarrow> string" where
  "to_json s = [CHR 0x22] @ concat (map json_char s) @ [CHR 0x22]"

text \<open>\<open>indent\<close>: what it writes, and the number of tabs afterwards (negative: no indentation).\<close>

definition pad :: "int \<Rightarrow> string" where
  "pad tb = replicate (nat tb) (CHR 9)"

definition indent :: "char \<Rightarrow> int \<Rightarrow> string \<times> int" where
  "indent c tabs =
     (if tabs < 0 then ([c], tabs)
      else if c = CHR ''{'' \<or> c = CHR ''['' then ([c, CHR 10] @ pad (tabs + 1), tabs + 1)
      else if c = CHR '','' then ([c, CHR 10] @ pad tabs, tabs)
      else if c = CHR '':'' then ('' :'' @ [CHR 9], tabs)
      else if c = CHR ''}'' \<or> c = CHR '']'' then ([CHR 10] @ pad (tabs - 1) @ [c, CHR 10] @ pad (tabs - 1), tabs - 1)
      else ([], tabs))"

text \<open>\<open>write_value\<close>; \<open>None\<close> is the exception for an undefined value.\<close>

fun write_value :: "('n \<Rightarrow> string) \<Rightarrow> int \<Rightarrow> 'n json \<Rightarrow> string option"
  and write_elements :: "('n \<Rightarrow> string) \<Rightarrow> int \<Rightarrow> 'n json list \<Rightarrow> string option"
  and write_members :: "('n \<Rightarrow> string) \<Rightarrow> int \<Rightarrow> (string \<times> 'n json) list \<Rightarrow> string option" where
  "write_value sh tabs Undefined = None"
| "write_value sh tabs Null = Some ''null''"
| "write_value sh tabs (Number n) = Some (sh n)"
| "write_value sh tabs (Str s) = Some (to_json s)"
| "write_value sh tabs (Boolean b) = Some (if b then ''true'' else ''false'')"
| "write_value sh tabs (Array xs) =
     (let (o1, t) = indent (CHR ''['') tabs in
      case write_elements sh t xs of
        None \<Rightarrow> None
      | Some s \<Rightarrow> Some (o1 @ s @ fst (indent (CHR '']'') t)))"
| "write_value sh tabs (Object m) =
     (let (o1, t) = indent (CHR ''{'') tabs in
      case write_members sh t m of
        None \<Rightarrow> None
      | Some s \<Rightarrow> Some (o1 @ s @ fst (indent (CHR ''}'') t)))"
| "write_elements sh t [] = Some []"
| "write_elements sh t (x # xs) =
     (case write_value sh t x of
        None \<Rightarrow> None
      | Some s \<Rightarrow>
          (case write_elements sh t xs of
             None \<Rightarrow> None
           | Some r \<Rightarrow> Some (s @ (if xs = [] then [] else fst (indent (CHR '','') t)) @ r)))"
| "write_members sh t [] = Some []"
| "write_members sh t ((k, x) # m) =
     (case write_value sh t x of
        None \<Rightarrow> None
      | Some s \<Rightarrow>
          (case write_members sh t m of
             None \<Rightarrow> None
           | Some r \<Rightarrow>
               Some (to_json k @ fst (indent (CHR '':'') t) @ s @
                     (if m = [] then [] else fst (indent (CHR '','') t)) @ r)))"

definition save_json :: "('n \<Rightarrow> string) \<Rightarrow> bool \<Rightarrow> 'n json \<Rightarrow> string option" where
  "save_json sh readable v = write_value sh (if readable then 0 else - 1) v"

section \<open>Tokens\<close>

datatype 'n token =
    Eof
  | Err
  | Str_token string
  | Number_token 'n
  | True_token
  | False_token
  | Null_token
  | Punct char

type_synonym 'n reader = "string \<Rightarrow> ('n \<times> nat) option"

text \<open>\<open>check\<close>: compares up to the first difference, which is consumed.\<close>

fun check_word :: "string \<Rightarrow> string \<Rightarrow> bool \<times> string" where
  "check_word [] s = (True, s)"
| "check_word (w # ws) [] = (False, [])"
| "check_word (w # ws) (c # s) = (if c = w then check_word ws s else (False, s))"

text \<open>\<open>istream::get(buf,5)\<close> reads at most four characters and stops before a line end.\<close>

definition read_4_digits :: "string \<Rightarrow> nat option \<times> string" where
  "read_4_digits s =
     (let b = takeWhile (\<lambda>c. c \<noteq> CHR 10) (take 4 s)
      in (if length b = 4 \<and> list_all xdigit b then Some (foldl (\<lambda>v c. 16 * v + hex_value c) 0 b) else None,
          drop (length b) s))"

definition simple_escape :: "char \<Rightarrow> char option" where
  "simple_escape c =
     (if c = CHR 0x22 \<or> c = CHR 0x5C \<or> c = CHR ''/'' then Some c
      else if c = CHR ''b'' then Some (CHR 8)
      else if c = CHR ''f'' then Some (CHR 12)
      else if c = CHR ''n'' then Some (CHR 10)
      else if c = CHR ''r'' then Some (CHR 13)
      else if c = CHR ''t'' then Some (CHR 9)
      else None)"

lemma read_4_digits_rest: "length (snd (read_4_digits s)) \<le> length s"
  by (simp add: read_4_digits_def Let_def)

text \<open>
  The loop of \<open>parse_string\<close> after the opening quote: \<open>sur\<close> is the first surrogate whose second
  is expected, \<open>acc\<close> what was read.
\<close>

function parse_string :: "nat option \<Rightarrow> string \<Rightarrow> string \<Rightarrow> string option \<times> string" where
  "parse_string sur acc [] = (None, [])"
| "parse_string sur acc (c # s) =
     (if sur \<noteq> None \<and> c \<noteq> CHR 0x5C then (None, s)
      else if byte c \<le> 0x1F then (None, s)
      else if c = CHR 0x22 then (if utf8_validate False acc = None then None else Some acc, s)
      else if c \<noteq> CHR 0x5C then parse_string sur (acc @ [c]) s
      else case s of
        [] \<Rightarrow> (None, [])
      | d # r \<Rightarrow>
          if sur \<noteq> None \<and> d \<noteq> CHR ''u'' then (None, r)
          else if d = CHR ''u'' then
            (case read_4_digits r of
               (None, r') \<Rightarrow> (None, r')
             | (Some x, r') \<Rightarrow>
                 (case sur of
                    Some first \<Rightarrow>
                      if \<not> is_second_surrogate x then (None, r')
                      else parse_string None (acc @ utf8_encode (combine_surrogate first x)) r'
                  | None \<Rightarrow>
                      if is_first_surrogate x then parse_string (Some x) acc r'
                      else parse_string None (acc @ utf8_encode x) r'))
          else
            (case simple_escape d of
               None \<Rightarrow> (None, r)
             | Some e \<Rightarrow> parse_string sur (acc @ [e]) r))"
  by pat_completeness auto

termination
  using read_4_digits_rest
  by (relation "measure (\<lambda>(_, _, s). length s)") (auto simp: less_Suc_eq_le, (metis snd_conv le_SucI)+)

definition number_start :: "char \<Rightarrow> bool" where
  "number_start c \<longleftrightarrow> c = CHR ''-'' \<or> is_digit c"

definition punctuation :: "char \<Rightarrow> bool" where
  "punctuation c \<longleftrightarrow> c \<in> set ''[{:,}]''"

definition skip_comment :: "string \<Rightarrow> string" where
  "skip_comment s = drop 1 (dropWhile (\<lambda>c. c \<noteq> CHR 10) s)"

definition word_token :: "string \<Rightarrow> 'n token \<Rightarrow> string \<Rightarrow> 'n token \<times> string" where
  "word_token w t s = (case check_word w s of (ok, r) \<Rightarrow> (if ok then t else Err, r))"

lemma check_word_rest: "length (snd (check_word w s)) \<le> length s"
  by (induction w s rule: check_word.induct) auto

lemma skip_comment_rest: "length (skip_comment s) \<le> length s"
  using length_dropWhile_le[of "\<lambda>c. c \<noteq> CHR 10" s] by (simp add: skip_comment_def)

text \<open>
  \<open>next\<close>: the token, what is left, and the number of the line; a line end inside a comment is
  not counted.
\<close>

function next_token :: "'n reader \<Rightarrow> nat \<Rightarrow> string \<Rightarrow> 'n token \<times> string \<times> nat" where
  "next_token rd line [] = (Eof, [], line)"
| "next_token rd line (c # s) =
     (if punctuation c then (Punct c, s, line)
      else if c = CHR '' '' \<or> c = CHR 9 \<or> c = CHR 13 then next_token rd line s
      else if c = CHR 10 then next_token rd (line + 1) s
      else if c = CHR 0x22 then
        (case parse_string None [] s of
           (None, r) \<Rightarrow> (Err, r, line) | (Some x, r) \<Rightarrow> (Str_token x, r, line))
      else if c = CHR ''t'' then (case word_token ''rue'' True_token s of (t, r) \<Rightarrow> (t, r, line))
      else if c = CHR ''n'' then (case word_token ''ull'' Null_token s of (t, r) \<Rightarrow> (t, r, line))
      else if c = CHR ''f'' then (case word_token ''alse'' False_token s of (t, r) \<Rightarrow> (t, r, line))
      else if number_start c then
        (case rd (c # s) of
           None \<Rightarrow> (Err, s, line) | Some (n, k) \<Rightarrow> (Number_token n, drop (k - 1) s, line))
      else if c = CHR ''/'' then
        (case check_word ''/'' s of
           (False, r) \<Rightarrow> (Err, r, line)
         | (True, r) \<Rightarrow> next_token rd line (skip_comment r))
      else (Err, s, line))"
  by pat_completeness auto

termination
proof (relation "measure (\<lambda>(_, _, s). length s)")
  fix s r :: string and x x2 :: bool
  assume "(x, r) = check_word ''/'' s"
  then have "length r \<le> length s" using check_word_rest[of "''/''" s] by (metis snd_conv)
  then have "length (skip_comment r) < Suc (length s)" using skip_comment_rest[of r] by simp
  then show "\<And>rd line c. ((rd, line, skip_comment r), rd, line, c # s) \<in> measure (\<lambda>(_, _, s). length s)"
    by simp
qed simp_all

section \<open>The parser\<close>

datatype parse_state =
    Value_expected
  | Key_or_close_expected
  | Colon_expected
  | Object_value_expected
  | Object_close_or_comma_expected
  | Array_value_or_close_expected
  | Array_close_or_comma_expected
  | Parse_error
  | Parse_done

text \<open>
  A frame of the stack: the state to go on with when its value is complete, the value, which the
  program builds in place, and the key it has in the object below it. \<open>root\<close> is the value the
  lowest frame leaves.
\<close>

type_synonym 'n frame = "parse_state \<times> 'n json \<times> string"

record 'n parser =
  pstate :: parse_state
  stack :: "'n frame list"
  pkey :: string
  root :: "'n json"

definition json_max_depth :: nat where
  "json_max_depth = 512"

definition new_parser :: "'n parser" where
  "new_parser = \<lparr>pstate = Value_expected, stack = [(Parse_done, Undefined, [])], pkey = [], root = Undefined\<rparr>"

definition token_value :: "'n token \<Rightarrow> 'n json option" where
  "token_value t =
     (case t of
        Str_token s \<Rightarrow> Some (Str s)
      | True_token \<Rightarrow> Some (Boolean True)
      | False_token \<Rightarrow> Some (Boolean False)
      | Null_token \<Rightarrow> Some Null
      | Number_token n \<Rightarrow> Some (Number n)
      | _ \<Rightarrow> None)"

definition fail_parse :: "'n parser \<Rightarrow> 'n parser" where
  "fail_parse p = p\<lparr>pstate := Parse_error\<rparr>"

text \<open>The value \<open>v\<close> as the last member of an array, or under its key in an object.\<close>

definition put_child :: "string \<Rightarrow> 'n json \<Rightarrow> 'n json \<Rightarrow> 'n json" where
  "put_child k v parent =
     (case parent of
        Array xs \<Rightarrow> Array (butlast xs @ [v])
      | Object m \<Rightarrow> Object (omap_set k v m)
      | _ \<Rightarrow> parent)"

text \<open>The innermost value is complete.\<close>

definition pop_frame :: "'n parser \<Rightarrow> 'n parser" where
  "pop_frame p =
     (case stack p of
        [] \<Rightarrow> p
      | [(st, v, _)] \<Rightarrow> p\<lparr>pstate := st, stack := [], root := v\<rparr>
      | (st, v, k) # (st', parent, k') # fs \<Rightarrow> p\<lparr>pstate := st, stack := (st', put_child k v parent, k') # fs\<rparr>)"

definition set_top :: "'n json \<Rightarrow> 'n parser \<Rightarrow> 'n parser" where
  "set_top v p = (case stack p of [] \<Rightarrow> p | (st, _, k) # fs \<Rightarrow> p\<lparr>stack := (st, v, k) # fs\<rparr>)"

definition top_value :: "'n parser \<Rightarrow> 'n json" where
  "top_value p = (case stack p of [] \<Rightarrow> Undefined | (_, v, _) # _ \<Rightarrow> v)"

text \<open>A value that starts inside a container: complete, or a container of its own on the stack.\<close>

definition start_value :: "parse_state \<Rightarrow> 'n token \<Rightarrow> 'n parser \<Rightarrow> 'n parser" where
  "start_value after t p =
     (case token_value t of
        Some v \<Rightarrow> (set_top (put_child (pkey p) v (top_value p)) p)\<lparr>pstate := after\<rparr>
      | None \<Rightarrow>
          if t = Punct (CHR ''['')
          then p\<lparr>pstate := Array_value_or_close_expected, stack := (after, Array [], pkey p) # stack p\<rparr>
          else if t = Punct (CHR ''{'')
          then p\<lparr>pstate := Key_or_close_expected, stack := (after, Object [], pkey p) # stack p\<rparr>
          else fail_parse p)"

text \<open>One token, by the states of the switch in \<open>parse_stream\<close>.\<close>

definition step_value :: "'n token \<Rightarrow> 'n parser \<Rightarrow> 'n parser" where
  "step_value t p =
     (if t = Punct (CHR ''['') then (set_top (Array []) p)\<lparr>pstate := Array_value_or_close_expected\<rparr>
      else if t = Punct (CHR ''{'') then (set_top (Object []) p)\<lparr>pstate := Key_or_close_expected\<rparr>
      else case token_value t of Some v \<Rightarrow> pop_frame (set_top v p) | None \<Rightarrow> fail_parse p)"

definition step_key :: "'n token \<Rightarrow> 'n parser \<Rightarrow> 'n parser" where
  "step_key t p =
     (if t = Punct (CHR ''}'') then pop_frame p
      else case t of Str_token s \<Rightarrow> p\<lparr>pkey := s, pstate := Colon_expected\<rparr> | _ \<Rightarrow> fail_parse p)"

definition step_member :: "'n token \<Rightarrow> 'n parser \<Rightarrow> 'n parser" where
  "step_member t p =
     (case top_value p of
        Object m \<Rightarrow>
          if map_of m (pkey p) \<noteq> None then fail_parse p
          else start_value Object_close_or_comma_expected t
                 (set_top (Object (omap_set (pkey p) Undefined m)) p)
      | _ \<Rightarrow> fail_parse p)"

definition step_element :: "'n token \<Rightarrow> 'n parser \<Rightarrow> 'n parser" where
  "step_element t p =
     (if t = Punct (CHR '']'') then pop_frame p
      else case top_value p of
        Array xs \<Rightarrow> start_value Array_close_or_comma_expected t (set_top (Array (xs @ [Undefined])) p)
      | _ \<Rightarrow> fail_parse p)"

definition parse_step :: "'n token \<Rightarrow> 'n parser \<Rightarrow> 'n parser" where
  "parse_step t p =
     (case pstate p of
        Value_expected \<Rightarrow> step_value t p
      | Key_or_close_expected \<Rightarrow> step_key t p
      | Colon_expected \<Rightarrow> if t = Punct (CHR '':'') then p\<lparr>pstate := Object_value_expected\<rparr> else fail_parse p
      | Object_value_expected \<Rightarrow> step_member t p
      | Object_close_or_comma_expected \<Rightarrow>
          if t = Punct (CHR '','') then p\<lparr>pstate := Key_or_close_expected\<rparr>
          else if t = Punct (CHR ''}'') then pop_frame p else fail_parse p
      | Array_value_or_close_expected \<Rightarrow> step_element t p
      | Array_close_or_comma_expected \<Rightarrow>
          if t = Punct (CHR '']'') then pop_frame p
          else if t = Punct (CHR '','') then p\<lparr>pstate := Array_value_or_close_expected\<rparr> else fail_parse p
      | Parse_error \<Rightarrow> p
      | Parse_done \<Rightarrow> p)"

definition goes_on :: "'n parser \<Rightarrow> bool" where
  "goes_on p \<longleftrightarrow> stack p \<noteq> [] \<and> pstate p \<noteq> Parse_error \<and> pstate p \<noteq> Parse_done \<and> length (stack p) \<le> json_max_depth"

lemma parse_string_rest: "length (snd (parse_string sur acc s)) \<le> length s"
proof (induction sur acc s rule: parse_string.induct)
  case (2 sur acc c s)
  show ?case
  proof (cases "sur \<noteq> None \<and> c \<noteq> CHR 0x5C \<or> byte c \<le> 0x1F \<or> c = CHR 0x22")
    case False
    then have c: "\<not> (sur \<noteq> None \<and> c \<noteq> CHR 0x5C)" "\<not> byte c \<le> 0x1F" "c \<noteq> CHR 0x22" by blast+
    show ?thesis
    proof (cases "c = CHR 0x5C")
      case no: False
      then show ?thesis using 2(1)[OF c no] c by (simp add: le_SucI)
    next
      case bs: True
      show ?thesis
      proof (cases s)
        case (Cons d r)
        obtain x r' where rd: "read_4_digits r = (x, r')" by (cases "read_4_digits r")
        have r': "length r' \<le> length r" using read_4_digits_rest[of r] rd by simp
        have bs': "\<not> c \<noteq> CHR 0x5C" using bs by simp
        show ?thesis
        proof (cases "sur \<noteq> None \<and> d \<noteq> CHR ''u''")
          case d: False
          show ?thesis
          proof (cases "d = CHR ''u''")
            case u: True
            show ?thesis
              using r' 2(2,3,4)[OF c bs' Cons d u rd[symmetric]] c bs u rd Cons
              by (cases x; cases sur) (auto intro!: le_SucI intro: le_trans)
          next
            case u: False
            show ?thesis
              using 2(5)[OF c bs' Cons d u] c bs d u Cons
              by (cases "simple_escape d") (auto simp: le_SucI)
          qed
        qed (use c bs Cons in simp)
      qed (use c bs in simp)
    qed
  qed auto
qed simp

lemma next_token_shorter: "fst (next_token rd line s) \<noteq> Eof \<Longrightarrow> length (fst (snd (next_token rd line s))) < length s"
proof (induction rd line s rule: next_token.induct)
  case (2 rd line c s)
  consider "punctuation c" | "\<not> punctuation c" "c = CHR '' '' \<or> c = CHR 9 \<or> c = CHR 13"
    | "\<not> punctuation c" "c = CHR 10" | "\<not> punctuation c" "c = CHR ''/''"
    | "\<not> punctuation c" "\<not> (c = CHR '' '' \<or> c = CHR 9 \<or> c = CHR 13)" "c \<noteq> CHR 10" "c \<noteq> CHR ''/''"
    by blast
  then show ?case
  proof cases
    case 2
    then show ?thesis using "2.IH"(1) "2.prems" by auto
  next
    case 3
    then show ?thesis using "2.IH"(2) "2.prems" by auto
  next
    case 4
    obtain b q where cw: "check_word ''/'' s = (b, q)" by (cases "check_word ''/'' s")
    have q: "length q \<le> length s" using check_word_rest[of "''/''" s] cw by simp
    have n: "\<not> number_start (CHR ''/'')" by code_simp
    show ?thesis
      using "2.IH"(3)[of b q] "2.prems" 4 cw q n skip_comment_rest[of q] by (cases b) auto
  next
    case 5
    note c = 5[unfolded de_Morgan_disj]
    have w: "length (snd (word_token w t s)) < length (c # s)" for w and t :: "'a token"
      using check_word_rest[of w s] by (simp add: word_token_def split_beta)
    consider "c = CHR 0x22" | "c = CHR ''t''" | "c = CHR ''n''" | "c = CHR ''f''"
      | "c \<noteq> CHR 0x22" "c \<noteq> CHR ''t''" "c \<noteq> CHR ''n''" "c \<noteq> CHR ''f''" by blast
    then show ?thesis
    proof cases
      case 1
      obtain x r where ps: "parse_string None [] s = (x, r)" by (cases "parse_string None [] s")
      then have "length r \<le> length s" using parse_string_rest[of None "[]" s] by simp
      then show ?thesis using c 1 ps by (cases x) simp_all
    next
      case 5
      then show ?thesis using c by (auto split: option.split)
    qed (use c w in \<open>simp_all add: split_beta\<close>)
  qed simp
qed simp

lemma eof_fails: "goes_on p \<Longrightarrow> pstate (parse_step Eof p) = Parse_error"
  by (cases "pstate p")
     (auto simp: goes_on_def parse_step_def step_value_def step_key_def step_member_def step_element_def
        token_value_def fail_parse_def start_value_def split: json.split)

lemma parse_loop_shorter:
  assumes "goes_on p" "next_token rd line s = (t, r, line')"
  shows "(if goes_on (parse_step t p) then Suc (length r) else 0) < Suc (length s)"
proof (cases "t = Eof")
  case True
  then show ?thesis using eof_fails[OF assms(1)] by (simp add: goes_on_def)
next
  case False
  then show ?thesis using next_token_shorter[of rd line s] assms(2) by simp
qed

function parse_loop :: "'n reader \<Rightarrow> 'n parser \<Rightarrow> nat \<Rightarrow> string \<Rightarrow> 'n parser \<times> string \<times> nat" where
  "parse_loop rd p line s =
     (if goes_on p
      then (case next_token rd line s of (t, r, line') \<Rightarrow> parse_loop rd (parse_step t p) line' r)
      else (p, s, line))"
  by pat_completeness auto
termination
proof (relation "measure (\<lambda>(_, p, _, s). if goes_on p then Suc (length s) else 0)")
  fix rd :: "'n reader" and p :: "'n parser" and line s t y r line'
  assume "goes_on p" "(t, y) = next_token rd line s" "(r, line') = y"
  then show "((rd, parse_step t p, line', r), rd, p, line, s)
      \<in> measure (\<lambda>(_, p, _, s). if goes_on p then Suc (length s) else 0)"
    using parse_loop_shorter[of p rd line s t r line'] by simp
qed simp

declare parse_loop.simps [simp del]

text \<open>\<open>parse_stream\<close>: the value, or the line of the error.\<close>

definition parse_stream :: "'n reader \<Rightarrow> bool \<Rightarrow> string \<Rightarrow> (nat + 'n json) \<times> string" where
  "parse_stream rd force_eof s =
     (case parse_loop rd new_parser 1 s of
        (p, r, line) \<Rightarrow>
          if pstate p = Parse_done then
            (if force_eof
             then (case next_token rd line r of
                     (t, r', line') \<Rightarrow> (if t = Eof then Inr (root p) else Inl line', r'))
             else (Inr (root p), r))
          else (Inl line, r))"

definition load_json :: "'n reader \<Rightarrow> bool \<Rightarrow> string \<Rightarrow> nat + 'n json" where
  "load_json rd full s = fst (parse_stream rd full s)"

section \<open>Printed text is read back\<close>

subsection \<open>Tokens\<close>

declare parse_string.simps(2) [simp del] next_token.simps(2) [simp del]

lemma hex_lower_plain: "n < 16 \<Longrightarrow> hex_lower n \<noteq> CHR 10"
proof -
  have "\<forall>n \<in> set [0..<16]. hex_lower n \<noteq> CHR 10" by code_simp
  then show "n < 16 \<Longrightarrow> ?thesis" by simp
qed

lemma read_control:
  "read_4_digits (CHR ''0'' # CHR ''0'' # hex_lower (byte c div 16) # hex_lower (byte c mod 16) # t) = (Some (byte c), t)"
proof -
  have z: "xdigit (CHR ''0'')" "hex_value (CHR ''0'') = 0" by code_simp+
  have l: "byte c div 16 < 16" "byte c mod 16 < 16" by (simp_all add: byte_div_16)
  define a b where "a = hex_lower (byte c div 16)" and "b = hex_lower (byte c mod 16)"
  have h: "xdigit a" "xdigit b" "a \<noteq> CHR 10" "b \<noteq> CHR 10"
    using hex_lower_props l hex_lower_plain by (simp_all add: a_def b_def)
  have v: "16 * hex_value a + hex_value b = byte c"
    using hex_lower_props l byte_split_16[of c] by (simp only: a_def b_def)
  show ?thesis
    using h v unfolding a_def[symmetric] b_def[symmetric] by (simp add: read_4_digits_def numeral_eq_Suc z)
qed

lemma byte_literals:
  "byte c = 0x22 \<longleftrightarrow> c = CHR 0x22" "byte c = 0x5C \<longleftrightarrow> c = CHR 0x5C" "byte c = 8 \<longleftrightarrow> c = CHR 8"
  "byte c = 12 \<longleftrightarrow> c = CHR 12" "byte c = 10 \<longleftrightarrow> c = CHR 10" "byte c = 13 \<longleftrightarrow> c = CHR 13" "byte c = 9 \<longleftrightarrow> c = CHR 9"
proof -
  have i: "byte c = byte d \<longleftrightarrow> c = d" for d by (metis chr_byte)
  have b: "byte (CHR 0x22) = 0x22" "byte (CHR 0x5C) = 0x5C" "byte (CHR 8) = 8" "byte (CHR 12) = 12"
    "byte (CHR 10) = 10" "byte (CHR 13) = 13" "byte (CHR 9) = 9" by code_simp+
  show "byte c = 0x22 \<longleftrightarrow> c = CHR 0x22" "byte c = 0x5C \<longleftrightarrow> c = CHR 0x5C" "byte c = 8 \<longleftrightarrow> c = CHR 8"
    "byte c = 12 \<longleftrightarrow> c = CHR 12" "byte c = 10 \<longleftrightarrow> c = CHR 10" "byte c = 13 \<longleftrightarrow> c = CHR 13" "byte c = 9 \<longleftrightarrow> c = CHR 9"
    using i[of "CHR 0x22"] i[of "CHR 0x5C"] i[of "CHR 8"] i[of "CHR 12"] i[of "CHR 10"] i[of "CHR 13"] i[of "CHR 9"]
    unfolding b .
qed

lemma parse_json_char: "parse_string None acc (json_char c @ t) = parse_string None (acc @ [c]) t"
proof -
  consider "byte c = 0x22 \<or> byte c = 0x5C \<or> byte c = 8 \<or> byte c = 12 \<or> byte c = 10 \<or> byte c = 13 \<or> byte c = 9"
    | "\<not> (byte c = 0x22 \<or> byte c = 0x5C \<or> byte c = 8 \<or> byte c = 12 \<or> byte c = 10 \<or> byte c = 13 \<or> byte c = 9)"
      "byte c \<le> 0x1F"
    | "\<not> (byte c = 0x22 \<or> byte c = 0x5C \<or> byte c = 8 \<or> byte c = 12 \<or> byte c = 10 \<or> byte c = 13 \<or> byte c = 9)"
      "\<not> byte c \<le> 0x1F" by blast
  then show ?thesis
  proof cases
    case 1
    then have "c \<in> {CHR 0x22, CHR 0x5C, CHR 8, CHR 12, CHR 10, CHR 13, CHR 9}"
      by (auto simp: byte_literals)
    then show ?thesis
      by (auto simp: json_char_def parse_string.simps(2) simple_escape_def)
  next
    case 2
    have j: "json_char c = [CHR 0x5C, CHR ''u'', CHR ''0'', CHR ''0'', hex_lower (byte c div 16), hex_lower (byte c mod 16)]"
      using 2 by (simp add: json_char_def)
    have "utf8_encode (byte c) = [c]" using 2(2) by (simp add: utf8_encode_def)
    moreover have "\<not> is_first_surrogate (byte c)" using 2(2) by (simp add: is_first_surrogate_def)
    ultimately show ?thesis unfolding j by (simp add: parse_string.simps(2) read_control)
  next
    case 3
    then show ?thesis by (auto simp: json_char_def parse_string.simps(2))
  qed
qed

lemma parse_printed_string:
  "parse_string None acc (concat (map json_char s) @ CHR 0x22 # r) =
     (if utf8_validate False (acc @ s) = None then None else Some (acc @ s), r)"
proof (induction s arbitrary: acc)
  case Nil
  show ?case by (simp add: parse_string.simps(2))
next
  case (Cons c s)
  show ?case using parse_json_char[of acc c] Cons[of "acc @ [c]"] by simp
qed

lemma token_string:
  assumes "utf8_validate False s \<noteq> None"
  shows "next_token rd line (to_json s @ r) = (Str_token s, r, line)"
proof -
  have "\<not> punctuation (CHR 0x22)" by code_simp
  then show ?thesis
    using parse_printed_string[of "[]" s r] assms by (simp add: to_json_def next_token.simps(2))
qed

lemma token_punct: "punctuation c \<Longrightarrow> next_token rd line (c # s) = (Punct c, s, line)"
  by (simp add: next_token.simps(2))

lemma token_words:
  "next_token rd line (''true'' @ r) = (True_token, r, line)" "next_token rd line (''false'' @ r) = (False_token, r, line)"
  "next_token rd line (''null'' @ r) = (Null_token, r, line)"
  by (simp_all add: next_token.simps(2) punctuation_def word_token_def)

definition blank :: "string \<Rightarrow> bool" where
  "blank = list_all (\<lambda>c. c = CHR '' '' \<or> c = CHR 9 \<or> c = CHR 10)"

lemma token_blank:
  "blank ws \<Longrightarrow> \<exists>line'. next_token rd line (ws @ r) = next_token rd line' r"
proof (induction ws arbitrary: line)
  case (Cons c ws)
  have "\<not> punctuation (CHR '' '')" "\<not> punctuation (CHR 9)" "\<not> punctuation (CHR 10)" by code_simp+
  then show ?case using Cons by (auto simp: blank_def next_token.simps(2))
qed auto

subsection \<open>The effect of a piece of text\<close>

definition parse_result :: "'n reader \<Rightarrow> 'n parser \<Rightarrow> nat \<Rightarrow> string \<Rightarrow> 'n json option" where
  "parse_result rd p line s =
     (case parse_loop rd p line s of
        (q, r, l) \<Rightarrow> if pstate q = Parse_done \<and> fst (next_token rd l r) = Eof then Some (root q) else None)"

lemma load_json_result: "load_json rd True s = Inr v \<longleftrightarrow> parse_result rd new_parser 1 s = Some v"
  by (auto simp: load_json_def parse_stream_def parse_result_def split: prod.splits)

text \<open>
  \<open>text\<close> takes the parser from \<open>p\<close> to \<open>q\<close>, but for the remembered key, whatever follows; for
  \<open>eats\<close> what follows must not go on with a number.
\<close>

definition number_end :: "string \<Rightarrow> bool" where
  "number_end r \<longleftrightarrow> r = [] \<or> hd r \<in> {CHR '','', CHR '']'', CHR ''}'', CHR 10}"

definition eats_if :: "(string \<Rightarrow> bool) \<Rightarrow> 'n reader \<Rightarrow> string \<Rightarrow> 'n parser \<Rightarrow> 'n parser \<Rightarrow> bool" where
  "eats_if R rd s p q \<longleftrightarrow>
     (\<forall>k line r. R r \<longrightarrow>
        (\<exists>k' line'. parse_result rd (p\<lparr>pkey := k\<rparr>) line (s @ r) = parse_result rd (q\<lparr>pkey := k'\<rparr>) line' r))"

abbreviation eats :: "'n reader \<Rightarrow> string \<Rightarrow> 'n parser \<Rightarrow> 'n parser \<Rightarrow> bool" where
  "eats \<equiv> eats_if number_end"

abbreviation eats_any :: "'n reader \<Rightarrow> string \<Rightarrow> 'n parser \<Rightarrow> 'n parser \<Rightarrow> bool" where
  "eats_any \<equiv> eats_if (\<lambda>_. True)"

lemma eats_weaken: "eats_any rd s p q \<Longrightarrow> eats_if R rd s p q"
  unfolding eats_if_def by blast

lemma eats_append:
  assumes "eats_if R rd s p q" "eats_if R' rd t q p'" "\<And>r. R' r \<Longrightarrow> R (t @ r)"
  shows "eats_if R' rd (s @ t) p p'"
  unfolding eats_if_def
proof (intro allI impI)
  fix k line r
  assume r: "R' r"
  obtain k1 l1 where 1: "parse_result rd (p\<lparr>pkey := k\<rparr>) line (s @ t @ r) = parse_result rd (q\<lparr>pkey := k1\<rparr>) l1 (t @ r)"
    using assms(1) assms(3)[OF r] unfolding eats_if_def by blast
  obtain k2 l2 where "parse_result rd (q\<lparr>pkey := k1\<rparr>) l1 (t @ r) = parse_result rd (p'\<lparr>pkey := k2\<rparr>) l2 r"
    using assms(2) r unfolding eats_if_def by blast
  then show "\<exists>k' line'. parse_result rd (p\<lparr>pkey := k\<rparr>) line ((s @ t) @ r) = parse_result rd (p'\<lparr>pkey := k'\<rparr>) line' r"
    using 1 by auto
qed

lemma parse_result_step:
  assumes "goes_on p" "next_token rd line s = (t, r, line')"
  shows "parse_result rd p line s = parse_result rd (parse_step t p) line' r"
  using assms by (simp add: parse_result_def parse_loop.simps[of rd p line s])

lemma parse_result_blank:
  assumes "blank ws"
  shows "\<exists>line'. parse_result rd p line (ws @ r) = parse_result rd p line' r"
proof -
  obtain l where l: "next_token rd line (ws @ r) = next_token rd l r" using token_blank[OF assms] by blast
  have "parse_result rd p line (ws @ r) = parse_result rd p l r"
  proof (cases "goes_on p")
    case True
    then show ?thesis by (simp add: parse_result_def parse_loop.simps[of rd p] l)
  next
    case False
    then show ?thesis by (simp add: parse_result_def parse_loop.simps[of rd p] l)
  qed
  then show ?thesis by blast
qed

lemma eats_blank: "blank ws \<Longrightarrow> eats_any rd ws p p"
  unfolding eats_if_def using parse_result_blank by blast

lemma goes_on_key [simp]: "goes_on (p\<lparr>pkey := k\<rparr>) = goes_on p"
  by (simp add: goes_on_def)

lemma eats_token:
  assumes "goes_on p"
    and "\<And>line r. R r \<Longrightarrow> next_token rd line (s @ r) = (t, r, line)"
    and "\<And>k. \<exists>k'. parse_step t (p\<lparr>pkey := k\<rparr>) = q\<lparr>pkey := k'\<rparr>"
  shows "eats_if R rd s p q"
  unfolding eats_if_def
proof (intro allI impI)
  fix k line r
  assume r: "R r"
  obtain k' where k': "parse_step t (p\<lparr>pkey := k\<rparr>) = q\<lparr>pkey := k'\<rparr>" using assms(3) by blast
  have "parse_result rd (p\<lparr>pkey := k\<rparr>) line (s @ r) = parse_result rd (parse_step t (p\<lparr>pkey := k\<rparr>)) line r"
    by (rule parse_result_step) (simp_all add: assms(1) assms(2)[OF r])
  then show "\<exists>k' line'. parse_result rd (p\<lparr>pkey := k\<rparr>) line (s @ r) = parse_result rd (q\<lparr>pkey := k'\<rparr>) line' r"
    using k' by auto
qed

lemma eats_punct:
  assumes "goes_on p" "punctuation c" "\<And>k. \<exists>k'. parse_step (Punct c) (p\<lparr>pkey := k\<rparr>) = q\<lparr>pkey := k'\<rparr>"
  shows "eats_any rd [c] p q"
  by (rule eats_token[OF assms(1) _ assms(3)]) (simp add: token_punct assms(2))

text \<open>What \<open>indent\<close> writes is the character between blanks.\<close>

lemma indent_text:
  assumes "punctuation c"
  obtains a b where "fst (indent c tabs) = a @ [c] @ b" "blank a" "blank b"
    "c \<in> {CHR '','', CHR '']'', CHR ''}''} \<longrightarrow> a = [] \<or> hd a = CHR 10"
proof -
  have p: "blank (pad t)" "blank (CHR 10 # pad t)" for t by (simp_all add: blank_def pad_def list_all_iff)
  have c: "c = CHR ''['' \<or> c = CHR ''{'' \<or> c = CHR '':'' \<or> c = CHR '','' \<or> c = CHR ''}'' \<or> c = CHR '']''"
    using assms by (auto simp: punctuation_def)
  show ?thesis
  proof (cases "tabs < 0")
    case True
    show ?thesis by (rule that[of "[]" "[]"]) (use True in \<open>simp_all add: indent_def blank_def\<close>)
  next
    case False
    have o: "c = CHR ''['' \<or> c = CHR ''{'' \<Longrightarrow> ?thesis"
      by (rule that[of "[]" "CHR 10 # pad (tabs + 1)"]) (use False p in \<open>auto simp: indent_def blank_def\<close>)
    have m: "c = CHR '','' \<Longrightarrow> ?thesis"
      by (rule that[of "[]" "CHR 10 # pad tabs"]) (use False p in \<open>auto simp: indent_def blank_def\<close>)
    have n: "c = CHR '':'' \<Longrightarrow> ?thesis"
      by (rule that[of "'' ''" "[CHR 9]"]) (use False in \<open>auto simp: indent_def blank_def\<close>)
    have e: "c = CHR ''}'' \<or> c = CHR '']'' \<Longrightarrow> ?thesis"
      by (rule that[of "CHR 10 # pad (tabs - 1)" "CHR 10 # pad (tabs - 1)"]) (use False p in \<open>auto simp: indent_def\<close>)
    show ?thesis using c o m n e by blast
  qed
qed

lemma eats_indent:
  assumes "goes_on p" "punctuation c" "\<And>k. \<exists>k'. parse_step (Punct c) (p\<lparr>pkey := k\<rparr>) = q\<lparr>pkey := k'\<rparr>"
  shows "eats_any rd (fst (indent c tabs)) p q"
proof -
  obtain a b where i: "fst (indent c tabs) = a @ [c] @ b" "blank a" "blank b" using indent_text[OF assms(2)] by blast
  show ?thesis unfolding i(1)
    by (rule eats_append[OF eats_blank[OF i(2)] eats_append[OF eats_punct[OF assms] eats_blank[OF i(3)]]]) simp_all
qed

lemma indent_number_end: "c \<in> {CHR '','', CHR '']'', CHR ''}''} \<Longrightarrow> number_end (fst (indent c tabs) @ r)"
proof -
  assume c: "c \<in> {CHR '','', CHR '']'', CHR ''}''}"
  then have "punctuation c" by (auto simp: punctuation_def)
  then obtain a b where "fst (indent c tabs) = a @ [c] @ b" "a = [] \<or> hd a = CHR 10" using indent_text c by blast
  then show ?thesis using c by (cases a) (auto simp: number_end_def)
qed

subsection \<open>Where a value is expected\<close>

definition wants :: "'n parser \<Rightarrow> bool" where
  "wants p \<longleftrightarrow>
     (case (pstate p, stack p) of
        (Value_expected, [_]) \<Rightarrow> True
      | (Object_value_expected, (_, Object m, _) # _) \<Rightarrow> map_of m (pkey p) = None
      | (Array_value_or_close_expected, (_, Array xs, _) # _) \<Rightarrow> True
      | _ \<Rightarrow> False)"

definition room_used :: "'n parser \<Rightarrow> nat" where
  "room_used p = (if pstate p = Value_expected then 0 else length (stack p))"

definition place :: "'n json \<Rightarrow> 'n parser \<Rightarrow> 'n parser" where
  "place v p =
     (case (pstate p, stack p) of
        (Value_expected, (st, _, k) # fs) \<Rightarrow> pop_frame (p\<lparr>stack := (st, v, k) # fs\<rparr>)
      | (Object_value_expected, (st, Object m, k) # fs) \<Rightarrow>
          p\<lparr>pstate := Object_close_or_comma_expected, stack := (st, Object (omap_set (pkey p) v m), k) # fs\<rparr>
      | (Array_value_or_close_expected, (st, Array xs, k) # fs) \<Rightarrow>
          p\<lparr>pstate := Array_close_or_comma_expected, stack := (st, Array (xs @ [v]), k) # fs\<rparr>
      | _ \<Rightarrow> p)"

lemma wants_cases:
  assumes "wants p"
  obtains (top) st u k where "pstate p = Value_expected" "stack p = [(st, u, k)]"
  | (member) st m k fs where "pstate p = Object_value_expected" "stack p = (st, Object m, k) # fs"
      "map_of m (pkey p) = None"
  | (element) st xs k fs where "pstate p = Array_value_or_close_expected" "stack p = (st, Array xs, k) # fs"
  using assms unfolding wants_def
  by (auto split: prod.splits parse_state.splits list.splits json.splits)

lemma omap_set_twice: "omap_set k v (omap_set k u m) = omap_set k v (m :: (string \<times> 'v) list)"
  by (induction k u m rule: omap_set.induct) auto

lemma wants_goes_on: "wants p \<Longrightarrow> room_used p \<le> json_max_depth \<Longrightarrow> goes_on p"
  by (elim wants_cases) (simp_all add: goes_on_def room_used_def json_max_depth_def)

lemma scalar_step:
  assumes "wants p" "token_value t = Some v"
  shows "parse_step t p = place v p"
proof -
  have t: "t \<noteq> Punct c" for c using assms(2) by (auto simp: token_value_def)
  show ?thesis
    using assms(1)
    by (cases rule: wants_cases)
       (simp_all add: parse_step_def step_value_def step_member_def step_element_def start_value_def place_def
          set_top_def top_value_def put_child_def t assms(2) omap_set_twice)
qed

text \<open>A container: the parser inside it, and what the end of it does.\<close>

definition enter :: "'n json \<Rightarrow> 'n parser \<Rightarrow> 'n parser" where
  "enter c p =
     (case (pstate p, stack p) of
        (Value_expected, (st, _, k) # fs) \<Rightarrow> p\<lparr>stack := (st, c, k) # fs\<rparr>
      | (Object_value_expected, (st, Object m, k) # fs) \<Rightarrow>
          p\<lparr>stack := (Object_close_or_comma_expected, c, pkey p) # (st, Object (omap_set (pkey p) Undefined m), k) # fs\<rparr>
      | (Array_value_or_close_expected, (st, Array xs, k) # fs) \<Rightarrow>
          p\<lparr>stack := (Array_close_or_comma_expected, c, pkey p) # (st, Array (xs @ [Undefined]), k) # fs\<rparr>
      | _ \<Rightarrow> p)"

lemma enter_step:
  assumes "wants p"
  shows "parse_step (Punct (CHR ''['')) p = (enter (Array []) p)\<lparr>pstate := Array_value_or_close_expected\<rparr>"
    and "parse_step (Punct (CHR ''{'')) p = (enter (Object []) p)\<lparr>pstate := Key_or_close_expected\<rparr>"
  using assms
  by (cases rule: wants_cases;
      simp add: parse_step_def step_value_def step_member_def step_element_def start_value_def enter_def
        set_top_def top_value_def token_value_def)+

lemma leave_container:
  assumes "wants p"
  shows "pop_frame ((enter v p)\<lparr>pstate := st, pkey := k\<rparr>) = (place v p)\<lparr>pkey := k\<rparr>"
  using assms
  by (cases rule: wants_cases)
     (simp_all add: enter_def place_def pop_frame_def put_child_def omap_set_twice)

lemma enter_room: "wants p \<Longrightarrow> length (stack (enter c p)) = Suc (room_used p)"
  by (elim wants_cases) (simp_all add: enter_def room_used_def)

lemma enter_top: "wants p \<Longrightarrow> \<exists>st k fs. \<forall>c. stack (enter c p) = (st, c, k) # fs"
  by (elim wants_cases) (simp_all add: enter_def)

lemma enter_set_stack: "wants p \<Longrightarrow> stack (enter c p) = (st, c, k) # fs \<Longrightarrow>
    (enter c p)\<lparr>stack := (st, d, k) # fs\<rparr> = enter d p"
  by (elim wants_cases) (auto simp: enter_def)

subsection \<open>Values that can be printed and read\<close>

definition text_ok :: "string \<Rightarrow> bool" where
  "text_ok s \<longleftrightarrow> utf8_validate False s \<noteq> None"

definition number_ok :: "'n reader \<Rightarrow> ('n \<Rightarrow> string) \<Rightarrow> 'n \<Rightarrow> bool" where
  "number_ok rd sh n \<longleftrightarrow>
     (\<exists>c s. sh n = c # s \<and> number_start c \<and>
        (\<forall>r. number_end r \<longrightarrow> rd (sh n @ r) = Some (n, length (sh n))))"

fun json_ok :: "('n \<Rightarrow> bool) \<Rightarrow> 'n json \<Rightarrow> bool" where
  "json_ok N Undefined = False"
| "json_ok N Null = True"
| "json_ok N (Boolean b) = True"
| "json_ok N (Number n) = N n"
| "json_ok N (Str s) = text_ok s"
| "json_ok N (Object m) = (omap_ok m \<and> (\<forall>(k, v) \<in> set m. text_ok k \<and> json_ok N v))"
| "json_ok N (Array xs) = (\<forall>v \<in> set xs. json_ok N v)"

fun json_depth :: "'n json \<Rightarrow> nat" where
  "json_depth (Object m) = Suc (foldr (\<lambda>(k, v) d. max (json_depth v) d) m 0)"
| "json_depth (Array xs) = Suc (foldr (\<lambda>v d. max (json_depth v) d) xs 0)"
| "json_depth _ = 0"

lemma token_number:
  assumes "number_ok rd sh n" "number_end r"
  shows "next_token rd line (sh n @ r) = (Number_token n, r, line)"
proof -
  obtain c s where s: "sh n = c # s" "number_start c" "rd (sh n @ r) = Some (n, length (sh n))"
    using assms unfolding number_ok_def by blast
  have "\<forall>d \<in> set (''[{:,}] tnf'' @ [CHR 9, CHR 13, CHR 10, CHR 0x22]). \<not> number_start d" by code_simp
  then have "c \<notin> set (''[{:,}] tnf'' @ [CHR 9, CHR 13, CHR 10, CHR 0x22])" using s(2) by blast
  then have "\<not> punctuation c" "c \<notin> {CHR '' '', CHR 9, CHR 13, CHR 10, CHR 0x22, CHR ''t'', CHR ''n'', CHR ''f''}"
    by (simp_all add: punctuation_def)
  then show ?thesis using s by (simp add: next_token.simps(2))
qed

subsection \<open>Values and containers\<close>

lemma eats_scalar:
  assumes "wants p" "room_used p \<le> json_max_depth" "token_value t = Some v"
    and "\<And>line r. R r \<Longrightarrow> next_token rd line (s @ r) = (t, r, line)"
  shows "\<exists>k'. parse_step t p = (place v p)\<lparr>pkey := k'\<rparr>"
    and "R r \<Longrightarrow> \<exists>k' line'. parse_result rd p line (s @ r) = parse_result rd ((place v p)\<lparr>pkey := k'\<rparr>) line' r"
proof -
  have st: "parse_step t p = (place v p)\<lparr>pkey := pkey (place v p)\<rparr>"
    using scalar_step[OF assms(1,3)] by simp
  then show "\<exists>k'. parse_step t p = (place v p)\<lparr>pkey := k'\<rparr>" by blast
  show "R r \<Longrightarrow> \<exists>k' line'. parse_result rd p line (s @ r) = parse_result rd ((place v p)\<lparr>pkey := k'\<rparr>) line' r"
    using parse_result_step[OF wants_goes_on[OF assms(1,2)] assms(4)] st by metis
qed

text \<open>The text of a value takes a parser that wants one to the parser that has it.\<close>

definition reads_as :: "'n reader \<Rightarrow> string \<Rightarrow> 'n json \<Rightarrow> bool" where
  "reads_as rd s v \<longleftrightarrow>
     (\<forall>p line r. wants p \<and> room_used p + json_depth v \<le> json_max_depth \<and> number_end r \<longrightarrow>
        (\<exists>k' line'. parse_result rd p line (s @ r) = parse_result rd ((place v p)\<lparr>pkey := k'\<rparr>) line' r))"

lemma reads_scalar:
  fixes v :: "'n json"
  assumes "token_value t = Some v" "\<And>line r. number_end r \<Longrightarrow> next_token rd line (s @ r) = (t, r, line)"
  shows "reads_as rd s v"
  unfolding reads_as_def
proof (intro allI impI, elim conjE)
  fix p :: "'n parser" and line r
  assume "wants p" "room_used p + json_depth v \<le> json_max_depth" "number_end r"
  then show "\<exists>k' line'. parse_result rd p line (s @ r) = parse_result rd ((place v p)\<lparr>pkey := k'\<rparr>) line' r"
    using eats_scalar(2)[of p t v number_end rd s r line] assms by simp
qed

text \<open>The inside of an array and of an object, from parsers that have read some of it.\<close>

definition in_array :: "'n json list \<Rightarrow> 'n parser \<Rightarrow> bool" where
  "in_array xs p \<longleftrightarrow> (\<exists>st k fs. stack p = (st, Array xs, k) # fs) \<and> length (stack p) \<le> json_max_depth"

definition in_object :: "(string \<times> 'n json) list \<Rightarrow> 'n parser \<Rightarrow> bool" where
  "in_object m p \<longleftrightarrow> (\<exists>st k fs. stack p = (st, Object m, k) # fs) \<and> length (stack p) \<le> json_max_depth"

definition holding :: "'n json \<Rightarrow> parse_state \<Rightarrow> 'n parser \<Rightarrow> 'n parser" where
  "holding v st p = (case stack p of (a, _, k) # fs \<Rightarrow> p\<lparr>pstate := st, stack := (a, v, k) # fs\<rparr> | [] \<Rightarrow> p)"

lemma in_containers:
  "in_array xs p \<Longrightarrow> in_array ys (holding (Array ys) st p)" "in_object m p \<Longrightarrow> in_object m' (holding (Object m') st p)"
  "in_array xs p \<Longrightarrow> holding v st (holding u st' p) = holding v st p"
  "in_object m p \<Longrightarrow> holding v st (holding u st' p) = holding v st p"
  by (auto simp: in_array_def in_object_def holding_def)

lemma array_goes_on:
  "in_array xs p \<Longrightarrow> st \<noteq> Parse_error \<Longrightarrow> st \<noteq> Parse_done \<Longrightarrow> goes_on (holding v st p)"
  "in_object m p \<Longrightarrow> st \<noteq> Parse_error \<Longrightarrow> st \<noteq> Parse_done \<Longrightarrow> goes_on (holding v st p)"
  by (auto simp: in_array_def in_object_def holding_def goes_on_def)

lemma element_place:
  assumes "in_array xs p"
  shows "wants (holding (Array ys) Array_value_or_close_expected p\<lparr>pkey := k\<rparr>)"
    and "place v (holding (Array ys) Array_value_or_close_expected p\<lparr>pkey := k\<rparr>) =
           holding (Array (ys @ [v])) Array_close_or_comma_expected p\<lparr>pkey := k\<rparr>"
    and "room_used (holding (Array ys) Array_value_or_close_expected p\<lparr>pkey := k\<rparr>) = length (stack p)"
  using assms by (auto simp: in_array_def holding_def wants_def place_def room_used_def)

lemma write_elementsD:
  assumes "write_elements sh t (x # xs) = Some s"
  obtains a b where "write_value sh t x = Some a" "write_elements sh t xs = Some b"
    "s = a @ (if xs = [] then [] else fst (indent (CHR '','') t)) @ b"
  using assms by (auto split: option.splits)

lemma eats_element:
  assumes "reads_as rd s x" "in_array zs p" "length (stack p) + json_depth x \<le> json_max_depth"
  shows "eats rd s (holding (Array ys) Array_value_or_close_expected p)
           (holding (Array (ys @ [x])) Array_close_or_comma_expected p)"
  unfolding eats_if_def
proof (intro allI impI)
  let ?p = "holding (Array ys) Array_value_or_close_expected p"
  fix k line r
  assume r: "number_end r"
  have "room_used (?p\<lparr>pkey := k\<rparr>) + json_depth x \<le> json_max_depth"
    using assms(3) element_place(3)[OF assms(2), where ys = ys and k = k] by simp
  then obtain k' line' where "parse_result rd (?p\<lparr>pkey := k\<rparr>) line (s @ r) =
      parse_result rd ((place x (?p\<lparr>pkey := k\<rparr>))\<lparr>pkey := k'\<rparr>) line' r"
    using assms(1) element_place(1)[OF assms(2), where ys = ys and k = k] r unfolding reads_as_def by blast
  then show "\<exists>k' line'. parse_result rd (?p\<lparr>pkey := k\<rparr>) line (s @ r) =
      parse_result rd (holding (Array (ys @ [x])) Array_close_or_comma_expected p\<lparr>pkey := k'\<rparr>) line' r"
    by (auto simp: element_place(2)[OF assms(2)])
qed

lemma eats_elements:
  assumes "write_elements sh t xs = Some s" "xs \<noteq> []" "in_array zs p"
    and "\<forall>x \<in> set xs. length (stack p) + json_depth x \<le> json_max_depth \<and>
           (\<forall>a. write_value sh t x = Some a \<longrightarrow> reads_as rd a x)"
  shows "eats rd s (holding (Array ys) Array_value_or_close_expected p)
           (holding (Array (ys @ xs)) Array_close_or_comma_expected p)"
  using assms(1,2,4)
proof (induction xs arbitrary: ys s)
  case (Cons x xs)
  obtain a b where ab: "write_value sh t x = Some a" "write_elements sh t xs = Some b"
    "s = a @ (if xs = [] then [] else fst (indent (CHR '','') t)) @ b"
    using write_elementsD Cons.prems(1) by metis
  let ?q = "holding (Array (ys @ [x])) Array_close_or_comma_expected p"
    and ?n = "holding (Array (ys @ [x])) Array_value_or_close_expected p"
  have one: "eats rd a (holding (Array ys) Array_value_or_close_expected p) ?q"
    using eats_element[OF _ assms(3)] Cons.prems(3) ab(1) by simp
  show ?case
  proof (cases "xs = []")
    case True
    then show ?thesis using one ab by simp
  next
    case False
    have comma: "eats_any rd (fst (indent (CHR '','') t)) ?q ?n"
    proof (rule eats_indent)
      show "goes_on ?q" using array_goes_on(1)[OF assms(3)] by simp
      show "\<exists>k'. parse_step (Punct (CHR '','')) (?q\<lparr>pkey := k\<rparr>) = ?n\<lparr>pkey := k'\<rparr>" for k
        by (rule exI[of _ k]) (use assms(3) in \<open>auto simp: in_array_def holding_def parse_step_def\<close>)
    qed (simp add: punctuation_def)
    have "eats rd (a @ fst (indent (CHR '','') t) @ b)
        (holding (Array ys) Array_value_or_close_expected p)
        (holding (Array ((ys @ [x]) @ xs)) Array_close_or_comma_expected p)"
      by (rule eats_append[OF one eats_append[OF comma Cons.IH[OF ab(2) False]]])
         (use Cons.prems in \<open>simp_all add: indent_number_end\<close>)
    then show ?thesis using ab(3) False by simp
  qed
qed simp

lemma member_place:
  assumes "in_object zs p" "map_of m k = None"
  shows "wants (holding (Object m) Object_value_expected p\<lparr>pkey := k\<rparr>)"
    and "place v (holding (Object m) Object_value_expected p\<lparr>pkey := k\<rparr>) =
           holding (Object (omap_set k v m)) Object_close_or_comma_expected p\<lparr>pkey := k\<rparr>"
    and "room_used (holding (Object m) Object_value_expected p\<lparr>pkey := k\<rparr>) = length (stack p)"
  using assms by (auto simp: in_object_def holding_def wants_def place_def room_used_def)

text \<open>A member: its key, the colon, its value.\<close>

lemma eats_member:
  assumes v: "reads_as rd s x" and k: "text_ok key" "map_of m key = None" and p: "in_object zs p"
    and d: "length (stack p) + json_depth x \<le> json_max_depth"
  shows "eats rd (to_json key @ fst (indent (CHR '':'') t) @ s)
           (holding (Object m) Key_or_close_expected p)
           (holding (Object (omap_set key x m)) Object_close_or_comma_expected p)"
  unfolding eats_if_def
proof (intro allI impI)
  let ?a = "holding (Object m) Key_or_close_expected p"
    and ?b = "holding (Object m) Colon_expected p"
    and ?c = "holding (Object m) Object_value_expected p"
    and ?d = "holding (Object (omap_set key x m)) Object_close_or_comma_expected p"
  fix k line r
  assume r: "number_end r"
  have on: "goes_on (?a\<lparr>pkey := k'\<rparr>)" "goes_on (?b\<lparr>pkey := k'\<rparr>)" for k'
    using array_goes_on(2)[OF p] by simp_all
  have 1: "parse_result rd (?a\<lparr>pkey := k\<rparr>) line (to_json key @ u) = parse_result rd (?b\<lparr>pkey := key\<rparr>) line u" for u
  proof -
    have "parse_step (Str_token key) (?a\<lparr>pkey := k\<rparr>) = ?b\<lparr>pkey := key\<rparr>"
      using p by (auto simp: in_object_def holding_def parse_step_def step_key_def)
    then show ?thesis
      using parse_result_step[OF on(1) token_string[OF k(1)[unfolded text_ok_def]]] by simp
  qed
  obtain a b where i: "fst (indent (CHR '':'') t) = a @ [CHR '':''] @ b" "blank a" "blank b"
    using indent_text[of "CHR '':''" t] by (auto simp: punctuation_def)
  have 2: "\<exists>line'. parse_result rd (?b\<lparr>pkey := key\<rparr>) line (fst (indent (CHR '':'') t) @ u) =
      parse_result rd (?c\<lparr>pkey := key\<rparr>) line' u" for line u
  proof -
    have st: "parse_step (Punct (CHR '':'')) (?b\<lparr>pkey := key\<rparr>) = ?c\<lparr>pkey := key\<rparr>"
      using p by (auto simp: in_object_def holding_def parse_step_def)
    have pc: "punctuation (CHR '':'')" by (simp add: punctuation_def)
    obtain l1 where "parse_result rd (?b\<lparr>pkey := key\<rparr>) line (a @ CHR '':'' # b @ u) =
        parse_result rd (?b\<lparr>pkey := key\<rparr>) l1 (CHR '':'' # b @ u)"
      using parse_result_blank[OF i(2)] by blast
    moreover have "parse_result rd (?b\<lparr>pkey := key\<rparr>) l1 (CHR '':'' # b @ u) = parse_result rd (?c\<lparr>pkey := key\<rparr>) l1 (b @ u)"
      using parse_result_step[OF on(2) token_punct[OF pc]] st by simp
    moreover obtain l2 where "parse_result rd (?c\<lparr>pkey := key\<rparr>) l1 (b @ u) = parse_result rd (?c\<lparr>pkey := key\<rparr>) l2 u"
      using parse_result_blank[OF i(3)] by blast
    ultimately show ?thesis unfolding i(1) by auto
  qed
  have "room_used (?c\<lparr>pkey := key\<rparr>) + json_depth x \<le> json_max_depth"
    using d member_place(3)[OF p k(2)] by simp
  then have "\<exists>k' line'. parse_result rd (?c\<lparr>pkey := key\<rparr>) line (s @ r) =
      parse_result rd ((place x (?c\<lparr>pkey := key\<rparr>))\<lparr>pkey := k'\<rparr>) line' r" for line
    using v member_place(1)[OF p k(2)] r unfolding reads_as_def by blast
  then have 3: "\<exists>k' line'. parse_result rd (?c\<lparr>pkey := key\<rparr>) line (s @ r) =
      parse_result rd (?d\<lparr>pkey := k'\<rparr>) line' r" for line
    by (simp add: member_place(2)[OF p k(2)])
  show "\<exists>k' line'. parse_result rd (?a\<lparr>pkey := k\<rparr>) line ((to_json key @ fst (indent (CHR '':'') t) @ s) @ r) =
      parse_result rd (?d\<lparr>pkey := k'\<rparr>) line' r"
    using 1[of "fst (indent (CHR '':'') t) @ s @ r"] 2[of line "s @ r"] 3 by (metis append.assoc)
qed

lemma write_membersD:
  assumes "write_members sh t ((k, x) # m) = Some s"
  obtains a b where "write_value sh t x = Some a" "write_members sh t m = Some b"
    "s = to_json k @ fst (indent (CHR '':'') t) @ a @ (if m = [] then [] else fst (indent (CHR '','') t)) @ b"
  using assms by (auto split: option.splits)

lemma eats_members:
  assumes "write_members sh t m = Some s" "m \<noteq> []" "in_object zs p"
    and "\<forall>(k, x) \<in> set m. text_ok k \<and> length (stack p) + json_depth x \<le> json_max_depth \<and>
           (\<forall>a. write_value sh t x = Some a \<longrightarrow> reads_as rd a x)"
    and "omap_ok (m0 @ m)"
  shows "eats rd s (holding (Object m0) Key_or_close_expected p)
           (holding (Object (m0 @ m)) Object_close_or_comma_expected p)"
  using assms(1,2,4,5)
proof (induction m arbitrary: m0 s)
  case (Cons kx m)
  obtain k x where kx: "kx = (k, x)" by (cases kx)
  obtain a b where ab: "write_value sh t x = Some a" "write_members sh t m = Some b"
    "s = to_json k @ fst (indent (CHR '':'') t) @ a @ (if m = [] then [] else fst (indent (CHR '','') t)) @ b"
    using write_membersD Cons.prems(1)[unfolded kx] by metis
  have "omap_ok (m0 @ [(k, x)])" using Cons.prems(4) kx by (auto simp: omap_ok_def sorted_wrt_append)
  then have o: "omap_set k x m0 = m0 @ [(k, x)]" by (rule omap_set_append)
  have "distinct (map fst (m0 @ kx # m))" using Cons.prems(4) by (rule omap_ok_distinct)
  then have n: "map_of m0 k = None" using kx by (auto simp: map_of_eq_None_iff)
  let ?q = "holding (Object (m0 @ [(k, x)])) Object_close_or_comma_expected p"
    and ?n = "holding (Object (m0 @ [(k, x)])) Key_or_close_expected p"
  have one: "eats rd (to_json k @ fst (indent (CHR '':'') t) @ a) (holding (Object m0) Key_or_close_expected p) ?q"
    using eats_member[of rd a x k m0 zs p t] Cons.prems(3) ab(1) n assms(3) kx unfolding o by simp
  show ?case
  proof (cases "m = []")
    case True
    then show ?thesis using one ab kx by simp
  next
    case False
    have comma: "eats_any rd (fst (indent (CHR '','') t)) ?q ?n"
    proof (rule eats_indent)
      show "goes_on ?q" using array_goes_on(2)[OF assms(3)] by simp
      show "\<exists>k'. parse_step (Punct (CHR '','')) (?q\<lparr>pkey := k\<rparr>) = ?n\<lparr>pkey := k'\<rparr>" for k
        by (rule exI[of _ k]) (use assms(3) in \<open>auto simp: in_object_def holding_def parse_step_def\<close>)
    qed (simp add: punctuation_def)
    have "eats rd ((to_json k @ fst (indent (CHR '':'') t) @ a) @ fst (indent (CHR '','') t) @ b)
        (holding (Object m0) Key_or_close_expected p)
        (holding (Object ((m0 @ [(k, x)]) @ m)) Object_close_or_comma_expected p)"
      by (rule eats_append[OF one eats_append[OF comma Cons.IH[OF ab(2) False]]])
         (use Cons.prems kx in \<open>simp_all add: indent_number_end\<close>)
    then show ?thesis using ab(3) False kx by simp
  qed
qed simp

lemma enter_holding: "wants p \<Longrightarrow> holding c st (enter u p) = (enter c p)\<lparr>pstate := st\<rparr>"
  by (elim wants_cases) (simp_all add: enter_def holding_def)

lemma enter_in:
  assumes "wants p" "Suc (room_used p) \<le> json_max_depth"
  shows "in_array xs (enter (Array xs) p)" "in_object m (enter (Object m) p)"
  using assms(1) enter_room[OF assms(1)] enter_top[OF assms(1)] assms(2)
  unfolding in_array_def in_object_def by metis+

lemma eats_close:
  fixes p :: "'n parser"
  assumes "wants p" "Suc (room_used p) \<le> json_max_depth" "punctuation c" "st \<noteq> Parse_error" "st \<noteq> Parse_done"
    and "\<And>q :: 'n parser. pstate q = st \<Longrightarrow> parse_step (Punct c) q = pop_frame q"
  shows "eats_any rd (fst (indent c t)) ((enter v p)\<lparr>pstate := st\<rparr>) (place v p)"
proof (rule eats_indent[OF _ assms(3)])
  show "goes_on ((enter v p)\<lparr>pstate := st\<rparr>)"
    using enter_room[OF assms(1), of v] enter_top[OF assms(1)] assms(2,4,5) by (auto simp: goes_on_def)
  show "\<exists>k'. parse_step (Punct c) ((enter v p)\<lparr>pstate := st\<rparr>\<lparr>pkey := k\<rparr>) = (place v p)\<lparr>pkey := k'\<rparr>" for k
  proof (rule exI[of _ k])
    have "parse_step (Punct c) ((enter v p)\<lparr>pstate := st, pkey := k\<rparr>) = pop_frame ((enter v p)\<lparr>pstate := st, pkey := k\<rparr>)"
      by (rule assms(6)) simp
    then show "parse_step (Punct c) ((enter v p)\<lparr>pstate := st\<rparr>\<lparr>pkey := k\<rparr>) = (place v p)\<lparr>pkey := k\<rparr>"
      using leave_container[OF assms(1), where v = v and st = st and k = k] by simp
  qed
qed

text \<open>Opening, what is inside, and closing make the text of a container.\<close>

lemma reads_container:
  assumes o: "punctuation c" "\<And>p. wants p \<Longrightarrow> parse_step (Punct c) p = (enter u p)\<lparr>pstate := st\<rparr>"
    and inside: "\<And>p. wants p \<Longrightarrow> room_used p + json_depth v \<le> json_max_depth \<Longrightarrow>
      eats rd s ((enter u p)\<lparr>pstate := st\<rparr>) (place v p)"
  shows "reads_as rd (fst (indent c t) @ s) v"
  unfolding reads_as_def
proof (intro allI impI, elim conjE)
  fix p :: "'a parser" and line r
  assume p: "wants p" "room_used p + json_depth v \<le> json_max_depth" and r: "number_end r"
  let ?e = "(enter u p)\<lparr>pstate := st\<rparr>"
  have on: "goes_on p" using wants_goes_on[OF p(1)] p(2) by simp
  obtain a b where i: "fst (indent c t) = a @ [c] @ b" "blank a" "blank b" using indent_text[OF o(1)] by blast
  obtain l1 where "parse_result rd p line (a @ c # b @ s @ r) = parse_result rd p l1 (c # b @ s @ r)"
    using parse_result_blank[OF i(2)] by blast
  moreover have "parse_result rd p l1 (c # b @ s @ r) = parse_result rd ?e l1 (b @ s @ r)"
    using parse_result_step[OF on token_punct[OF o(1)]] o(2)[OF p(1)] by simp
  moreover obtain l2 where "parse_result rd ?e l1 (b @ s @ r) = parse_result rd ?e l2 (s @ r)"
    using parse_result_blank[OF i(3)] by blast
  moreover have "?e\<lparr>pkey := pkey ?e\<rparr> = ?e" by simp
  moreover obtain k' l' where "parse_result rd (?e\<lparr>pkey := pkey ?e\<rparr>) l2 (s @ r) =
      parse_result rd ((place v p)\<lparr>pkey := k'\<rparr>) l' r"
    using inside[OF p] r unfolding eats_if_def by blast
  ultimately show "\<exists>k' line'. parse_result rd p line ((fst (indent c t) @ s) @ r) =
      parse_result rd ((place v p)\<lparr>pkey := k'\<rparr>) line' r"
    unfolding i(1) by auto
qed

lemma depth_members:
  "x \<in> set xs \<Longrightarrow> json_depth x < json_depth (Array xs)" "(k, x) \<in> set m \<Longrightarrow> json_depth x < json_depth (Object m)"
proof -
  show "x \<in> set xs \<Longrightarrow> json_depth x < json_depth (Array xs)" by (induction xs) (auto simp: less_Suc_eq_le max_def)
  show "(k, x) \<in> set m \<Longrightarrow> json_depth x < json_depth (Object m)"
    by (induction m) (auto simp: less_Suc_eq_le max_def split: prod.splits)
qed

lemma reads_array:
  fixes xs :: "'n json list"
  assumes "write_elements sh t' xs = Some s"
    and "\<forall>x \<in> set xs. \<forall>a. write_value sh t' x = Some a \<longrightarrow> reads_as rd a x"
  shows "reads_as rd (fst (indent (CHR ''['') t) @ s @ fst (indent (CHR '']'') t')) (Array xs)"
proof (rule reads_container)
  fix p :: "'n parser"
  assume p: "wants p" "room_used p + json_depth (Array xs) \<le> json_max_depth"
  then have d: "Suc (room_used p) \<le> json_max_depth" by simp
  let ?e = "enter (Array []) p"
  have close: "st = Array_value_or_close_expected \<or> st = Array_close_or_comma_expected \<Longrightarrow>
      eats_any rd (fst (indent (CHR '']'') t')) ((enter (Array xs) p)\<lparr>pstate := st\<rparr>) (place (Array xs) p)" for st
    by (rule eats_close[OF p(1) d]; elim disjE) (simp_all add: punctuation_def parse_step_def step_element_def)
  show "eats rd (s @ fst (indent (CHR '']'') t')) (?e\<lparr>pstate := Array_value_or_close_expected\<rparr>) (place (Array xs) p)"
  proof (cases "xs = []")
    case True
    then show ?thesis using assms(1) eats_weaken[OF close] by simp
  next
    case False
    have m: "\<forall>x \<in> set xs. length (stack ?e) + json_depth x \<le> json_max_depth \<and>
        (\<forall>a. write_value sh t' x = Some a \<longrightarrow> reads_as rd a x)"
      using assms(2) depth_members(1)[of _ xs] enter_room[OF p(1)] p(2) by fastforce
    have "eats rd s (holding (Array []) Array_value_or_close_expected ?e)
        (holding (Array ([] @ xs)) Array_close_or_comma_expected ?e)"
      by (rule eats_elements[OF assms(1) False enter_in(1)[OF p(1) d] m])
    then have "eats rd s (?e\<lparr>pstate := Array_value_or_close_expected\<rparr>)
        ((enter (Array xs) p)\<lparr>pstate := Array_close_or_comma_expected\<rparr>)"
      by (simp add: enter_holding[OF p(1)])
    then show ?thesis
      by (rule eats_append[OF _ eats_weaken[OF close]]) (simp_all add: indent_number_end)
  qed
qed (simp_all add: punctuation_def enter_step)

lemma reads_object:
  fixes m :: "(string \<times> 'n json) list"
  assumes "write_members sh t' m = Some s" "omap_ok m"
    and "\<forall>(k, x) \<in> set m. text_ok k \<and> (\<forall>a. write_value sh t' x = Some a \<longrightarrow> reads_as rd a x)"
  shows "reads_as rd (fst (indent (CHR ''{'') t) @ s @ fst (indent (CHR ''}'') t')) (Object m)"
proof (rule reads_container)
  fix p :: "'n parser"
  assume p: "wants p" "room_used p + json_depth (Object m) \<le> json_max_depth"
  then have d: "Suc (room_used p) \<le> json_max_depth" by simp
  let ?e = "enter (Object []) p"
  have close: "st = Key_or_close_expected \<or> st = Object_close_or_comma_expected \<Longrightarrow>
      eats_any rd (fst (indent (CHR ''}'') t')) ((enter (Object m) p)\<lparr>pstate := st\<rparr>) (place (Object m) p)" for st
    by (rule eats_close[OF p(1) d]; elim disjE) (simp_all add: punctuation_def parse_step_def step_key_def)
  show "eats rd (s @ fst (indent (CHR ''}'') t')) (?e\<lparr>pstate := Key_or_close_expected\<rparr>) (place (Object m) p)"
  proof (cases "m = []")
    case True
    then show ?thesis using assms(1) eats_weaken[OF close] by simp
  next
    case False
    have m: "\<forall>(k, x) \<in> set m. text_ok k \<and> length (stack ?e) + json_depth x \<le> json_max_depth \<and>
        (\<forall>a. write_value sh t' x = Some a \<longrightarrow> reads_as rd a x)"
      using assms(3) depth_members(2)[of _ _ m] enter_room[OF p(1)] p(2) by fastforce
    have "eats rd s (holding (Object []) Key_or_close_expected ?e)
        (holding (Object ([] @ m)) Object_close_or_comma_expected ?e)"
      by (rule eats_members[OF assms(1) False enter_in(2)[OF p(1) d] m]) (simp add: assms(2))
    then have "eats rd s (?e\<lparr>pstate := Key_or_close_expected\<rparr>)
        ((enter (Object m) p)\<lparr>pstate := Object_close_or_comma_expected\<rparr>)"
      by (simp add: enter_holding[OF p(1)])
    then show ?thesis
      by (rule eats_append[OF _ eats_weaken[OF close]]) (simp_all add: indent_number_end)
  qed
qed (simp_all add: punctuation_def enter_step)

lemma printed_value_reads:
  "write_value sh t v = Some s \<Longrightarrow> json_ok (number_ok rd sh) v \<Longrightarrow> reads_as rd s v"
proof (induction v arbitrary: t s)
  case (Number n)
  then have "s = sh n" "number_ok rd sh n" by simp_all
  then show ?case
    by (intro reads_scalar[of "Number_token n"]) (auto simp: token_value_def intro: token_number)
next
  case (Str x)
  then show ?case by (intro reads_scalar[of "Str_token x"]) (auto simp: token_value_def text_ok_def token_string)
next
  case (Boolean b)
  then show ?case
    by (intro reads_scalar[of "if b then True_token else False_token"]) (auto simp: token_value_def token_words[simplified] split: if_splits)
next
  case Null
  then show ?case by (intro reads_scalar[of Null_token]) (auto simp: token_value_def token_words[simplified])
next
  case (Array xs)
  obtain o1 t' where i: "indent (CHR ''['') t = (o1, t')" by (cases "indent (CHR ''['') t")
  then obtain u where u: "write_elements sh t' xs = Some u" "s = o1 @ u @ fst (indent (CHR '']'') t')"
    using Array.prems(1) by (auto split: option.splits)
  have "\<forall>x \<in> set xs. \<forall>a. write_value sh t' x = Some a \<longrightarrow> reads_as rd a x"
    using Array by auto
  from reads_array[OF u(1) this, of t] show ?case using i u(2) by simp
next
  case (Object m)
  obtain o1 t' where i: "indent (CHR ''{'') t = (o1, t')" by (cases "indent (CHR ''{'') t")
  then obtain u where u: "write_members sh t' m = Some u" "s = o1 @ u @ fst (indent (CHR ''}'') t')"
    using Object.prems(1) by (auto split: option.splits)
  have "\<forall>(k, x) \<in> set m. text_ok k \<and> (\<forall>a. write_value sh t' x = Some a \<longrightarrow> reads_as rd a x)"
    using Object by fastforce
  from reads_object[OF u(1) _ this, of t] show ?case using i u(2) Object.prems(2) by simp
qed simp

lemma printable: "json_ok N v \<Longrightarrow> \<exists>s. write_value sh t v = Some s"
proof (induction v arbitrary: t)
  case (Array xs)
  have "\<exists>s. write_elements sh t ys = Some s" if "set ys \<subseteq> set xs" for t ys
    using that
  proof (induction ys)
    case (Cons y ys)
    then obtain a where "write_value sh t y = Some a" using Array.IH[of y t] Array.prems Cons.prems by auto
    then show ?case using Cons by auto
  qed simp
  then obtain s where "write_elements sh (snd (indent (CHR ''['') t)) xs = Some s" by blast
  then show ?case by (simp add: split_beta)
next
  case (Object m)
  have "\<exists>s. write_members sh t ys = Some s" if "set ys \<subseteq> set m" for t ys
    using that
  proof (induction ys)
    case (Cons y ys)
    obtain k x where y: "y = (k, x)" by (cases y)
    then have "(k, x) \<in> set m" using Cons.prems by auto
    then obtain a where "write_value sh t x = Some a" using Object.IH[of "(k, x)" x t] Object.prems by fastforce
    then show ?case using Cons y by auto
  qed simp
  then obtain s where "write_members sh (snd (indent (CHR ''{'') t)) m = Some s" by blast
  then show ?case by (simp add: split_beta)
qed simp_all

text \<open>
  Property C29. What is printed is read back: a value without undefined parts, with valid UTF-8
  text and at most 512 containers inside each other can be printed, indented or not, and the
  parser makes exactly this value of the text, provided each of its numbers is read back as it
  is printed (which 16 digits do not give for every double).
\<close>

theorem json_round_trip:
  assumes "json_ok (number_ok rd sh) v" "json_depth v \<le> json_max_depth"
  shows "\<exists>s. save_json sh readable v = Some s \<and> load_json rd True s = Inr v"
proof -
  obtain s where s: "save_json sh readable v = Some s"
    using printable[OF assms(1)] unfolding save_json_def by blast
  then have "reads_as rd s v" using printed_value_reads[OF _ assms(1)] unfolding save_json_def by blast
  moreover have "wants new_parser" "room_used new_parser = 0" by (simp_all add: wants_def new_parser_def room_used_def)
  moreover have "number_end []" by (simp add: number_end_def)
  ultimately obtain k l where "parse_result rd new_parser 1 (s @ []) =
      parse_result rd ((place v new_parser)\<lparr>pkey := k\<rparr>) l []"
    using assms(2) unfolding reads_as_def by (metis add_0)
  then have "parse_result rd new_parser 1 s = Some v"
    by (simp add: place_def new_parser_def pop_frame_def parse_result_def parse_loop.simps[of rd] goes_on_def)
  then show ?thesis using s by (simp add: load_json_result)
qed

definition read_digits :: "int reader" where
  "read_digits s = (let d = takeWhile is_digit s in if d = [] then None else Some (digits_val d, length d))"

lemma digit_number_ok: "number_ok read_digits dec 7"
proof -
  have d: "dec 7 = ''7''" "digits_val ''7'' = 7" "is_digit (CHR ''7'')" "number_start (CHR ''7'')" by code_simp+
  have "takeWhile is_digit r = []" if "number_end r" for r
  proof (cases r)
    case (Cons c q)
    have "\<forall>c \<in> set [CHR '','', CHR '']'', CHR ''}'', CHR 10]. \<not> is_digit c" by code_simp
    then show ?thesis using that Cons by (auto simp: number_end_def)
  qed simp
  then show ?thesis using d by (auto simp: number_ok_def read_digits_def)
qed

lemma json_round_trip_witness:
  "\<exists>s. save_json dec True (Object [(''a'', Array [Number 7, Null, Str [CHR 0x22, CHR 10]]), (''b'', Boolean True)]) = Some s \<and>
     load_json read_digits True s =
       Inr (Object [(''a'', Array [Number 7, Null, Str [CHR 0x22, CHR 10]]), (''b'', Boolean True)])"
proof (rule json_round_trip)
  have "text_ok ''a''" "text_ok ''b''" "text_ok [CHR 0x22, CHR 10]"
    "omap_ok [(''a'', ()), (''b'', ())]" by code_simp+
  then show "json_ok (number_ok read_digits dec)
      (Object [(''a'', Array [Number 7, Null, Str [CHR 0x22, CHR 10]]), (''b'', Boolean True)])"
    using digit_number_ok by (simp add: omap_ok_def)
  show "json_depth (Object [(''a'', Array [Number (7::int), Null, Str [CHR 0x22, CHR 10]]), (''b'', Boolean True)]) \<le> json_max_depth"
    by (simp add: json_max_depth_def)
qed

end
