(* ===== verification/Md5.thy ===== *)
theory Md5
  imports Prelude "HOL-Library.Word"
begin

unbundle bit_operations_syntax

text \<open>
  The message digest of \<open>src/md5.cpp\<close> as \<open>crypto.cpp\<close> uses it: a message is given piece by piece,
  whole blocks are processed as soon as they are complete, and \<open>md5_finish\<close> pads. Bytes are
  characters; the words are 32 bits wide and wrap around.
\<close>

section \<open>Chained blocks\<close>

text \<open>Reference: a compression function folded over the whole blocks of a message.\<close>

function chain :: "('h \<Rightarrow> string \<Rightarrow> 'h) \<Rightarrow> 'h \<Rightarrow> string \<Rightarrow> 'h" where
  "chain f h m = (if length m < 64 then h else chain f (f h (take 64 m)) (drop 64 m))"
  by pat_completeness auto
termination by (relation "measure (\<lambda>(_, _, m). length m)") auto

declare chain.simps [simp del]

lemma chain_short [simp]: "length m < 64 \<Longrightarrow> chain f h m = h"
  by (simp add: chain.simps)

lemma chain_block: "length b = 64 \<Longrightarrow> chain f h (b @ m) = chain f (f h b) m"
  by (simp add: chain.simps[of f h "b @ m"])

lemma chain_append: "length a mod 64 = 0 \<Longrightarrow> chain f h (a @ m) = chain f (chain f h a) m"
proof (induction f h a rule: chain.induct)
  case (1 f h a)
  show ?case
  proof (cases "length a < 64")
    case True
    then have "a = []" using 1(2) by simp
    then show ?thesis by simp
  next
    case False
    define b c where "b = take 64 a" and "c = drop 64 a"
    have a: "a = b @ c" "length b = 64" "length c mod 64 = 0"
      using False 1(2) by (auto simp: b_def c_def le_mod_geq[symmetric])
    have "chain f (f h b) (c @ m) = chain f (chain f (f h b) c) m"
      using 1(1)[OF False] a(3) by (simp add: b_def c_def)
    then show ?thesis unfolding a(1) by (simp add: chain_block[OF a(2)])
  qed
qed

text \<open>The part of a message that is still to be processed.\<close>

definition tail_of :: "string \<Rightarrow> string" where
  "tail_of m = drop (length m - length m mod 64) m"

lemma tail_of_split:
  obtains a where "m = a @ tail_of m" "length a mod 64 = 0" "length (tail_of m) = length m mod 64"
proof -
  let ?k = "length m - length m mod 64"
  have "?k mod 64 = 0" by (simp add: minus_mod_eq_mult_div)
  then show ?thesis
    using that[of "take ?k m"] by (simp add: tail_of_def)
qed

lemma tail_of_append:
  assumes "length a mod 64 = 0"
  shows "tail_of (a @ b) = tail_of b"
proof -
  have "(length a + length b) mod 64 = length b mod 64" using assms by (metis add_0 mod_add_left_eq)
  moreover have "length b mod 64 \<le> length b" by simp
  ultimately show ?thesis by (simp add: tail_of_def)
qed

lemma tail_of_short: "length m < 64 \<Longrightarrow> tail_of m = m"
  by (simp add: tail_of_def)

lemma chain_tail: "chain f h (m @ d) = chain f (chain f h m) (tail_of m @ d)"
proof -
  obtain a where a: "m = a @ tail_of m" "length a mod 64 = 0" "length (tail_of m) = length m mod 64"
    by (rule tail_of_split)
  have "chain f h m = chain f h a"
    by (subst a(1)) (simp only: chain_append[OF a(2)], simp add: a(3))
  then show ?thesis by (subst a(1)) (simp add: chain_append[OF a(2)])
qed

lemma tail_tail: "tail_of (m @ d) = tail_of (tail_of m @ d)"
proof -
  obtain a where a: "m = a @ tail_of m" "length a mod 64 = 0" by (rule tail_of_split)
  show ?thesis by (subst a(1)) (simp add: tail_of_append[OF a(2)])
qed

lemma length_tail: "length (tail_of m) = length m mod 64"
  by (metis tail_of_split)

section \<open>MD5\<close>

type_synonym word32 = "32 word"
type_synonym md5_words = "word32 \<times> word32 \<times> word32 \<times> word32"

record md5_state =
  count0 :: word32
  count1 :: word32
  abcd :: md5_words
  buf :: string

definition md5_T :: "word32 list" where
  "md5_T =
     [0xd76aa478, 0xe8c7b756, 0x242070db, 0xc1bdceee, 0xf57c0faf, 0x4787c62a, 0xa8304613, 0xfd469501,
      0x698098d8, 0x8b44f7af, 0xffff5bb1, 0x895cd7be, 0x6b901122, 0xfd987193, 0xa679438e, 0x49b40821,
      0xf61e2562, 0xc040b340, 0x265e5a51, 0xe9b6c7aa, 0xd62f105d, 0x02441453, 0xd8a1e681, 0xe7d3fbc8,
      0x21e1cde6, 0xc33707d6, 0xf4d50d87, 0x455a14ed, 0xa9e3e905, 0xfcefa3f8, 0x676f02d9, 0x8d2a4c8a,
      0xfffa3942, 0x8771f681, 0x6d9d6122, 0xfde5380c, 0xa4beea44, 0x4bdecfa9, 0xf6bb4b60, 0xbebfbc70,
      0x289b7ec6, 0xeaa127fa, 0xd4ef3085, 0x04881d05, 0xd9d4d039, 0xe6db99e5, 0x1fa27cf8, 0xc4ac5665,
      0xf4292244, 0x432aff97, 0xab9423a7, 0xfc93a039, 0x655b59c3, 0x8f0ccc92, 0xffeff47d, 0x85845dd1,
      0x6fa87e4f, 0xfe2ce6e0, 0xa3014314, 0x4e0811a1, 0xf7537e82, 0xbd3af235, 0x2ad7d2bb, 0xeb86d391]"

definition rotate_left :: "word32 \<Rightarrow> nat \<Rightarrow> word32" where
  "rotate_left x n = push_bit n x OR drop_bit (32 - n) x"

definition md5_F :: "word32 \<Rightarrow> word32 \<Rightarrow> word32 \<Rightarrow> word32" where
  "md5_F x y z = (x AND y) OR (NOT x AND z)"

definition md5_G :: "word32 \<Rightarrow> word32 \<Rightarrow> word32 \<Rightarrow> word32" where
  "md5_G x y z = (x AND z) OR (y AND NOT z)"

definition md5_H :: "word32 \<Rightarrow> word32 \<Rightarrow> word32 \<Rightarrow> word32" where
  "md5_H x y z = x XOR y XOR z"

definition md5_I :: "word32 \<Rightarrow> word32 \<Rightarrow> word32 \<Rightarrow> word32" where
  "md5_I x y z = y XOR (x OR NOT z)"

text \<open>The words \<open>X[k]\<close> of a block, least significant byte first.\<close>

definition md5_X :: "string \<Rightarrow> nat \<Rightarrow> word32" where
  "md5_X block k = word_of_nat (le_val (take 4 (drop (4 * k) block)))"

text \<open>
  \<open>SET\<close>: it changes its first register; the next one is called with the registers turned by one.
\<close>

definition md5_set :: "(word32 \<Rightarrow> word32 \<Rightarrow> word32 \<Rightarrow> word32) \<Rightarrow> string \<Rightarrow> nat \<times> nat \<times> word32 \<Rightarrow> md5_words \<Rightarrow> md5_words" where
  "md5_set f block = (\<lambda>(k, s, t) (a, b, c, d). (d, rotate_left (a + f b c d + md5_X block k + t) s + b, b, c))"

text \<open>The order of the words and the shifts of the four rounds.\<close>

definition md5_round :: "nat list \<Rightarrow> nat list \<Rightarrow> word32 list \<Rightarrow> (nat \<times> nat \<times> word32) list" where
  "md5_round ks shifts ts = zip ks (zip (concat (replicate 4 shifts)) ts)"

definition md5_compress :: "md5_words \<Rightarrow> string \<Rightarrow> md5_words" where
  "md5_compress h block =
     (case fold (md5_set md5_I block)
             (md5_round [0, 7, 14, 5, 12, 3, 10, 1, 8, 15, 6, 13, 4, 11, 2, 9] [6, 10, 15, 21] (drop 48 md5_T))
          (fold (md5_set md5_H block)
             (md5_round [5, 8, 11, 14, 1, 4, 7, 10, 13, 0, 3, 6, 9, 12, 15, 2] [4, 11, 16, 23] (take 16 (drop 32 md5_T)))
          (fold (md5_set md5_G block)
             (md5_round [1, 6, 11, 0, 5, 10, 15, 4, 9, 14, 3, 8, 13, 2, 7, 12] [5, 9, 14, 20] (take 16 (drop 16 md5_T)))
          (fold (md5_set md5_F block)
             (md5_round [0, 1, 2, 3, 4, 5, 6, 7, 8, 9, 10, 11, 12, 13, 14, 15] [7, 12, 17, 22] (take 16 md5_T)) h))) of
        (a, b, c, d) \<Rightarrow> (case h of (a0, b0, c0, d0) \<Rightarrow> (a0 + a, b0 + b, c0 + c, d0 + d)))"

definition md5_process :: "md5_state \<Rightarrow> string \<Rightarrow> md5_state" where
  "md5_process s block = s\<lparr>abcd := md5_compress (abcd s) block\<rparr>"

definition md5_iv :: md5_words where
  "md5_iv = (0x67452301, 0xefcdab89, 0x98badcfe, 0x10325476)"

text \<open>\<open>md5_init\<close>; the buffer keeps whatever it has.\<close>

definition md5_init :: "string \<Rightarrow> md5_state" where
  "md5_init garbage = \<lparr>count0 = 0, count1 = 0, abcd = md5_iv, buf = garbage\<rparr>"

text \<open>Full blocks and the final partial block.\<close>

function md5_blocks :: "md5_state \<Rightarrow> string \<Rightarrow> md5_state" where
  "md5_blocks s p =
     (if length p \<ge> 64 then md5_blocks (md5_process s (take 64 p)) (drop 64 p)
      else s\<lparr>buf := p @ drop (length p) (buf s)\<rparr>)"
  by pat_completeness auto
termination by (relation "measure (\<lambda>(_, p). length p)") auto

declare md5_blocks.simps [simp del]

definition md5_count :: "int \<Rightarrow> md5_state \<Rightarrow> md5_state" where
  "md5_count nbytes s =
     (let nbits = word_of_int nbytes * 8; c0 = count0 s + nbits;
          c1 = count1 s + word_of_int (nbytes div 2 ^ 29)
      in s\<lparr>count0 := c0, count1 := if c0 < nbits then c1 + 1 else c1\<rparr>)"

definition md5_append :: "md5_state \<Rightarrow> string \<Rightarrow> md5_state" where
  "md5_append s data =
     (let nbytes = to_int32 (int (length data)); p = take (nat nbytes) data;
          offset = unat (drop_bit 3 (count0 s) AND 63)
      in if nbytes \<le> 0 then s
         else
           let s = md5_count nbytes s in
           if offset = 0 then md5_blocks s p
           else
             let copy = (if offset + nat nbytes > 64 then 64 - offset else nat nbytes);
                 s = s\<lparr>buf := take offset (buf s) @ take copy p @ drop (offset + copy) (buf s)\<rparr>
             in if offset + copy < 64 then s
                else md5_blocks (md5_process s (buf s)) (drop copy p))"

definition md5_bytes :: "md5_words \<Rightarrow> string" where
  "md5_bytes h = (case h of (a, b, c, d) \<Rightarrow>
     le_bytes 4 (unat a) @ le_bytes 4 (unat b) @ le_bytes 4 (unat c) @ le_bytes 4 (unat d))"

definition md5_finish :: "md5_state \<Rightarrow> string \<times> md5_state" where
  "md5_finish s =
     (let data = le_bytes 4 (unat (count0 s)) @ le_bytes 4 (unat (count1 s));
          n = unat ((55 - drop_bit 3 (count0 s)) AND 63) + 1;
          s1 = md5_append s (take n (CHR 0x80 # replicate 63 (CHR 0x00)));
          s2 = md5_append s1 data
      in (md5_bytes (abcd s2), s2))"

text \<open>\<open>md5_digets::readout\<close> starts over.\<close>

definition md5_readout :: "md5_state \<Rightarrow> string \<times> md5_state" where
  "md5_readout s = (case md5_finish s of (d, s') \<Rightarrow> (d, md5_init (buf s')))"

section \<open>The digest of a message\<close>

text \<open>The message with its padding, and the digest of it in one piece.\<close>

definition md5_padded :: "string \<Rightarrow> string" where
  "md5_padded m = m @ (CHR 0x80 # replicate ((119 - length m mod 64) mod 64) (CHR 0x00)) @ le_bytes 8 (8 * length m)"

definition md5_spec :: "string \<Rightarrow> string" where
  "md5_spec m = md5_bytes (chain md5_compress md5_iv (md5_padded m))"

definition md5_has :: "md5_state \<Rightarrow> string \<Rightarrow> bool" where
  "md5_has s m \<longleftrightarrow>
     abcd s = chain md5_compress md5_iv m \<and> length (buf s) = 64 \<and>
     take (length m mod 64) (buf s) = tail_of m \<and>
     unat (count0 s) + 2 ^ 32 * unat (count1 s) = 8 * length m mod 2 ^ 64"

lemma md5_init_has: "length garbage = 64 \<Longrightarrow> md5_has (md5_init garbage) []"
  by (simp add: md5_has_def md5_init_def tail_of_def)

lemma md5_blocks_result:
  "length (buf s) = 64 \<Longrightarrow>
     abcd (md5_blocks s p) = chain md5_compress (abcd s) p \<and> length (buf (md5_blocks s p)) = 64 \<and>
     take (length p mod 64) (buf (md5_blocks s p)) = tail_of p \<and>
     count0 (md5_blocks s p) = count0 s \<and> count1 (md5_blocks s p) = count1 s"
proof (induction s p rule: md5_blocks.induct)
  case (1 s p)
  show ?case
  proof (cases "length p \<ge> 64")
    case True
    define b c where "b = take 64 p" and "c = drop 64 p"
    have p: "p = b @ c" "length b = 64" using True by (simp_all add: b_def c_def)
    have "length (buf (md5_process s b)) = 64" using 1(2) by (simp add: md5_process_def)
    from 1(1)[OF True, folded b_def c_def, OF this] show ?thesis
      unfolding md5_blocks.simps[of s p] using True
      by (simp add: b_def[symmetric] c_def[symmetric] p(1) chain_block[OF p(2)] tail_of_append p(2) md5_process_def)
  next
    case False
    then show ?thesis using 1(2) by (simp add: md5_blocks.simps[of s p] tail_of_short)
  qed
qed

text \<open>The length, in 64 bits kept in two words.\<close>

lemma two_words:
  fixes x y :: nat
  assumes "x < 2 ^ 32"
  shows "x + 2 ^ 32 * (y mod 2 ^ 32) = (x + 2 ^ 32 * y) mod 2 ^ 64"
proof -
  have "(x + 2 ^ 32 * y) mod (2 ^ 32 * 2 ^ 32) =
      2 ^ 32 * ((x + 2 ^ 32 * y) div 2 ^ 32 mod 2 ^ 32) + (x + 2 ^ 32 * y) mod 2 ^ 32"
    by (rule mod_mult2_eq)
  then show ?thesis using assms by simp
qed

lemma md5_count_sum:
  assumes n: "0 \<le> n" "n < 2 ^ 31" and c: "unat (count0 s) + 2 ^ 32 * unat (count1 s) = 8 * m mod 2 ^ 64"
  shows "unat (count0 (md5_count n s)) + 2 ^ 32 * unat (count1 (md5_count n s)) = 8 * (m + nat n) mod 2 ^ 64"
proof -
  define N a b where "N = nat n" and "a = unat (count0 s)" and "b = unat (count1 s)"
  define lo hi where "lo = 8 * N mod 2 ^ 32" and "hi = N div 2 ^ 29"
  have nN: "n = int N" using n by (simp add: N_def)
  have N: "N < 2 ^ 31" using n by (simp add: N_def)
  have "8 * N div (8 * 2 ^ 29) = N div 2 ^ 29" by (rule div_mult_mult1) simp
  then have split: "8 * N = 2 ^ 32 * hi + lo" unfolding lo_def hi_def
    using div_mult_mod_eq[of "8 * N" "2 ^ 32"] by simp
  define nbits :: word32 where "nbits = word_of_int n * 8"
  have nb: "nbits = word_of_nat (8 * N)" by (simp add: nbits_def nN)
  have lo: "unat nbits = lo" unfolding nb lo_def unat_of_nat by (simp only: len_num1 len_bit0 mult_2 numeral_plus_numeral) simp
  have h: "(word_of_int (n div 2 ^ 29) :: word32) = word_of_nat hi"
  proof -
    have "n div 2 ^ 29 = int hi" by (simp add: nN hi_def zdiv_int)
    then show ?thesis by (simp only: of_int_of_nat_eq)
  qed
  have lt: "lo < 2 ^ 32" "a < 2 ^ 32" "b < 2 ^ 32"
    using unsigned_less[of "count0 s"] unsigned_less[of "count1 s"] by (simp_all add: lo_def a_def b_def)
  have c0: "unat (count0 s + nbits) = (a + lo) mod 2 ^ 32"
    by (simp add: unat_word_ariths lo a_def)
  have carry: "count0 s + nbits < nbits \<longleftrightarrow> a + lo \<ge> 2 ^ 32"
  proof -
    have "count0 s + nbits < nbits \<longleftrightarrow> (a + lo) mod 2 ^ 32 < lo" by (simp add: word_less_nat_alt c0 lo)
    moreover have "(a + lo) mod 2 ^ 32 = (if a + lo < 2 ^ 32 then a + lo else a + lo - 2 ^ 32)"
      using lt by (simp add: mod_if)
    ultimately show ?thesis using lt by auto
  qed
  have u1: "unat (word_of_nat hi :: word32) = hi" using N by (simp add: unat_of_nat hi_def div_less_iff_less_mult)
  let ?k = "if a + lo \<ge> 2 ^ 32 then 1 else 0 :: nat"
  have c1: "unat (count1 (md5_count n s)) = (b + hi + ?k) mod 2 ^ 32"
  proof -
    have "unat (count1 s + word_of_nat hi) = (b + hi) mod 2 ^ 32" by (simp add: unat_word_ariths u1 b_def)
    then have "unat (count1 s + word_of_nat hi + 1) = (b + hi + 1) mod 2 ^ 32"
      by (simp add: unat_word_ariths mod_Suc_eq)
    then show ?thesis
      using carry \<open>unat (count1 s + word_of_nat hi) = (b + hi) mod 2 ^ 32\<close>
      unfolding md5_count_def Let_def h nbits_def[symmetric] by simp
  qed
  have "count0 (md5_count n s) = count0 s + nbits" by (simp add: md5_count_def Let_def nbits_def)
  then have "unat (count0 (md5_count n s)) + 2 ^ 32 * unat (count1 (md5_count n s)) =
      ((a + lo) mod 2 ^ 32 + 2 ^ 32 * (b + hi + ?k)) mod 2 ^ 64"
    by (simp only: c0 c1, intro two_words) simp
  also have "(a + lo) mod 2 ^ 32 + 2 ^ 32 * (b + hi + ?k) = a + lo + 2 ^ 32 * (b + hi)"
    using lt by (cases "a + lo < 2 ^ 32") (simp_all add: le_mod_geq)
  also have "\<dots> = (a + 2 ^ 32 * b) + 8 * N" by (simp add: split)
  also have "\<dots> mod 2 ^ 64 = (8 * m + 8 * N) mod 2 ^ 64" using c by (simp add: a_def b_def mod_add_left_eq)
  finally show ?thesis by (simp add: N_def)
qed

lemma and_63: "w AND 63 = take_bit 6 (w :: word32)"
  by (simp add: take_bit_eq_mask mask_eq_exp_minus_1)

lemma uint_and_63: "uint ((w :: word32) AND 63) = uint w mod 64"
  unfolding and_63 unsigned_take_bit_eq by (simp add: take_bit_eq_mod)

lemma unat_and_63: "unat ((w :: word32) AND 63) = unat w mod 64"
  unfolding and_63 unsigned_take_bit_eq by (simp add: take_bit_eq_mod)

lemma md5_offset:
  assumes "unat (count0 s) + 2 ^ 32 * unat (count1 s) = 8 * m mod 2 ^ 64"
  shows "unat (drop_bit 3 (count0 s)) = m mod 2 ^ 29" "unat (drop_bit 3 (count0 s) AND 63) = m mod 64"
proof -
  have "unat (count0 s) < 2 ^ 32" using unsigned_less[where 'a=nat and w="count0 s"] by simp
  then have "unat (count0 s) = unat (count0 s) mod 2 ^ 32" by (simp only: mod_less)
  also have "\<dots> = (unat (count0 s) + 2 ^ 32 * unat (count1 s)) mod 2 ^ 32" by simp
  also have "\<dots> = 8 * m mod 2 ^ 32" unfolding assms by (simp add: mod_mod_cancel)
  also have "\<dots> = 8 * (m mod 2 ^ 29)" using mult_mod_right[of 8 m "2 ^ 29"] by simp
  finally have u: "unat (count0 s) = 8 * (m mod 2 ^ 29)" .
  show d: "unat (drop_bit 3 (count0 s)) = m mod 2 ^ 29"
    by (simp only: unat_drop_bit_eq u) (simp add: drop_bit_eq_div)
  show "unat (drop_bit 3 (count0 s) AND 63) = m mod 64"
    unfolding unat_and_63 d by (simp add: mod_mod_cancel)
qed

lemma md5_append_has:
  assumes h: "md5_has s m" and d: "length d < 2 ^ 31"
  shows "md5_has (md5_append s d) (m @ d)"
proof (cases "d = []")
  case True
  have "to_int32 0 = 0" by code_simp
  then show ?thesis using h True by (simp add: md5_append_def)
next
  case False
  let ?n = "int (length d)"
  define k where "k = length m mod 64"
  have n: "to_int32 ?n = ?n" using d by (intro to_int32_id) simp_all
  have hs: "abcd s = chain md5_compress md5_iv m" "length (buf s) = 64" "take k (buf s) = tail_of m"
    "unat (count0 s) + 2 ^ 32 * unat (count1 s) = 8 * length m mod 2 ^ 64"
    using h by (simp_all add: md5_has_def k_def)
  have k: "k < 64" "length (tail_of m) = k" by (simp_all add: k_def length_tail)
  let ?s = "md5_count ?n s"
  have cs: "abcd ?s = abcd s" "buf ?s = buf s" by (simp_all add: md5_count_def Let_def)
  have cnt: "unat (count0 ?s) + 2 ^ 32 * unat (count1 ?s) = 8 * length (m @ d) mod 2 ^ 64"
    using md5_count_sum[OF _ _ hs(4), of ?n] d by simp
  have off: "unat (drop_bit 3 (count0 s) AND 63) = k" using md5_offset(2)[OF hs(4)] by (simp add: k_def)
  have len: "length (tail_of m @ d) mod 64 = length (m @ d) mod 64"
    by (simp add: k(2) k_def mod_add_left_eq)
  have blocks: "md5_has t (m @ d)"
    if t: "t = md5_blocks u p" "length (buf u) = 64" "count0 u = count0 ?s" "count1 u = count1 ?s"
      "chain md5_compress (abcd u) p = chain md5_compress md5_iv (m @ d)" "tail_of p = tail_of (m @ d)"
      "length p mod 64 = length (m @ d) mod 64" for t u p
    using md5_blocks_result[OF t(2), of p] t cnt by (simp add: md5_has_def)
  have eq: "md5_append s d =
      (if k = 0 then md5_blocks ?s d
       else let copy = (if k + length d > 64 then 64 - k else length d);
                u = ?s\<lparr>buf := take k (buf ?s) @ take copy d @ drop (k + copy) (buf ?s)\<rparr>
            in if k + copy < 64 then u else md5_blocks (md5_process u (buf u)) (drop copy d))"
    using False unfolding md5_append_def n off Let_def by simp
  show ?thesis
  proof (cases "k = 0")
    case True
    then have "tail_of m = []" using k(2) by simp
    then have "tail_of (m @ d) = tail_of d" "chain md5_compress md5_iv (m @ d) = chain md5_compress (abcd s) d"
      using tail_tail[of m d] chain_tail[of md5_compress md5_iv m d] hs(1) by simp_all
    moreover have "length d mod 64 = length (m @ d) mod 64" using len \<open>tail_of m = []\<close> by simp
    ultimately show ?thesis using blocks[of "md5_append s d" ?s d] eq True cs hs(2) by simp
  next
    case k0: False
    show ?thesis
    proof (cases "k + length d < 64")
      case True
      let ?u = "?s\<lparr>buf := take k (buf ?s) @ d @ drop (k + length d) (buf ?s)\<rparr>"
      have "md5_append s d = ?u" using eq k0 True by (simp add: Let_def)
      moreover have "tail_of (m @ d) = tail_of m @ d"
        using tail_tail[of m d] True k(2) by (simp add: tail_of_short)
      moreover have "chain md5_compress md5_iv (m @ d) = abcd s"
        using chain_tail[of md5_compress md5_iv m d] True k(2) hs(1) by simp
      moreover have "length (m @ d) mod 64 = k + length d" using len True k(2) by simp
      ultimately show ?thesis using cnt cs hs k True by (simp add: md5_has_def)
    next
      case big: False
      define copy where "copy = 64 - k"
      have copy: "copy \<le> length d" "k + copy = 64" "(if k + length d > 64 then 64 - k else length d) = copy"
        using big k(1) by (auto simp: copy_def)
      define b c where "b = tail_of m @ take copy d" and "c = drop copy d"
      let ?u = "?s\<lparr>buf := b\<rparr>"
      have b: "length b = 64" "tail_of m @ d = b @ c" using copy k(2) by (simp_all add: b_def c_def)
      have "md5_append s d = md5_blocks (md5_process ?u b) c"
        unfolding eq copy(3) Let_def using k0 copy(2) hs(2,3) cs by (simp add: b_def c_def)
      moreover have "chain md5_compress (abcd (md5_process ?u b)) c = chain md5_compress md5_iv (m @ d)"
        using chain_tail[of md5_compress md5_iv m d] b hs(1) cs
        by (simp add: chain_block md5_process_def)
      moreover have "tail_of c = tail_of (m @ d)" using tail_tail[of m d] b tail_of_append[of b c] by simp
      moreover have "length c mod 64 = length (m @ d) mod 64" using len b by simp
      ultimately show ?thesis
        using blocks[of "md5_append s d" "md5_process ?u b" c] b(1) by (simp add: md5_process_def)
    qed
  qed
qed

text \<open>The number of padding bytes that \<open>md5_finish\<close> asks for is the one of the reference padding.\<close>

lemma md5_padding_count:
  assumes "unat (drop_bit 3 (c :: word32)) = l mod 2 ^ 29"
  shows "unat ((55 - drop_bit 3 c) AND 63) = (119 - l mod 64) mod 64"
proof -
  define x where "x = drop_bit 3 c"
  have "uint (55 - x) mod 64 = (55 - uint x) mod 64"
    by (simp add: uint_word_ariths mod_mod_cancel)
  also have "\<dots> = (55 - int (l mod 2 ^ 29)) mod 64"
    using assms by (metis x_def uint_nat)
  also have "\<dots> = (55 - int l mod 64) mod 64"
    by (simp add: zmod_int mod_diff_right_eq[symmetric, of 55 "int l mod 536870912"] mod_mod_cancel mod_diff_right_eq)
  also have "\<dots> = (119 - int (l mod 64)) mod 64"
    using mod_add_self2[of "55 - int l mod 64" 64] by (simp add: zmod_int algebra_simps)
  finally have "uint (55 - x) mod 64 = int ((119 - l mod 64) mod 64)"
    by (simp add: zmod_int of_nat_diff less_imp_le_nat order.trans[OF less_imp_le[OF mod_less_divisor]])
  then have "uint ((55 - x) AND 63) = int ((119 - l mod 64) mod 64)" unfolding uint_and_63 .
  then show ?thesis unfolding x_def by (metis nat_uint_eq nat_int)
qed

lemma le_bytes_mod: "le_bytes n (v mod 256 ^ n) = le_bytes n v"
proof (induction n arbitrary: v)
  case (Suc n)
  have "v mod (256 * 256 ^ n) mod 256 = v mod 256" by (simp add: mod_mod_cancel)
  moreover have "v mod (256 * 256 ^ n) div 256 = v div 256 mod 256 ^ n"
    by (simp add: mod_mult2_eq)
  ultimately show ?case by (simp add: Suc)
qed simp

lemma le_bytes_split: "le_bytes (a + b) v = le_bytes a v @ le_bytes b (v div 256 ^ a)"
  by (induction a arbitrary: v) (simp_all add: div_mult2_eq)

lemma le_bytes_words:
  assumes "a + 2 ^ 32 * b = n mod 2 ^ 64" "a < 2 ^ 32"
  shows "le_bytes 4 a @ le_bytes 4 b = le_bytes 8 n"
proof -
  have e: "256 ^ 8 = (2 ^ 64 :: nat)" "256 ^ 4 = (2 ^ 32 :: nat)" by simp_all
  have "le_bytes 8 n = le_bytes (4 + 4) (a + 2 ^ 32 * b)"
    using le_bytes_mod[of 8 n] unfolding e assms(1) by simp
  also have "\<dots> = le_bytes 4 (a + 2 ^ 32 * b) @ le_bytes 4 b"
    unfolding le_bytes_split e using assms(2) by simp
  also have "le_bytes 4 (a + 2 ^ 32 * b) = le_bytes 4 a"
    using le_bytes_mod[of 4 "a + 2 ^ 32 * b"] assms(2) unfolding e by simp
  finally show ?thesis ..
qed

lemma md5_finish_has:
  assumes h: "md5_has s m"
  shows "md5_has (snd (md5_finish s)) (md5_padded m)"
proof -
  let ?d = "le_bytes 4 (unat (count0 s)) @ le_bytes 4 (unat (count1 s))"
  let ?z = "(119 - length m mod 64) mod 64"
  let ?pad = "CHR 0x80 # replicate ?z (CHR 0x00)"
  have c: "unat (count0 s) + 2 ^ 32 * unat (count1 s) = 8 * length m mod 2 ^ 64"
    using h by (simp add: md5_has_def)
  have z: "unat ((55 - drop_bit 3 (count0 s)) AND 63) = ?z"
    by (rule md5_padding_count[OF md5_offset(1)[OF c]])
  have pad: "take (?z + 1) (CHR 0x80 # replicate 63 (CHR 0x00)) = ?pad" by simp
  have h2: "md5_has (md5_append (md5_append s ?pad) ?d) ((m @ ?pad) @ ?d)"
    by (intro md5_append_has h) (simp_all add: less_imp_le_nat order.strict_trans[OF mod_less_divisor])
  have d: "?d = le_bytes 8 (8 * length m)"
    using c unsigned_less[where 'a=nat and w="count0 s"] by (intro le_bytes_words) simp_all
  then show ?thesis
    using h2 unfolding md5_finish_def Let_def z pad md5_padded_def by simp
qed

lemma md5_finish_is_spec: "md5_has s m \<Longrightarrow> fst (md5_finish s) = md5_spec m"
  using md5_finish_has[of s m] by (simp add: md5_finish_def Let_def md5_spec_def md5_has_def)

section \<open>Streams of pieces\<close>

lemma md5_has_pieces:
  "md5_has s m \<Longrightarrow> \<forall>d\<in>set ds. length d < 2 ^ 31 \<Longrightarrow> md5_has (fold (\<lambda>d s. md5_append s d) ds s) (m @ concat ds)"
  by (induction ds arbitrary: s m) (use md5_append_has in fastforce, simp add: md5_append_has flip: append_assoc)

text \<open>
  Property C35. However a message is cut into the pieces that are appended (a file is read 4096 bytes
  at a time), the digest read out is the digest of the whole message, padded once: the blocks of the
  padded message folded through the compression function. The pieces only have to be shorter than
  2 GB each, as \<open>md5_append\<close> takes an \<open>int\<close>; the message may be of any length.
\<close>

theorem md5_of_pieces:
  assumes "length garbage = 64" "\<forall>d\<in>set ds. length d < 2 ^ 31"
  shows "fst (md5_readout (fold (\<lambda>d s. md5_append s d) ds (md5_init garbage))) = md5_spec (concat ds)"
  using md5_finish_is_spec[OF md5_has_pieces[OF md5_init_has[OF assms(1)] assms(2)]]
  by (simp add: md5_readout_def case_prod_beta)

lemma md5_of_pieces_witness:
  "fst (md5_readout (fold (\<lambda>d s. md5_append s d) [''a'', [], ''bc''] (md5_init (replicate 64 (CHR 0x00))))) = md5_spec ''abc''"
  using md5_of_pieces[of "replicate 64 (CHR 0x00)" "[''a'', [], ''bc'']"] by simp

end
