(* ===== verification/Session_Storage.thy ===== *)
theory Session_Storage
  imports Base64 Http_Util
begin

text \<open>
  Where a session's data is kept between two requests: \<open>session_memory_storage.cpp\<close> (the map
  in the server's memory), \<open>session_sid.cpp\<close> (the cookie carries a random identifier of an
  entry of a server storage), \<open>session_cookies.cpp\<close> with \<open>hmac_encryptor.cpp\<close> (the cookie
  carries the data and its authentication code) and \<open>session_dual.cpp\<close> (one or the other, by
  the size of the data). The storage behind \<open>session_sid\<close> is any storage with the laws of the
  locale \<open>session_storage\<close>; the memory storage is shown to have them. The keyed hash itself
  (\<open>crypto.cpp\<close> over MD5 or SHA-1) is the parameter \<open>mac\<close>.
\<close>

section \<open>The memory storage\<close>

record mem_storage =
  smap :: "string \<rightharpoonup> int \<times> string"
  stimeouts :: "(int \<times> string) list"

definition new_storage :: mem_storage where
  "new_storage = \<lparr>smap = Map.empty, stimeouts = []\<rparr>"

fun gc_loop :: "nat \<Rightarrow> int \<Rightarrow> mem_storage \<Rightarrow> mem_storage" where
  "gc_loop 0 now s = s"
| "gc_loop (Suc n) now s =
     (case stimeouts s of
        [] \<Rightarrow> s
      | (t, k) # rest \<Rightarrow>
          if t < now then gc_loop n now (s\<lparr>smap := (smap s)(k := None), stimeouts := rest\<rparr>)
          else s)"

definition short_gc :: "int \<Rightarrow> mem_storage \<Rightarrow> mem_storage" where
  "short_gc now s = gc_loop 5 now s"

definition storage_save :: "int \<Rightarrow> string \<Rightarrow> int \<Rightarrow> string \<Rightarrow> mem_storage \<Rightarrow> mem_storage" where
  "storage_save now key to v s =
     (case smap s key of
        None \<Rightarrow> short_gc now (s\<lparr>smap := (smap s)(key \<mapsto> (to, v)),
                               stimeouts := mmap_insert to key (stimeouts s)\<rparr>)
      | Some (old, _) \<Rightarrow>
          short_gc now (s\<lparr>smap := (smap s)(key \<mapsto> (to, v)),
                        stimeouts := mmap_insert to key (remove1 (old, key) (stimeouts s))\<rparr>))"

definition storage_load :: "int \<Rightarrow> string \<Rightarrow> mem_storage \<Rightarrow> (int \<times> string) option" where
  "storage_load now key s =
     (case smap s key of
        None \<Rightarrow> None
      | Some (to, v) \<Rightarrow> if to < now then None else Some (to, v))"

definition storage_remove :: "int \<Rightarrow> string \<Rightarrow> mem_storage \<Rightarrow> mem_storage" where
  "storage_remove now key s =
     (case smap s key of
        None \<Rightarrow> s
      | Some (to, _) \<Rightarrow> short_gc now (s\<lparr>smap := (smap s)(key := None),
                                         stimeouts := remove1 (to, key) (stimeouts s)\<rparr>))"

definition storage_ok :: "mem_storage \<Rightarrow> bool" where
  "storage_ok s \<longleftrightarrow> distinct (stimeouts s) \<and> sorted (map fst (stimeouts s)) \<and>
     (\<forall>t k. (t, k) \<in> set (stimeouts s) \<longleftrightarrow> (\<exists>v. smap s k = Some (t, v)))"

lemma storage_okD:
  "storage_ok s \<Longrightarrow> (t, k) \<in> set (stimeouts s) \<longleftrightarrow> (\<exists>v. smap s k = Some (t, v))"
  by (simp add: storage_ok_def)

lemma gc_loop_spec:
  "storage_ok s \<Longrightarrow> storage_ok (gc_loop n now s) \<and>
     smap (gc_loop n now s) \<subseteq>\<^sub>m smap s \<and>
     (\<forall>k. smap (gc_loop n now s) k \<noteq> smap s k \<longrightarrow> (\<exists>t v. smap s k = Some (t, v) \<and> t < now))"
proof (induction n now s rule: gc_loop.induct)
  case (2 n now s)
  show ?case
  proof (cases "stimeouts s")
    case (Cons p rest)
    obtain t k where p: "p = (t, k)" by (cases p)
    show ?thesis
    proof (cases "t < now")
      case True
      let ?s = "s\<lparr>smap := (smap s)(k := None), stimeouts := rest\<rparr>"
      from 2(2) Cons p obtain v where v: "smap s k = Some (t, v)"
        using storage_okD[of s t k] by auto
      have notin: "(t', k) \<notin> set rest" for t'
        using 2(2) Cons p v storage_okD[OF 2(2), of t' k] by (auto simp: storage_ok_def)
      have "storage_ok ?s"
        unfolding storage_ok_def
      proof (intro conjI allI)
        show "distinct (stimeouts ?s)" "sorted (map fst (stimeouts ?s))"
          using 2(2) Cons by (simp_all add: storage_ok_def)
        fix t' k'
        show "((t', k') \<in> set (stimeouts ?s)) = (\<exists>v. smap ?s k' = Some (t', v))"
          using notin[of t'] storage_okD[OF 2(2), of t' k'] Cons p by (cases "k' = k") auto
      qed
      from 2(1)[OF Cons[unfolded p] refl True this]
      have IH: "storage_ok (gc_loop n now ?s)" "smap (gc_loop n now ?s) \<subseteq>\<^sub>m smap ?s"
        "\<forall>k'. smap (gc_loop n now ?s) k' \<noteq> smap ?s k' \<longrightarrow> (\<exists>t v. smap ?s k' = Some (t, v) \<and> t < now)"
        by blast+
      have "smap ?s \<subseteq>\<^sub>m smap s" by (simp add: map_le_def)
      then have "smap (gc_loop n now ?s) \<subseteq>\<^sub>m smap s" using IH(2) map_le_trans by blast
      moreover have "\<exists>t v. smap s k' = Some (t, v) \<and> t < now"
        if ne: "smap (gc_loop n now ?s) k' \<noteq> smap s k'" for k'
        using ne IH(3)[rule_format, of k'] v True by (cases "k' = k") auto
      ultimately show ?thesis using IH(1) Cons p True by simp
    qed (use 2(2) Cons p in simp)
  qed (use 2(2) in simp)
qed simp

lemma short_gc_ok [inv_intros]: "storage_ok s \<Longrightarrow> storage_ok (short_gc now s)"
  by (simp add: short_gc_def gc_loop_spec)

lemma load_short_gc:
  assumes "storage_ok s" "now \<le> t"
  shows "storage_load t k (short_gc now s) = storage_load t k s"
proof (cases "smap (short_gc now s) k = smap s k")
  case True
  then show ?thesis by (simp add: storage_load_def)
next
  case False
  then obtain e v where "smap s k = Some (e, v)" "e < now"
    using gc_loop_spec[OF assms(1), of 5 now] by (auto simp: short_gc_def)
  moreover from this False have "smap (short_gc now s) k = None"
    using gc_loop_spec[OF assms(1), of 5 now]
    by (cases "smap (short_gc now s) k") (fastforce simp: short_gc_def map_le_def dom_def)+
  ultimately show ?thesis using assms(2) by (simp add: storage_load_def)
qed

lemma save_step_ok:
  assumes "storage_ok s" "\<And>t. (t, k) \<notin> set q" "distinct q" "sorted (map fst q)"
    "\<And>t k'. k' \<noteq> k \<Longrightarrow> (t, k') \<in> set q \<longleftrightarrow> (t, k') \<in> set (stimeouts s)"
  shows "storage_ok (s\<lparr>smap := (smap s)(k \<mapsto> (to, v)), stimeouts := mmap_insert to k q\<rparr>)"
  using assms storage_okD[OF assms(1)]
  by (auto simp: storage_ok_def set_mmap_insert distinct_mmap_insert sorted_mmap_insert)

lemma remove1_entry:
  assumes "storage_ok s" "smap s k = Some (old, w)"
  shows "(t, k) \<notin> set (remove1 (old, k) (stimeouts s))"
    and "distinct (remove1 (old, k) (stimeouts s))"
    and "sorted (map fst (remove1 (old, k) (stimeouts s)))"
    and "k' \<noteq> k \<Longrightarrow> (t, k') \<in> set (remove1 (old, k) (stimeouts s)) \<longleftrightarrow> (t, k') \<in> set (stimeouts s)"
  using assms storage_okD[OF assms(1), of t k]
  by (auto simp: storage_ok_def sorted_map_remove1)

lemma storage_save_step:
  assumes "storage_ok s"
  obtains q where "storage_save now k to v s =
      short_gc now (s\<lparr>smap := (smap s)(k \<mapsto> (to, v)), stimeouts := q\<rparr>)"
    "storage_ok (s\<lparr>smap := (smap s)(k \<mapsto> (to, v)), stimeouts := q\<rparr>)"
proof (cases "smap s k")
  case None
  then have "\<And>t. (t, k) \<notin> set (stimeouts s)" using storage_okD[OF assms] by simp
  then have "storage_ok (s\<lparr>smap := (smap s)(k \<mapsto> (to, v)), stimeouts := mmap_insert to k (stimeouts s)\<rparr>)"
    using assms by (intro save_step_ok) (auto simp: storage_ok_def)
  then show ?thesis using None that by (simp add: storage_save_def)
next
  case (Some p)
  obtain old w where p: "p = (old, w)" by (cases p)
  have "storage_ok (s\<lparr>smap := (smap s)(k \<mapsto> (to, v)),
      stimeouts := mmap_insert to k (remove1 (old, k) (stimeouts s))\<rparr>)"
    using remove1_entry[OF assms] Some p by (intro save_step_ok[OF assms]) auto
  then show ?thesis using Some p that by (simp add: storage_save_def)
qed

lemma storage_save_ok [inv_intros]: "storage_ok s \<Longrightarrow> storage_ok (storage_save now k to v s)"
  by (metis storage_save_step short_gc_ok)

lemma storage_load_save:
  assumes "storage_ok s" "now \<le> t"
  shows "storage_load t k' (storage_save now k to v s) =
     (if k' = k then (if to < t then None else Some (to, v)) else storage_load t k' s)"
proof -
  obtain q where q: "storage_save now k to v s =
      short_gc now (s\<lparr>smap := (smap s)(k \<mapsto> (to, v)), stimeouts := q\<rparr>)"
    "storage_ok (s\<lparr>smap := (smap s)(k \<mapsto> (to, v)), stimeouts := q\<rparr>)"
    using storage_save_step[OF assms(1)] by blast
  show ?thesis by (simp add: q(1) load_short_gc[OF q(2) assms(2)]) (simp add: storage_load_def)
qed

lemma remove_step_ok:
  assumes "storage_ok s" "smap s k = Some (to, v)"
  shows "storage_ok (s\<lparr>smap := (smap s)(k := None), stimeouts := remove1 (to, k) (stimeouts s)\<rparr>)"
  unfolding storage_ok_def
proof (intro conjI allI)
  fix t k'
  show "((t, k') \<in> set (stimeouts (s\<lparr>smap := (smap s)(k := None),
      stimeouts := remove1 (to, k) (stimeouts s)\<rparr>))) \<longleftrightarrow>
    (\<exists>w. smap (s\<lparr>smap := (smap s)(k := None), stimeouts := remove1 (to, k) (stimeouts s)\<rparr>) k' = Some (t, w))"
    using remove1_entry(1)[OF assms, of t] remove1_entry(4)[OF assms, of k' t] storage_okD[OF assms(1), of t k'] by (cases "k' = k") auto
qed (use remove1_entry[OF assms] in simp_all)

lemma storage_remove_ok [inv_intros]: "storage_ok s \<Longrightarrow> storage_ok (storage_remove now k s)"
  by (auto simp: storage_remove_def remove_step_ok short_gc_ok split: option.splits)

lemma storage_load_remove:
  assumes "storage_ok s" "now \<le> t"
  shows "storage_load t k' (storage_remove now k s) = (if k' = k then None else storage_load t k' s)"
proof (cases "smap s k")
  case (Some p)
  obtain to v where p: "p = (to, v)" by (cases p)
  have "storage_remove now k s =
      short_gc now (s\<lparr>smap := (smap s)(k := None), stimeouts := remove1 (to, k) (stimeouts s)\<rparr>)"
    by (simp add: storage_remove_def Some p)
  then show ?thesis
    using load_short_gc[OF remove_step_ok[OF assms(1)] assms(2)] Some p
    by (simp add: storage_load_def)
qed (auto simp: storage_remove_def storage_load_def)

lemma storage_load_live: "storage_load now k s = Some (to, v) \<Longrightarrow> now \<le> to"
  by (auto simp: storage_load_def split: option.splits if_splits)

section \<open>Storages\<close>

record 's storage_ops =
  op_save :: "int \<Rightarrow> string \<Rightarrow> int \<Rightarrow> string \<Rightarrow> 's \<Rightarrow> 's"
  op_load :: "int \<Rightarrow> string \<Rightarrow> 's \<Rightarrow> (int \<times> string) option"
  op_remove :: "int \<Rightarrow> string \<Rightarrow> 's \<Rightarrow> 's"

definition memory_ops :: "mem_storage storage_ops" where
  "memory_ops = \<lparr>op_save = storage_save, op_load = storage_load, op_remove = storage_remove\<rparr>"

section \<open>A session as its storage sees it\<close>

text \<open>
  The settings of \<open>cached_settings.h\<close> the session code reads, the keyed hash and the bytes of
  \<open>/dev/urandom\<close> (\<open>entropy i\<close> is the i-th byte it delivers).
\<close>

datatype location = Server_side | Client_side | Both_sides

record session_config =
  cookie_prefix :: string
  location_of :: location
  client_size_limit :: nat
  default_timeout :: int
  default_how :: int
  csrf_enable :: bool
  csrf_exposed :: bool
  remove_unknown_cookies :: bool
  mac :: "string \<Rightarrow> string"
  mac_size :: nat
  entropy :: "nat \<Rightarrow> nat"

text \<open>
  \<open>request_cookie\<close> is the value of the session cookie of the request (empty when there is
  none), \<open>temp_cookie\<close> the value the storage asks to send, \<open>cookies_out\<close> the cookies sent:
  the key (empty for the session's own), the encoded value and the age, negative to delete.
\<close>

record 's sess_io =
  request_cookie :: string
  temp_cookie :: string
  cookies_out :: "(string \<times> string \<times> int) list"
  rng :: nat
  sstore :: 's

definition send_cookie :: "int \<Rightarrow> string \<Rightarrow> string \<Rightarrow> ('s, 'z) sess_io_scheme \<Rightarrow> ('s, 'z) sess_io_scheme" where
  "send_cookie age data key io =
     io\<lparr>cookies_out := cookies_out io @ [(key, urlencode data, if data = [] then - 1 else age)]\<rparr>"

definition set_session_cookie :: "string \<Rightarrow> ('s, 'z) sess_io_scheme \<Rightarrow> ('s, 'z) sess_io_scheme" where
  "set_session_cookie data io = io\<lparr>temp_cookie := data\<rparr>"

definition clear_session_cookie :: "('s, 'z) sess_io_scheme \<Rightarrow> ('s, 'z) sess_io_scheme" where
  "clear_session_cookie io = (if request_cookie io \<noteq> [] then send_cookie (- 1) [] [] io else io)"

definition random_bytes :: "session_config \<Rightarrow> nat \<Rightarrow> ('s, 'z) sess_io_scheme \<Rightarrow>
    nat list \<times> ('s, 'z) sess_io_scheme" where
  "random_bytes cfg n io =
     (map (\<lambda>i. entropy cfg (rng io + i) mod 256) [0..<n], io\<lparr>rng := rng io + n\<rparr>)"

section \<open>Identifiers\<close>

definition tohex :: "nat list \<Rightarrow> string" where
  "tohex bs = concat (map (\<lambda>b. [hex_lower (b div 16), hex_lower (b mod 16)]) bs)"

definition get_new_sid :: "session_config \<Rightarrow> ('s, 'z) sess_io_scheme \<Rightarrow> string \<times> ('s, 'z) sess_io_scheme" where
  "get_new_sid cfg io = (let (bs, io) = random_bytes cfg 16 io in (tohex bs, io))"

definition is_low_x_digit :: "char \<Rightarrow> bool" where
  "is_low_x_digit c \<longleftrightarrow> is_digit c \<or> CHR ''a'' \<le> c \<and> c \<le> CHR ''f''"

definition valid_sid :: "string \<Rightarrow> string option" where
  "valid_sid cookie =
     (if length cookie \<noteq> 33 \<or> hd cookie \<noteq> CHR ''I'' then None
      else if list_all is_low_x_digit (tl cookie) then Some (take 32 (tl cookie)) else None)"

definition sid_save :: "'s storage_ops \<Rightarrow> session_config \<Rightarrow> int \<Rightarrow> string \<Rightarrow> int \<Rightarrow> bool \<Rightarrow>
    ('s, 'z) sess_io_scheme \<Rightarrow> ('s, 'z) sess_io_scheme" where
  "sid_save ops cfg now data timeout new_data io =
     (let (sid, io) =
        (case valid_sid (request_cookie io) of
           Some sid \<Rightarrow>
             if new_data then get_new_sid cfg (io\<lparr>sstore := op_remove ops now sid (sstore io)\<rparr>)
             else (sid, io)
         | None \<Rightarrow> get_new_sid cfg io)
      in set_session_cookie (CHR ''I'' # sid)
           (io\<lparr>sstore := op_save ops now sid timeout data (sstore io)\<rparr>))"

definition sid_load :: "'s storage_ops \<Rightarrow> int \<Rightarrow> ('s, 'z) sess_io_scheme \<Rightarrow>
    (string \<times> int) option \<times> ('s, 'z) sess_io_scheme" where
  "sid_load ops now io =
     (case valid_sid (request_cookie io) of
        None \<Rightarrow> (None, io)
      | Some sid \<Rightarrow>
          (case op_load ops now sid (sstore io) of
             None \<Rightarrow> (None, io)
           | Some (timeout, data) \<Rightarrow>
               if now > timeout then (None, io\<lparr>sstore := op_remove ops now sid (sstore io)\<rparr>)
               else (Some (data, timeout), io)))"

definition sid_clear :: "'s storage_ops \<Rightarrow> int \<Rightarrow> ('s, 'z) sess_io_scheme \<Rightarrow> ('s, 'z) sess_io_scheme" where
  "sid_clear ops now io =
     clear_session_cookie
       (case valid_sid (request_cookie io) of
          Some sid \<Rightarrow> io\<lparr>sstore := op_remove ops now sid (sstore io)\<rparr>
        | None \<Rightarrow> io)"

section \<open>Signed cookies\<close>

definition hmac_encrypt :: "session_config \<Rightarrow> string \<Rightarrow> string" where
  "hmac_encrypt cfg plain = plain @ mac cfg plain"

text \<open>\<open>hmac_cipher::equal\<close> counts the differing bytes instead of stopping at the first.\<close>

definition equal_bytes :: "string \<Rightarrow> string \<Rightarrow> bool" where
  "equal_bytes a b \<longleftrightarrow> length (filter (\<lambda>(x, y). x \<noteq> y) (zip a b)) = 0"

definition hmac_decrypt :: "session_config \<Rightarrow> string \<Rightarrow> string option" where
  "hmac_decrypt cfg cipher =
     (if length cipher < mac_size cfg then None
      else let n = length cipher - mac_size cfg
           in if equal_bytes (mac cfg (take n cipher)) (drop n cipher)
              then Some (take n cipher) else None)"

definition to_int64 :: "int \<Rightarrow> int" where
  "to_int64 v = (v + 2 ^ 63) mod 2 ^ 64 - 2 ^ 63"

definition cookies_save :: "session_config \<Rightarrow> string \<Rightarrow> int \<Rightarrow> bool \<Rightarrow>
    (('s, 'z) sess_io_scheme, unit) action" where
  "cookies_save cfg data timeout on_server io =
     (if on_server
      then (Inl (Cppcms_error
        ''Can't use cookies backend when data should be stored on server''), io)
      else (Inr (), set_session_cookie
        (''C'' @ encode_string (hmac_encrypt cfg (le_bytes 8 (nat (timeout mod 2 ^ 64)) @ data))) io))"

definition cookies_load :: "session_config \<Rightarrow> int \<Rightarrow> ('s, 'z) sess_io_scheme \<Rightarrow>
    (string \<times> int) option \<times> ('s, 'z) sess_io_scheme" where
  "cookies_load cfg now io =
     (let cdata = request_cookie io in
      if cdata = [] then (None, io)
      else if hd cdata \<noteq> CHR ''C'' then (None, clear_session_cookie io)
      else case decode_string (drop 1 cdata) [] of (ok, cipher) \<Rightarrow>
        if \<not> ok then (None, clear_session_cookie io)
        else case hmac_decrypt cfg cipher of
          None \<Rightarrow> (None, clear_session_cookie io)
        | Some tmp \<Rightarrow>
            if length tmp < 8 then (None, clear_session_cookie io)
            else let timeout = to_int64 (int (le_val (take 8 tmp))) in
              if timeout < now then (None, clear_session_cookie io)
              else (Some (drop 8 tmp, timeout), io))"

definition cookies_clear :: "('s, 'z) sess_io_scheme \<Rightarrow> ('s, 'z) sess_io_scheme" where
  "cookies_clear io = clear_session_cookie io"

section \<open>One or the other\<close>

definition dual_save :: "'s storage_ops \<Rightarrow> session_config \<Rightarrow> int \<Rightarrow> string \<Rightarrow> int \<Rightarrow> bool \<Rightarrow> bool \<Rightarrow>
    (('s, 'z) sess_io_scheme, unit) action" where
  "dual_save ops cfg now data timeout isnew on_server io =
     (if on_server \<or> length data > client_size_limit cfg
      then (Inr (), sid_save ops cfg now data timeout isnew io)
      else
        let cookie = request_cookie io;
            io = (if cookie \<noteq> [] \<and> hd cookie = CHR ''I'' then sid_clear ops now io else io)
        in cookies_save cfg data timeout False io)"

definition dual_load :: "'s storage_ops \<Rightarrow> session_config \<Rightarrow> int \<Rightarrow> ('s, 'z) sess_io_scheme \<Rightarrow>
    (string \<times> int) option \<times> ('s, 'z) sess_io_scheme" where
  "dual_load ops cfg now io =
     (let cookie = request_cookie io in
      if cookie \<noteq> [] \<and> hd cookie = CHR ''C'' then cookies_load cfg now io else sid_load ops now io)"

definition dual_clear :: "'s storage_ops \<Rightarrow> int \<Rightarrow> ('s, 'z) sess_io_scheme \<Rightarrow> ('s, 'z) sess_io_scheme" where
  "dual_clear ops now io =
     (let cookie = request_cookie io in
      if cookie \<noteq> [] \<and> hd cookie = CHR ''C'' then cookies_clear io else sid_clear ops now io)"

text \<open>The \<open>session_api\<close> that \<open>session_pool\<close> builds for \<open>session.location\<close>.\<close>

definition api_save :: "'s storage_ops \<Rightarrow> session_config \<Rightarrow> int \<Rightarrow> string \<Rightarrow> int \<Rightarrow> bool \<Rightarrow> bool \<Rightarrow>
    (('s, 'z) sess_io_scheme, unit) action" where
  "api_save ops cfg now data timeout isnew on_server io =
     (case location_of cfg of
        Server_side \<Rightarrow> (Inr (), sid_save ops cfg now data timeout isnew io)
      | Client_side \<Rightarrow> cookies_save cfg data timeout on_server io
      | Both_sides \<Rightarrow> dual_save ops cfg now data timeout isnew on_server io)"

definition api_load :: "'s storage_ops \<Rightarrow> session_config \<Rightarrow> int \<Rightarrow> ('s, 'z) sess_io_scheme \<Rightarrow>
    (string \<times> int) option \<times> ('s, 'z) sess_io_scheme" where
  "api_load ops cfg now io =
     (case location_of cfg of
        Server_side \<Rightarrow> sid_load ops now io
      | Client_side \<Rightarrow> cookies_load cfg now io
      | Both_sides \<Rightarrow> dual_load ops cfg now io)"

definition api_clear :: "'s storage_ops \<Rightarrow> session_config \<Rightarrow> int \<Rightarrow> ('s, 'z) sess_io_scheme \<Rightarrow>
    ('s, 'z) sess_io_scheme" where
  "api_clear ops cfg now io =
     (case location_of cfg of
        Server_side \<Rightarrow> sid_clear ops now io
      | Client_side \<Rightarrow> cookies_clear io
      | Both_sides \<Rightarrow> dual_clear ops now io)"

section \<open>Identifiers are valid\<close>

lemma length_tohex [simp]: "length (tohex bs) = 2 * length bs"
  by (induction bs) (simp_all add: tohex_def)

lemma hex_lower_low_x: "n < 16 \<Longrightarrow> is_low_x_digit (hex_lower n)"
  unfolding hex_lower_def is_low_x_digit_def
  by (auto simp: less_eq_char_def is_digit_def nth_Cons' )

lemma tohex_low_x: "\<forall>b \<in> set bs. b < 256 \<Longrightarrow> list_all is_low_x_digit (tohex bs)"
  by (induction bs) (auto simp: tohex_def hex_lower_low_x)

lemma get_new_sid_frame:
  "request_cookie (snd (get_new_sid cfg io)) = request_cookie io"
  "sstore (snd (get_new_sid cfg io)) = sstore io"
  "cookies_out (snd (get_new_sid cfg io)) = cookies_out io"
  by (simp_all add: get_new_sid_def random_bytes_def)

lemma valid_new_sid: "valid_sid (CHR ''I'' # fst (get_new_sid cfg io)) = Some (fst (get_new_sid cfg io))"
proof -
  let ?bs = "map (\<lambda>i. entropy cfg (rng io + i) mod 256) [0..<16]"
  have "fst (get_new_sid cfg io) = tohex ?bs"
    by (simp add: get_new_sid_def random_bytes_def)
  moreover have "list_all is_low_x_digit (tohex ?bs)" by (rule tohex_low_x) auto
  ultimately show ?thesis by (simp add: valid_sid_def)
qed

lemma valid_sid_SomeD: "valid_sid cookie = Some sid \<Longrightarrow> cookie = CHR ''I'' # sid"
  by (cases cookie) (auto simp: valid_sid_def split: if_splits)

text \<open>The identifier the data is saved under.\<close>

definition saved_sid :: "'s storage_ops \<Rightarrow> session_config \<Rightarrow> int \<Rightarrow> bool \<Rightarrow> ('s, 'z) sess_io_scheme \<Rightarrow> string" where
  "saved_sid ops cfg now new_data io =
     (case valid_sid (request_cookie io) of
        Some sid \<Rightarrow> if new_data then fst (get_new_sid cfg io) else sid
      | None \<Rightarrow> fst (get_new_sid cfg io))"

lemma get_new_sid_store [simp]: "fst (get_new_sid cfg (io\<lparr>sstore := st\<rparr>)) = fst (get_new_sid cfg io)"
  by (simp add: get_new_sid_def random_bytes_def)

lemma saved_sid_valid: "valid_sid (CHR ''I'' # saved_sid ops cfg now new_data io) = Some (saved_sid ops cfg now new_data io)"
  using valid_sid_SomeD
  by (auto simp: saved_sid_def valid_new_sid split: option.splits)

lemma sid_save_effect:
  "temp_cookie (sid_save ops cfg now data timeout new_data io) = CHR ''I'' # saved_sid ops cfg now new_data io"
  "sstore (sid_save ops cfg now data timeout new_data io) =
     op_save ops now (saved_sid ops cfg now new_data io) timeout data
       (case valid_sid (request_cookie io) of
          Some sid \<Rightarrow> if new_data then op_remove ops now sid (sstore io) else sstore io
        | None \<Rightarrow> sstore io)"
  by (cases "valid_sid (request_cookie io)";
      simp add: sid_save_def saved_sid_def set_session_cookie_def get_new_sid_frame split_beta)+

section \<open>The contract of a storage\<close>

locale session_storage =
  fixes ops :: "'s storage_ops"
    and ok :: "'s \<Rightarrow> bool"
  assumes load_saved: "ok s \<Longrightarrow> now \<le> t \<Longrightarrow> op_load ops t k' (op_save ops now k to v s) =
            (if k' = k then (if to < t then None else Some (to, v)) else op_load ops t k' s)"
    and load_removed: "ok s \<Longrightarrow> now \<le> t \<Longrightarrow> op_load ops t k' (op_remove ops now k s) =
            (if k' = k then None else op_load ops t k' s)"
    and load_live: "op_load ops now k s = Some (to, v) \<Longrightarrow> now \<le> to"
    and ok_save: "ok s \<Longrightarrow> ok (op_save ops now k to v s)"
    and ok_remove: "ok s \<Longrightarrow> ok (op_remove ops now k s)"
begin

lemma sid_save_ok: "ok (sstore io) \<Longrightarrow> ok (sstore (sid_save ops cfg now data timeout new_data io))"
  by (auto simp: sid_save_effect ok_save ok_remove split: option.splits)

text \<open>A later request that sends the cookie back gets the data back, until it expires.\<close>

lemma sid_load_saved:
  assumes "ok (sstore io)" "now \<le> t" "t \<le> timeout"
    and "sstore io' = sstore (sid_save ops cfg now data timeout new_data io)"
    and "request_cookie io' = temp_cookie (sid_save ops cfg now data timeout new_data io)"
  shows "sid_load ops t io' = (Some (data, timeout), io')"
  using assms
  by (auto simp: sid_load_def sid_save_effect saved_sid_valid load_saved ok_remove split: option.splits)

text \<open>A renewed session: what the old identifier named is gone.\<close>

lemma sid_renewed:
  assumes "ok (sstore io)" "now \<le> t" "valid_sid (request_cookie io) = Some old"
    and "fst (get_new_sid cfg io) \<noteq> old"
  shows "op_load ops t old (sstore (sid_save ops cfg now data timeout True io)) = None"
  using assms by (auto simp: sid_save_effect saved_sid_def load_saved load_removed ok_remove)

lemma sid_load_unexpired: "sid_load ops now io = (Some (data, timeout), io') \<Longrightarrow> now \<le> timeout \<and> io' = io"
  by (auto simp: sid_load_def split: option.splits if_splits)

lemma sid_load_ok: "ok (sstore io) \<Longrightarrow> ok (sstore (snd (sid_load ops now io)))"
  by (auto simp: sid_load_def ok_remove split: option.splits)

lemma sid_clear_ok: "ok (sstore io) \<Longrightarrow> ok (sstore (sid_clear ops now io))"
  by (auto simp: sid_clear_def clear_session_cookie_def send_cookie_def ok_remove split: option.splits)

lemma sid_cleared:
  assumes "ok (sstore io)" "now \<le> t" "valid_sid (request_cookie io) = Some old"
  shows "op_load ops t old (sstore (sid_clear ops now io)) = None"
  using assms by (simp add: sid_clear_def clear_session_cookie_def send_cookie_def load_removed)

end

interpretation mem_store: session_storage memory_ops storage_ok
  by unfold_locales
     (auto simp: memory_ops_def storage_load_save storage_load_remove storage_save_ok
       storage_remove_ok dest: storage_load_live)

section \<open>Signed cookies\<close>

lemma equal_bytes_iff: "length a = length b \<Longrightarrow> equal_bytes a b \<longleftrightarrow> a = b"
  unfolding equal_bytes_def by (induction a b rule: list_induct2) auto

text \<open>
  What the documentation of a keyed hash promises is its size; that it can not be forged is
  not a statement about one function and stays outside of the model.
\<close>

definition mac_ok :: "session_config \<Rightarrow> bool" where
  "mac_ok cfg \<longleftrightarrow> (\<forall>x. length (mac cfg x) = mac_size cfg)"

lemma hmac_decrypt_encrypt: "mac_ok cfg \<Longrightarrow> hmac_decrypt cfg (hmac_encrypt cfg plain) = Some plain"
  by (simp add: mac_ok_def hmac_decrypt_def hmac_encrypt_def equal_bytes_iff Let_def)

lemma hmac_decrypt_SomeD:
  "mac_ok cfg \<Longrightarrow> hmac_decrypt cfg cipher = Some plain \<Longrightarrow> cipher = hmac_encrypt cfg plain"
  by (auto simp: mac_ok_def hmac_decrypt_def hmac_encrypt_def equal_bytes_iff Let_def split: if_splits)

lemma to_int64_mod: "- (2 ^ 63) \<le> v \<Longrightarrow> v < 2 ^ 63 \<Longrightarrow> to_int64 (v mod 2 ^ 64) = v"
  by (simp add: to_int64_def mod_add_left_eq)

lemma cookies_load_saved:
  assumes mac: "mac_ok cfg" and t: "now \<le> timeout" "- (2 ^ 63) \<le> timeout" "timeout < 2 ^ 63"
    and save: "cookies_save cfg data timeout False io0 = (Inr (), io1)"
    and cookie: "request_cookie io = temp_cookie io1"
  shows "cookies_load cfg now io = (Some (data, timeout), io)"
proof -
  let ?real = "le_bytes 8 (nat (timeout mod 2 ^ 64)) @ data"
  have c: "request_cookie io = ''C'' @ encode_string (hmac_encrypt cfg ?real)"
    using save cookie by (auto simp: cookies_save_def set_session_cookie_def)
  have "length (hmac_encrypt cfg ?real) \<noteq> 0" by (simp only: hmac_encrypt_def length_append length_le_bytes)
  then have "hmac_encrypt cfg ?real \<noteq> []" by blast
  then have "decode_string (encode_string (hmac_encrypt cfg ?real)) [] = (True, hmac_encrypt cfg ?real)"
    by (simp add: decode_encode_string)
  moreover have "to_int64 (int (le_val (le_bytes 8 (nat (timeout mod 2 ^ 64))))) = timeout"
    using t to_int64_mod[of timeout] by (simp add: le_val_le_bytes zmod_int)
  ultimately show ?thesis
    using t by (simp add: cookies_load_def c Let_def hmac_decrypt_encrypt[OF mac])
qed

text \<open>Only data that carries its authentication code, and that has not expired, is accepted.\<close>

lemma cookies_load_authentic:
  assumes "mac_ok cfg" "cookies_load cfg now io = (Some (data, timeout), io')"
  shows "\<exists>real. snd (decode_string (drop 1 (request_cookie io)) []) = real @ mac cfg real \<and>
     data = drop 8 real \<and> now \<le> timeout"
proof -
  obtain ok cipher where d: "decode_string (drop 1 (request_cookie io)) [] = (ok, cipher)"
    by (cases "decode_string (drop 1 (request_cookie io)) []")
  obtain real where r: "hmac_decrypt cfg cipher = Some real"
    using assms(2) d by (cases "hmac_decrypt cfg cipher") (auto simp: cookies_load_def Let_def split: if_splits)
  have "data = drop 8 real" "now \<le> timeout"
    using assms(2) d r by (auto simp: cookies_load_def Let_def split: if_splits)
  then show ?thesis using hmac_decrypt_SomeD[OF assms(1) r] d by (auto simp: hmac_encrypt_def)
qed

section \<open>Any location\<close>

text \<open>Nothing but the part of a session seen here is touched.\<close>

lemma io_more [simp]:
  "sess_io.more (send_cookie a d k io) = sess_io.more io"
  "sess_io.more (set_session_cookie d io) = sess_io.more io"
  "sess_io.more (clear_session_cookie io) = sess_io.more io"
  "sess_io.more (snd (random_bytes cfg n io)) = sess_io.more io"
  "sess_io.more (snd (get_new_sid cfg io)) = sess_io.more io"
  by (simp_all add: send_cookie_def set_session_cookie_def clear_session_cookie_def
      random_bytes_def get_new_sid_def)

lemma sid_more [simp]:
  "sess_io.more (sid_save ops cfg now data timeout isnew io) = sess_io.more io"
  "sess_io.more (snd (sid_load ops now io)) = sess_io.more io"
  "sess_io.more (sid_clear ops now io) = sess_io.more io"
  by (simp_all add: sid_save_def sid_load_def sid_clear_def split_beta split: option.split)

lemma cookies_more [simp]:
  "sess_io.more (snd (cookies_save cfg data timeout srv io)) = sess_io.more io"
  "sess_io.more (snd (cookies_load cfg now io)) = sess_io.more io"
  "sess_io.more (cookies_clear io) = sess_io.more io"
  by (simp_all add: cookies_save_def cookies_load_def cookies_clear_def Let_def split_beta split: option.split)

lemma api_more [simp]:
  "sess_io.more (snd (api_save ops cfg now data timeout isnew srv io)) = sess_io.more io"
  "sess_io.more (snd (api_load ops cfg now io)) = sess_io.more io"
  "sess_io.more (api_clear ops cfg now io) = sess_io.more io"
  by (simp_all add: api_save_def api_load_def api_clear_def dual_save_def dual_load_def
      dual_clear_def Let_def split: location.split)

lemma cookies_save_store [simp]: "sstore (snd (cookies_save cfg data timeout srv io)) = sstore io"
  by (simp add: cookies_save_def set_session_cookie_def)

lemma clear_session_cookie_store [simp]: "sstore (clear_session_cookie io) = sstore io"
  by (simp add: clear_session_cookie_def send_cookie_def)

lemma sid_save_cookie [simp]: "hd (temp_cookie (sid_save ops cfg now data timeout isnew io)) = CHR ''I''"
  "temp_cookie (sid_save ops cfg now data timeout isnew io) \<noteq> []"
  by (simp_all add: sid_save_effect)

lemma cookies_save_cookie:
  "cookies_save cfg data timeout srv io = (Inr (), io1) \<Longrightarrow>
     temp_cookie io1 \<noteq> [] \<and> hd (temp_cookie io1) = CHR ''C'' \<and> \<not> srv"
  by (auto simp: cookies_save_def set_session_cookie_def split: if_splits)

context session_storage
begin

lemma api_save_ok:
  "ok (sstore io) \<Longrightarrow> ok (sstore (snd (api_save ops cfg now data timeout isnew srv io)))"
  by (auto simp: api_save_def dual_save_def Let_def sid_save_ok sid_clear_ok split: location.split)

text \<open>
  Whatever the location: data saved in one request is what the next request loads that sends
  back the cookie the storage asked for, as long as it has not expired.
\<close>

lemma api_load_saved:
  assumes mac: "mac_ok cfg" and st: "ok (sstore io)"
    and t: "now \<le> t" "t \<le> timeout" "- (2 ^ 63) \<le> timeout" "timeout < 2 ^ 63"
    and save: "api_save ops cfg now data timeout isnew srv io = (Inr (), io1)"
    and later: "sstore io' = sstore io1" "request_cookie io' = temp_cookie io1"
  shows "api_load ops cfg t io' = (Some (data, timeout), io')"
proof (cases "location_of cfg")
  case Server_side
  then have "io1 = sid_save ops cfg now data timeout isnew io" using save by (simp add: api_save_def)
  then show ?thesis using Server_side later sid_load_saved[OF st t(1,2)] by (simp add: api_load_def)
next
  case Client_side
  then have s: "cookies_save cfg data timeout srv io = (Inr (), io1)" using save by (simp add: api_save_def)
  then have "\<not> srv" using cookies_save_cookie by blast
  then show ?thesis
    using Client_side cookies_load_saved[OF mac t(2-4)] s later by (simp add: api_load_def)
next
  case Both_sides
  then have d: "dual_save ops cfg now data timeout isnew srv io = (Inr (), io1)"
    using save by (simp add: api_save_def)
  show ?thesis
  proof (cases "srv \<or> length data > client_size_limit cfg")
    case True
    then have "io1 = sid_save ops cfg now data timeout isnew io" using d by (auto simp: dual_save_def)
    then show ?thesis
      using Both_sides later sid_load_saved[OF st t(1,2)] by (simp add: api_load_def dual_load_def Let_def)
  next
    case False
    then obtain io2 where s: "cookies_save cfg data timeout False io2 = (Inr (), io1)"
      using d by (auto simp: dual_save_def Let_def)
    show ?thesis
      using Both_sides cookies_save_cookie[OF s] later cookies_load_saved[OF mac t(2-4) s]
      by (simp add: api_load_def dual_load_def Let_def)
  qed
qed

end

section \<open>What the storages promise\<close>

text \<open>Settings to try things with.\<close>

definition example_config :: session_config where
  "example_config = \<lparr>cookie_prefix = ''s'', location_of = Server_side, client_size_limit = 100,
     default_timeout = 3600, default_how = 2, csrf_enable = True, csrf_exposed = False,
     remove_unknown_cookies = False, mac = (\<lambda>s. if s = [] then ''mmmm'' else [hd s, last s, CHR ''m'', CHR ''m'']), mac_size = 4, entropy = (\<lambda>i. 7 * i)\<rparr>"

lemma example_mac_ok: "mac_ok example_config"
  by (simp add: mac_ok_def example_config_def)

definition example_io :: "string \<Rightarrow> mem_storage sess_io" where
  "example_io c = \<lparr>request_cookie = c, temp_cookie = [], cookies_out = [], rng = 0, sstore = new_storage\<rparr>"

text \<open>
  Property C23. The memory storage with its queue of expiry times and its incremental garbage
  collection implements a plain map from identifiers to data with an expiry time: at any later
  time, loading after \<open>save\<close> and \<open>remove\<close> gives what the map would, and nothing expired; the
  queue stays in step with the table.
\<close>

theorem session_store_is_a_map:
  assumes "storage_ok s" "now \<le> t"
  shows "storage_ok (storage_save now k to v s) \<and> storage_ok (storage_remove now k s) \<and>
     (\<lambda>k. storage_load t k (storage_save now k' to v s)) =
       (\<lambda>k. storage_load t k s)(k' := if to < t then None else Some (to, v)) \<and>
     (\<lambda>k. storage_load t k (storage_remove now k' s)) = (\<lambda>k. storage_load t k s)(k' := None)"
  using assms by (auto simp: storage_load_save storage_load_remove storage_save_ok storage_remove_ok fun_eq_iff)

theorem session_store_is_a_map_witness:
  "storage_load 6 ''a'' (storage_save 5 ''a'' 9 ''x'' new_storage) = Some (9, ''x'')"
  using session_store_is_a_map[of new_storage 5 6 "[]" 9 "''x''" "''a''"]
  by (simp add: new_storage_def storage_ok_def fun_eq_iff)

text \<open>
  Property C24. A session that is saved as new gets an identifier of its own that has the right
  form; under it the data is found until it expires, and what the old identifier named is gone.
\<close>

theorem renewed_session_leaves_nothing:
  assumes "storage_ok (sstore io)" "now \<le> t" "t \<le> timeout"
    and "valid_sid (request_cookie io) = Some old" "fst (get_new_sid cfg io) \<noteq> old"
  shows "let io' = sid_save memory_ops cfg now data timeout True io;
             sid = fst (get_new_sid cfg io) in
     temp_cookie io' = CHR ''I'' # sid \<and> valid_sid (temp_cookie io') = Some sid \<and>
     storage_load t sid (sstore io') = Some (timeout, data) \<and>
     storage_load t old (sstore io') = None"
proof -
  have sid: "saved_sid memory_ops cfg now True io = fst (get_new_sid cfg io)"
    using assms(4) by (simp add: saved_sid_def)
  then have "valid_sid (CHR ''I'' # fst (get_new_sid cfg io)) = Some (fst (get_new_sid cfg io))"
    using saved_sid_valid[of memory_ops cfg now True io] by simp
  moreover have "storage_load t old (sstore (sid_save memory_ops cfg now data timeout True io)) = None"
    using mem_store.sid_renewed[OF assms(1,2,4,5)] by (simp add: memory_ops_def)
  moreover have "storage_load t (fst (get_new_sid cfg io))
      (sstore (sid_save memory_ops cfg now data timeout True io)) = Some (timeout, data)"
    using assms by (simp add: sid_save_effect sid)
      (simp add: memory_ops_def storage_load_save storage_remove_ok)
  ultimately show ?thesis by (simp add: sid_save_effect sid Let_def)
qed

theorem renewed_session_leaves_nothing_witness:
  "storage_load 6 ''00000000000000000000000000000000''
     (sstore (sid_save memory_ops example_config 5 ''d'' 9 True
        (example_io ''I00000000000000000000000000000000''))) = None"
proof -
  let ?io = "example_io ''I00000000000000000000000000000000''"
  have v: "valid_sid (request_cookie ?io) = Some ''00000000000000000000000000000000''"
    by (simp add: example_io_def valid_sid_def is_low_x_digit_def is_digit_def)
  have n: "fst (get_new_sid example_config ?io) \<noteq> ''00000000000000000000000000000000''"
    by code_simp
  have s: "storage_ok (sstore ?io)" by (simp add: example_io_def new_storage_def storage_ok_def)
  show ?thesis
    using renewed_session_leaves_nothing[OF s _ _ v n, where now = 5 and t = 6 and timeout = 9 and data = "''d''"] by (simp add: Let_def)
qed

text \<open>
  A session kept in a signed cookie comes back: whatever \<open>save\<close> put into the cookie
  is loaded, data and expiry time, until it expires.
\<close>

theorem signed_cookie_round_trip:
  assumes "mac_ok cfg" "now \<le> timeout" "- (2 ^ 63) \<le> timeout" "timeout < 2 ^ 63"
    and "cookies_save cfg data timeout False io0 = (Inr (), io1)"
    and "request_cookie io = temp_cookie io1"
  shows "cookies_load cfg now io = (Some (data, timeout), io)"
  by (rule cookies_load_saved[OF assms])

theorem signed_cookie_round_trip_witness:
  "cookies_load example_config 5 (example_io (temp_cookie
      (snd (cookies_save example_config ''data'' 9 False (example_io []))))) =
     (Some (''data'', 9), example_io (temp_cookie
      (snd (cookies_save example_config ''data'' 9 False (example_io [])))))"
  by (rule signed_cookie_round_trip[OF example_mac_ok, where ?io0.0 = "example_io []"
        and ?io1.0 = "snd (cookies_save example_config ''data'' 9 False (example_io []))"])
     (simp_all add: cookies_save_def example_io_def)

text \<open>
  Property C22. Session data from a cookie is accepted only with the authentication code of
  exactly these bytes, and not after its expiry time; anything else is refused and the cookie
  deleted.
\<close>

theorem accepted_cookie_is_signed:
  assumes "mac_ok cfg"
  shows "case cookies_load cfg now io of
      (Some (data, timeout), io') \<Rightarrow>
        (\<exists>real. snd (decode_string (drop 1 (request_cookie io)) []) = real @ mac cfg real \<and>
           data = drop 8 real \<and> timeout = to_int64 (int (le_val (take 8 real)))) \<and> now \<le> timeout \<and> io' = io
    | (None, io') \<Rightarrow>
        request_cookie io \<noteq> [] \<longrightarrow> cookies_out io' = cookies_out io @ [([], [], - 1)]"
proof (cases "cookies_load cfg now io")
  case (Pair r io')
  show ?thesis
  proof (cases r)
    case None
    then show ?thesis using Pair
      by (auto simp: cookies_load_def clear_session_cookie_def send_cookie_def Let_def
          split: prod.splits option.splits if_splits)
  next
    case (Some p)
    obtain data timeout where p: "p = (data, timeout)" by (cases p)
    obtain ok cipher where d: "decode_string (drop 1 (request_cookie io)) [] = (ok, cipher)"
      by (cases "decode_string (drop 1 (request_cookie io)) []")
    obtain real where r: "hmac_decrypt cfg cipher = Some real"
      using Pair Some p d
      by (cases "hmac_decrypt cfg cipher") (auto simp: cookies_load_def Let_def split: if_splits)
    then have "data = drop 8 real" "timeout = to_int64 (int (le_val (take 8 real)))" "now \<le> timeout" "io' = io"
      using Pair Some p d by (auto simp: cookies_load_def Let_def split: if_splits)
    then show ?thesis
      using Pair Some p d hmac_decrypt_SomeD[OF assms r] by (auto simp: hmac_encrypt_def)
  qed
qed

theorem accepted_cookie_is_signed_witness:
  "fst (cookies_load example_config 5 (example_io ''Cxx'')) = None \<and>
   cookies_out (snd (cookies_load example_config 5 (example_io ''Cxx''))) = [([], [], - 1)]"
proof -
  have n: "fst (cookies_load example_config 5 (example_io ''Cxx'')) = None" by code_simp
  then show ?thesis
    using accepted_cookie_is_signed[OF example_mac_ok, where now = 5 and io = "example_io ''Cxx''"]
    by (cases "cookies_load example_config 5 (example_io ''Cxx'')") (simp add: example_io_def)
qed

end
