(* ===== verification/Crypto.thy ===== *)
theory Crypto
  imports Md5 Session_Storage "HOL-Library.While_Combinator"
begin

unbundle bit_operations_syntax

text \<open>
  The digests of \<open>src/crypto.cpp\<close> and what is built on them: SHA-1 (\<open>private/sha1.h\<close>), the classes
  \<open>md5_digets\<close> and \<open>sha1_digets\<close> behind one interface (the locale \<open>digest\<close>), hexadecimal keys and
  HMAC. The buffers of the digests start with arbitrary bytes, which are parameters.
\<close>

section \<open>SHA-1\<close>

type_synonym sha1_words = "word32 \<times> word32 \<times> word32 \<times> word32 \<times> word32"

record sha1_state =
  sh :: sha1_words
  block :: string
  block_byte_index :: nat
  byte_count :: "64 word"

definition left_rotate :: "word32 \<Rightarrow> nat \<Rightarrow> word32" where
  "left_rotate x n = push_bit n x XOR drop_bit (32 - n) x"

definition sha1_iv :: sha1_words where
  "sha1_iv = (0x67452301, 0xEFCDAB89, 0x98BADCFE, 0x10325476, 0xC3D2E1F0)"

definition sha1_reset :: "sha1_state \<Rightarrow> sha1_state" where
  "sha1_reset s = s\<lparr>sh := sha1_iv, block_byte_index := 0, byte_count := 0\<rparr>"

definition sha1_new :: "string \<Rightarrow> sha1_state" where
  "sha1_new garbage = sha1_reset \<lparr>sh = sha1_iv, block = garbage, block_byte_index = 0, byte_count = 0\<rparr>"

text \<open>The 80 words made of a block: the first 16 are read big-endian.\<close>

definition sha1_schedule :: "string \<Rightarrow> word32 list" where
  "sha1_schedule b =
     fold (\<lambda>i w. w @ [left_rotate (w ! (i - 3) XOR w ! (i - 8) XOR w ! (i - 14) XOR w ! (i - 16)) 1]) [16..<80]
       (map (\<lambda>i. word_of_nat (le_val (rev (take 4 (drop (i * 4) b))))) [0..<16])"

definition sha1_step :: "nat \<times> word32 \<Rightarrow> sha1_words \<Rightarrow> sha1_words" where
  "sha1_step = (\<lambda>(i, w) (a, b, c, d, e).
     let (f, k) =
           (if i < 20 then ((b AND c) OR (NOT b AND d), 0x5A827999)
            else if i < 40 then (b XOR c XOR d, 0x6ED9EBA1)
            else if i < 60 then ((b AND c) OR (b AND d) OR (c AND d), 0x8F1BBCDC)
            else (b XOR c XOR d, 0xCA62C1D6))
     in (left_rotate a 5 + f + e + k + w, a, left_rotate b 30, c, d))"

definition sha1_compress :: "sha1_words \<Rightarrow> string \<Rightarrow> sha1_words" where
  "sha1_compress h b =
     (case fold sha1_step (zip [0..<80] (sha1_schedule b)) h of (a, b, c, d, e) \<Rightarrow>
        (case h of (h0, h1, h2, h3, h4) \<Rightarrow> (h0 + a, h1 + b, h2 + c, h3 + d, h4 + e)))"

definition sha1_process_byte :: "char \<Rightarrow> sha1_state \<Rightarrow> sha1_state" where
  "sha1_process_byte c s =
     (let s = s\<lparr>block := (block s)[block_byte_index s := c], block_byte_index := block_byte_index s + 1,
               byte_count := byte_count s + 1\<rparr>
      in if block_byte_index s = 64 then s\<lparr>block_byte_index := 0, sh := sha1_compress (sh s) (block s)\<rparr> else s)"

definition sha1_process_bytes :: "sha1_state \<Rightarrow> string \<Rightarrow> sha1_state" where
  "sha1_process_bytes s d = fold sha1_process_byte d s"

definition sha1_get_digest :: "sha1_state \<Rightarrow> sha1_words \<times> sha1_state" where
  "sha1_get_digest s =
     (let bit_count = byte_count s * 8; zero = sha1_process_byte (CHR 0x00);
          s = sha1_process_byte (CHR 0x80) s;
          s = (if block_byte_index s > 56
               then while (\<lambda>s. block_byte_index s < 56) zero (while (\<lambda>s. block_byte_index s \<noteq> 0) zero s)
               else while (\<lambda>s. block_byte_index s < 56) zero s);
          s = zero (zero (zero (zero s)));
          len = rev (le_bytes 4 (unat (bit_count AND 0xFFFFFFFF)));
          s = fold sha1_process_byte len s
      in (sh s, s))"

definition sha1_bytes :: "sha1_words \<Rightarrow> string" where
  "sha1_bytes h = (case h of (a, b, c, d, e) \<Rightarrow> concat (map (\<lambda>w. rev (le_bytes 4 (unat w))) [a, b, c, d, e]))"

definition sha1_readout :: "sha1_state \<Rightarrow> string \<times> sha1_state" where
  "sha1_readout s = (case sha1_get_digest s of (d, s) \<Rightarrow> (sha1_bytes d, sha1_reset s))"

subsection \<open>The digest of a message\<close>

text \<open>The padded message of the standard, and the one of the code: the upper half of the length is 0.\<close>

definition sha1_padded :: "string \<Rightarrow> string" where
  "sha1_padded m = m @ (CHR 0x80 # replicate ((119 - length m mod 64) mod 64) (CHR 0x00)) @ rev (le_bytes 8 (8 * length m))"

definition sha1_padded32 :: "string \<Rightarrow> string" where
  "sha1_padded32 m =
     m @ (CHR 0x80 # replicate ((119 - length m mod 64) mod 64) (CHR 0x00)) @
       replicate 4 (CHR 0x00) @ rev (le_bytes 4 (8 * length m))"

definition sha1_spec :: "string \<Rightarrow> string" where
  "sha1_spec m = sha1_bytes (chain sha1_compress sha1_iv (sha1_padded m))"

definition sha1_spec32 :: "string \<Rightarrow> string" where
  "sha1_spec32 m = sha1_bytes (chain sha1_compress sha1_iv (sha1_padded32 m))"

definition sha1_has :: "sha1_state \<Rightarrow> string \<Rightarrow> bool" where
  "sha1_has s m \<longleftrightarrow>
     sh s = chain sha1_compress sha1_iv m \<and> length (block s) = 64 \<and> block_byte_index s = length m mod 64 \<and>
     take (length m mod 64) (block s) = tail_of m \<and> byte_count s = word_of_nat (length m)"

lemma sha1_new_has: "length garbage = 64 \<Longrightarrow> sha1_has (sha1_new garbage) []"
  by (simp add: sha1_has_def sha1_new_def sha1_reset_def tail_of_def)

lemma sha1_reset_has: "length (block s) = 64 \<Longrightarrow> sha1_has (sha1_reset s) []"
  by (simp add: sha1_has_def sha1_reset_def tail_of_def)

lemma sha1_byte_has:
  assumes h: "sha1_has s m"
  shows "sha1_has (sha1_process_byte c s) (m @ [c])"
proof -
  define k where "k = length m mod 64"
  have hs: "sh s = chain sha1_compress sha1_iv m" "length (block s) = 64" "block_byte_index s = k"
    "take k (block s) = tail_of m" "byte_count s = word_of_nat (length m)"
    using h by (simp_all add: sha1_has_def k_def)
  have k: "k < 64" "length (tail_of m) = k" by (simp_all add: k_def length_tail)
  have len: "length (m @ [c]) mod 64 = (k + 1) mod 64" by (simp add: k_def mod_Suc_eq)
  have b: "take (k + 1) ((block s)[k := c]) = tail_of m @ [c]"
    using hs(2,4) k by (simp add: take_Suc_conv_app_nth take_update_cancel)
  show ?thesis
  proof (cases "k + 1 = 64")
    case True
    have l: "length (tail_of m @ [c]) = 64" using k(2) True by simp
    have "(block s)[k := c] = tail_of m @ [c]" using b hs(2) True by simp
    moreover have "chain sha1_compress sha1_iv (m @ [c]) = sha1_compress (sh s) (tail_of m @ [c])"
      using chain_tail[of sha1_compress sha1_iv m "[c]"] hs(1) chain_block[OF l, of _ _ "[]"] by simp
    moreover have "length (m @ [c]) mod 64 = 0" using len True by simp
    ultimately show ?thesis
      using True hs l by (simp add: sha1_process_byte_def sha1_has_def Let_def tail_of_def add.commute)
  next
    case False
    then have "k + 1 < 64" using k(1) by simp
    moreover have "tail_of (m @ [c]) = tail_of m @ [c]"
      using tail_tail[of m "[c]"] calculation k(2) by (simp add: tail_of_short)
    moreover have "chain sha1_compress sha1_iv (m @ [c]) = sh s"
      using chain_tail[of sha1_compress sha1_iv m "[c]"] calculation k(2) hs(1) by simp
    moreover have "length (m @ [c]) mod 64 = k + 1" using len calculation by simp
    ultimately show ?thesis
      using hs b False by (simp add: sha1_process_byte_def sha1_has_def Let_def add.commute)
  qed
qed

lemma sha1_bytes_has: "sha1_has s m \<Longrightarrow> sha1_has (fold sha1_process_byte d s) (m @ d)"
  by (induction d arbitrary: s m) (use sha1_byte_has in fastforce)+

text \<open>A loop that runs \<open>n\<close> times.\<close>

lemma while_funpow:
  "(\<And>i. i < n \<Longrightarrow> b ((c ^^ i) s)) \<Longrightarrow> \<not> b ((c ^^ n) s) \<Longrightarrow> while b c s = (c ^^ n) s"
proof (induction n arbitrary: s)
  case (Suc n)
  have "while b c s = while b c (c s)" using Suc(2)[of 0] by (subst while_unfold) simp
  also have "\<dots> = (c ^^ n) (c s)"
  proof (rule Suc(1))
    fix i assume "i < n"
    then show "b ((c ^^ i) (c s))" using Suc(2)[of "Suc i"] by (simp add: funpow_swap1)
  next
    show "\<not> b ((c ^^ n) (c s))" using Suc(3) by (simp add: funpow_swap1)
  qed
  finally show ?case by (simp add: funpow_swap1)
qed (simp add: while_unfold)

lemma sha1_zeros_has:
  "sha1_has s m \<Longrightarrow> sha1_has ((sha1_process_byte (CHR 0x00) ^^ n) s) (m @ replicate n (CHR 0x00))"
proof (induction n)
  case (Suc n)
  then show ?case using sha1_byte_has[OF Suc(1)[OF Suc(2)], of "CHR 0x00"]
    by (simp add: replicate_append_same)
qed simp

lemma sha1_index: "sha1_has s m \<Longrightarrow> block_byte_index s = length m mod 64"
  by (simp add: sha1_has_def)

lemma sha1_zeros_index:
  "sha1_has s m \<Longrightarrow> block_byte_index ((sha1_process_byte (CHR 0x00) ^^ n) s) = (length m mod 64 + n) mod 64"
  using sha1_index[OF sha1_zeros_has[of s m n]] by (simp add: mod_add_left_eq)

text \<open>The loops of the padding stop, with as many zero bytes as the reference padding has.\<close>

lemma sha1_fill_56:
  assumes "sha1_has s m" "length m mod 64 \<le> 56"
  shows "while (\<lambda>s. block_byte_index s < 56) (sha1_process_byte (CHR 0x00)) s =
    (sha1_process_byte (CHR 0x00) ^^ (56 - length m mod 64)) s"
  by (rule while_funpow) (use assms(2) in \<open>simp_all add: sha1_zeros_index[OF assms(1)]\<close>)

lemma sha1_fill_0:
  assumes "sha1_has s m" "length m mod 64 \<noteq> 0"
  shows "while (\<lambda>s. block_byte_index s \<noteq> 0) (sha1_process_byte (CHR 0x00)) s =
    (sha1_process_byte (CHR 0x00) ^^ (64 - length m mod 64)) s"
proof (rule while_funpow)
  have "length m mod 64 < 64" by simp
  fix i assume "i < 64 - length m mod 64"
  then show "block_byte_index ((sha1_process_byte (CHR 0x00) ^^ i) s) \<noteq> 0"
    unfolding sha1_zeros_index[OF assms(1)] using assms(2) by simp
next
  show "\<not> block_byte_index ((sha1_process_byte (CHR 0x00) ^^ (64 - length m mod 64)) s) \<noteq> 0"
    unfolding sha1_zeros_index[OF assms(1)] by simp
qed

lemma sha1_fill:
  assumes h: "sha1_has s m"
  shows "sha1_has
    (if block_byte_index s > 56
     then while (\<lambda>s. block_byte_index s < 56) (sha1_process_byte (CHR 0x00))
            (while (\<lambda>s. block_byte_index s \<noteq> 0) (sha1_process_byte (CHR 0x00)) s)
     else while (\<lambda>s. block_byte_index s < 56) (sha1_process_byte (CHR 0x00)) s)
    (m @ replicate ((120 - length m mod 64) mod 64) (CHR 0x00))"
proof (cases "length m mod 64 > 56")
  case True
  define n where "n = 64 - length m mod 64"
  let ?s = "(sha1_process_byte (CHR 0x00) ^^ n) s"
  have n: "n < 8" "0 < n" using True by (simp_all add: n_def)
  have w: "while (\<lambda>s. block_byte_index s \<noteq> 0) (sha1_process_byte (CHR 0x00)) s = ?s"
    using sha1_fill_0[OF h] True by (simp add: n_def)
  have s: "sha1_has ?s (m @ replicate n (CHR 0x00))" by (rule sha1_zeros_has[OF h])
  have l: "length (m @ replicate n (CHR 0x00)) mod 64 = 0"
    using sha1_index[OF s] sha1_zeros_index[OF h, of n] by (simp add: n_def)
  have "(120 - length m mod 64) mod 64 = n + 56"
  proof -
    have "120 - length m mod 64 = n + 56" using mod_less_divisor[of 64 "length m"] by (simp add: n_def)
    then show ?thesis using n by simp
  qed
  then show ?thesis
    using sha1_zeros_has[OF s, of 56] sha1_fill_56[OF s] l True sha1_index[OF h] w
    by (simp add: replicate_add)
next
  case False
  then have "120 - length m mod 64 = 64 + (56 - length m mod 64)" by simp
  then have "(120 - length m mod 64) mod 64 = 56 - length m mod 64" by (simp only: mod_add_self1) simp
  then show ?thesis
    using sha1_zeros_has[OF h, of "56 - length m mod 64"] sha1_fill_56[OF h] sha1_index[OF h] False by simp
qed

lemma four_times: "(f ^^ 4) x = f (f (f (f x)))"
  by (simp add: eval_nat_numeral)

lemma le_bytes_zero: "le_bytes n 0 = replicate n (CHR 0x00)"
  by (induction n) (simp_all add: replicate_Suc[symmetric] char_of_def del: replicate_Suc)

lemma sha1_finish_is_spec:
  assumes h: "sha1_has s m"
  shows "sha1_bytes (fst (sha1_get_digest s)) = sha1_spec32 m" "length (block (snd (sha1_get_digest s))) = 64"
proof -
  let ?m1 = "m @ [CHR 0x80]"
  let ?z = "replicate ((120 - length ?m1 mod 64) mod 64) (CHR 0x00)"
  let ?len = "rev (le_bytes 4 (unat (byte_count s * 8 AND 0xFFFFFFFF)))"
  define s1 where "s1 = sha1_process_byte (CHR 0x80) s"
  define s2 where "s2 = (if block_byte_index s1 > 56
     then while (\<lambda>s. block_byte_index s < 56) (sha1_process_byte (CHR 0x00))
            (while (\<lambda>s. block_byte_index s \<noteq> 0) (sha1_process_byte (CHR 0x00)) s1)
     else while (\<lambda>s. block_byte_index s < 56) (sha1_process_byte (CHR 0x00)) s1)"
  define s3 where "s3 = fold sha1_process_byte ?len ((sha1_process_byte (CHR 0x00) ^^ 4) s2)"
  have "sha1_has s1 ?m1" using h by (simp add: s1_def sha1_byte_has)
  then have "sha1_has s2 (?m1 @ ?z)" unfolding s2_def by (rule sha1_fill)
  from sha1_bytes_has[OF sha1_zeros_has[OF this, of 4], of ?len]
  have s3: "sha1_has s3 (?m1 @ ?z @ replicate 4 (CHR 0x00) @ ?len)" by (simp add: s3_def)
  have g: "sha1_get_digest s = (sh s3, s3)"
    unfolding sha1_get_digest_def Let_def s1_def[symmetric] s2_def[symmetric] s3_def four_times prod.inject by simp
  have z: "(120 - length ?m1 mod 64) mod 64 = (119 - length m mod 64) mod 64"
  proof (cases "length m mod 64 = 63")
    case False
    then have "length m mod 64 + 1 < 64" using mod_less_divisor[of 64 "length m"] by linarith
    then have "length ?m1 mod 64 = length m mod 64 + 1" using mod_Suc[of "length m" 64] by simp
    then show ?thesis by simp
  qed (simp add: mod_Suc)
  have "unat (byte_count s * 8 AND 0xFFFFFFFF) = 8 * length m mod 2 ^ 32"
  proof -
    have b: "byte_count s * 8 = word_of_nat (8 * length m)" using h by (simp add: sha1_has_def mult.commute)
    have "byte_count s * 8 AND 0xFFFFFFFF = take_bit 32 (byte_count s * 8)"
      by (simp add: take_bit_eq_mask mask_eq_exp_minus_1)
    then show ?thesis
      unfolding b by (simp only: unsigned_take_bit_eq unsigned_of_nat take_bit_take_bit) (simp add: take_bit_eq_mod mod_mod_cancel)
  qed
  then have len: "?len = rev (le_bytes 4 (8 * length m))" using le_bytes_mod[of 4 "8 * length m"] by simp
  show "sha1_bytes (fst (sha1_get_digest s)) = sha1_spec32 m"
    using s3 unfolding g len z sha1_spec32_def sha1_padded32_def by (simp add: sha1_has_def)
  show "length (block (snd (sha1_get_digest s))) = 64" using s3 by (simp add: g sha1_has_def)
qed

lemma sha1_spec32_is_spec:
  assumes "length m < 2 ^ 29"
  shows "sha1_spec32 m = sha1_spec m"
proof -
  have "8 * length m div 256 ^ 4 = 0" using assms by simp
  then have "le_bytes (4 + 4) (8 * length m) = le_bytes 4 (8 * length m) @ replicate 4 (CHR 0x00)"
    by (simp only: le_bytes_split le_bytes_zero)
  then have "le_bytes 8 (8 * length m) = le_bytes 4 (8 * length m) @ replicate 4 (CHR 0x00)" by simp
  then show ?thesis by (simp add: sha1_spec32_def sha1_spec_def sha1_padded32_def sha1_padded_def)
qed

section \<open>Digests behind one interface\<close>

text \<open>
  What a \<open>message_digest\<close> promises: it stands for the message appended so far, \<open>readout\<close> gives the
  digest \<open>H\<close> of it and starts over. \<open>fits\<close> is what one call of \<open>append\<close> takes.
\<close>

locale digest =
  fixes fits :: "string \<Rightarrow> bool"
    and has :: "'d \<Rightarrow> string \<Rightarrow> bool"
    and H :: "string \<Rightarrow> string"
    and append :: "'d \<Rightarrow> string \<Rightarrow> 'd"
    and readout :: "'d \<Rightarrow> string \<times> 'd"
    and size :: nat
  assumes append: "has s m \<Longrightarrow> fits d \<Longrightarrow> has (append s d) (m @ d)"
    and readout: "has s m \<Longrightarrow> fst (readout s) = H m \<and> has (snd (readout s)) []"
    and fits_short: "length d \<le> 64 \<Longrightarrow> fits d"
    and size: "length (H m) = size" "size \<le> 64"
begin

lemma pieces: "has s m \<Longrightarrow> \<forall>d\<in>set ds. fits d \<Longrightarrow> has (fold (\<lambda>d s. append s d) ds s) (m @ concat ds)"
proof (induction ds arbitrary: s m)
  case (Cons d ds)
  then show ?case using Cons.IH[OF append[of s m d]] by simp
qed simp

lemma digest_of_pieces:
  "has s [] \<Longrightarrow> \<forall>d\<in>set ds. fits d \<Longrightarrow> fst (readout (fold (\<lambda>d s. append s d) ds s)) = H (concat ds)"
  using readout[OF pieces[of s "[]" ds]] by simp

end

lemma length_md5_bytes: "length (md5_bytes h) = 16"
  by (cases h) (simp add: md5_bytes_def)

lemma length_sha1_bytes: "length (sha1_bytes h) = 20"
  by (cases h) (simp add: sha1_bytes_def)

lemma md5_readout_has:
  assumes "md5_has s m"
  shows "fst (md5_readout s) = md5_spec m \<and> md5_has (snd (md5_readout s)) []"
proof -
  have "length (buf (snd (md5_finish s))) = 64"
    using md5_finish_has[OF assms] by (auto simp: md5_has_def)
  then show ?thesis
    using md5_finish_is_spec[OF assms] by (simp add: md5_readout_def case_prod_beta md5_init_has)
qed

interpretation md5: digest "\<lambda>d. length d < 2 ^ 31" md5_has md5_spec md5_append md5_readout 16
  by unfold_locales (auto simp: md5_append_has md5_readout_has md5_spec_def length_md5_bytes)

interpretation sha1: digest "\<lambda>_. True" sha1_has sha1_spec32 sha1_process_bytes sha1_readout 20
  by unfold_locales
    (auto simp: sha1_process_bytes_def sha1_bytes_has sha1_readout_def case_prod_beta sha1_finish_is_spec
      sha1_reset_has sha1_spec32_def length_sha1_bytes)

text \<open>The classes of \<open>crypto.cpp\<close> and their virtual functions.\<close>

datatype message_digest = Md5_digets md5_state | Sha1_digets sha1_state

primrec digest_size :: "message_digest \<Rightarrow> nat" where
  "digest_size (Md5_digets s) = 16"
| "digest_size (Sha1_digets s) = 20"

primrec block_size :: "message_digest \<Rightarrow> nat" where
  "block_size (Md5_digets s) = 64"
| "block_size (Sha1_digets s) = 64"

primrec digest_append :: "message_digest \<Rightarrow> string \<Rightarrow> message_digest" where
  "digest_append (Md5_digets s) d = Md5_digets (md5_append s d)"
| "digest_append (Sha1_digets s) d = Sha1_digets (sha1_process_bytes s d)"

primrec digest_readout :: "message_digest \<Rightarrow> string \<times> message_digest" where
  "digest_readout (Md5_digets s) = (case md5_readout s of (d, s) \<Rightarrow> (d, Md5_digets s))"
| "digest_readout (Sha1_digets s) = (case sha1_readout s of (d, s) \<Rightarrow> (d, Sha1_digets s))"

primrec digest_clone :: "string \<Rightarrow> message_digest \<Rightarrow> message_digest" where
  "digest_clone garbage (Md5_digets s) = Md5_digets (md5_init garbage)"
| "digest_clone garbage (Sha1_digets s) = Sha1_digets (sha1_new garbage)"

text \<open>\<open>create_by_name\<close>, built without libgcrypt and OpenSSL.\<close>

definition create_by_name :: "string \<Rightarrow> string \<Rightarrow> message_digest option" where
  "create_by_name garbage namein =
     (let name = map (\<lambda>c. if is_upper c then chr (byte c - 65 + 97) else c) namein
      in if name = ''md5'' then Some (Md5_digets (md5_init garbage))
         else if name = ''sha1'' then Some (Sha1_digets (sha1_new garbage))
         else None)"

text \<open>The contract of the interface, by the class of the object.\<close>

primrec digest_has :: "message_digest \<Rightarrow> string \<Rightarrow> bool" where
  "digest_has (Md5_digets s) m = md5_has s m"
| "digest_has (Sha1_digets s) m = sha1_has s m"

primrec digest_H :: "message_digest \<Rightarrow> string \<Rightarrow> string" where
  "digest_H (Md5_digets s) = md5_spec"
| "digest_H (Sha1_digets s) = sha1_spec32"

primrec is_md5 :: "message_digest \<Rightarrow> bool" where
  "is_md5 (Md5_digets s) = True"
| "is_md5 (Sha1_digets s) = False"

definition digest_fits :: "message_digest \<Rightarrow> string \<Rightarrow> bool" where
  "digest_fits md d \<longleftrightarrow> is_md5 md \<longrightarrow> length d < 2 ^ 31"

lemma is_md5_H: "is_md5 a = is_md5 b \<Longrightarrow> digest_H a = digest_H b"
  by (cases a; cases b) simp_all

lemma is_md5_size: "is_md5 a = is_md5 b \<Longrightarrow> digest_size a = digest_size b"
  by (cases a; cases b) simp_all

lemma is_md5_kept [simp]:
  "is_md5 (digest_append md d) = is_md5 md" "is_md5 (snd (digest_readout md)) = is_md5 md"
  "is_md5 (digest_clone g md) = is_md5 md"
  by (cases md; simp add: case_prod_beta)+

lemma block_size_64 [simp]: "block_size md = 64"
  by (cases md) simp_all

text \<open>Whichever class the object is of, it keeps the contract for its own digest.\<close>

interpretation by_class: digest "digest_fits md" "\<lambda>s m. is_md5 s = is_md5 md \<and> digest_has s m" "digest_H md"
  digest_append digest_readout "digest_size md" for md
proof (unfold_locales, goal_cases)
  case (1 s m d)
  then show ?case by (cases s) (auto simp: digest_fits_def md5.append sha1.append)
next
  case (2 s m)
  then show ?case
    by (cases s; cases md) (auto simp: case_prod_beta md5.readout sha1.readout)
next
  case (3 d)
  then show ?case by (simp add: digest_fits_def)
next
  case (4 m)
  show ?case by (cases md) (simp_all add: md5.size sha1.size)
next
  case 5
  show ?case by (cases md) simp_all
qed

section \<open>Keys\<close>

definition from_hex :: "char \<Rightarrow> nat" where
  "from_hex c =
     (if is_digit c then byte c - 48
      else if CHR ''a'' \<le> c \<and> c \<le> CHR ''f'' then byte c - 97 + 10
      else if CHR ''A'' \<le> c \<and> c \<le> CHR ''F'' then byte c - 65 + 10
      else 0)"

fun hex_pairs :: "string \<Rightarrow> string" where
  "hex_pairs (a # b # r) = chr (from_hex a * 16 + from_hex b) # hex_pairs r"
| "hex_pairs _ = []"

datatype key_error = Odd_length | Invalid_characters | Cannot_open | Empty_file | Too_small | No_such_hash

definition set_hex :: "string \<Rightarrow> key_error + string" where
  "set_hex s =
     (if s = [] then Inr []
      else if length s mod 2 \<noteq> 0 then Inl Odd_length
      else if \<not> list_all xdigit s then Inl Invalid_characters
      else Inr (hex_pairs s))"

text \<open>\<open>read_from_file\<close>, from what the file holds.\<close>

definition key_from_file :: "string option \<Rightarrow> key_error + string" where
  "key_from_file file =
     (case file of None \<Rightarrow> Inl Cannot_open
      | Some s \<Rightarrow>
          if s = [] then Inl Empty_file
          else set_hex (rev (dropWhile (\<lambda>c. c \<in> {CHR '' '', CHR 10, CHR 13, CHR 9}) (rev s))))"

definition to_hex :: "string \<Rightarrow> string" where
  "to_hex s = concat (map (\<lambda>c. [hex_lower (byte c div 16), hex_lower (byte c mod 16)]) s)"

lemma from_hex_lower: "n < 16 \<Longrightarrow> from_hex (hex_lower n) = n \<and> xdigit (hex_lower n)"
proof -
  have "\<forall>n \<in> set [0..<16]. from_hex (hex_lower n) = n \<and> xdigit (hex_lower n)" by code_simp
  then show "n < 16 \<Longrightarrow> ?thesis" by simp
qed

lemma hex_pairs_to_hex: "hex_pairs (to_hex s) = s \<and> list_all xdigit (to_hex s) \<and> length (to_hex s) = 2 * length s"
proof (induction s)
  case (Cons c s)
  have "byte c div 16 < 16" "byte c mod 16 < 16" using byte_div_16[of c] by simp_all
  moreover have "chr (byte c div 16 * 16 + byte c mod 16) = c" by simp
  ultimately show ?case using Cons from_hex_lower by (simp add: to_hex_def)
qed (simp add: to_hex_def)

section \<open>HMAC\<close>

record hmac =
  hkey :: string
  md :: message_digest
  md_opad :: message_digest

definition hmac_init :: "hmac \<Rightarrow> hmac" where
  "hmac_init h =
     (let bs = block_size (md h);
          (pad, md1) =
            (if length (hkey h) > bs then
               (case digest_readout (digest_append (md h) (hkey h)) of (d, md1) \<Rightarrow>
                  (d @ replicate (bs - length d) (CHR 0x00), md1))
             else (hkey h @ replicate (bs - length (hkey h)) (CHR 0x00), md h));
          ipad = map (\<lambda>c. chr (byte c XOR 0x36)) pad;
          opad = map (\<lambda>c. chr (byte c XOR 0x5c)) pad
      in h\<lparr>md_opad := digest_append (md_opad h) opad, md := digest_append md1 ipad\<rparr>)"

definition hmac_new :: "string \<Rightarrow> string \<Rightarrow> string \<Rightarrow> string \<Rightarrow> key_error + hmac" where
  "hmac_new g1 g2 name k =
     (case create_by_name g1 name of None \<Rightarrow> Inl No_such_hash
      | Some d \<Rightarrow> Inr (hmac_init \<lparr>hkey = k, md = d, md_opad = digest_clone g2 d\<rparr>))"

definition hmac_append :: "hmac \<Rightarrow> string \<Rightarrow> hmac" where
  "hmac_append h d = h\<lparr>md := digest_append (md h) d\<rparr>"

definition hmac_readout :: "hmac \<Rightarrow> string \<times> hmac" where
  "hmac_readout h =
     (let (d, md1) = digest_readout (md h);
          (out, opad1) = digest_readout (digest_append (md_opad h) d)
      in (out, hmac_init (h\<lparr>md := md1, md_opad := opad1\<rparr>)))"

subsection \<open>The authentication code of RFC 2104\<close>

definition hmac_block :: "(string \<Rightarrow> string) \<Rightarrow> string \<Rightarrow> string" where
  "hmac_block H k = (let k' = (if length k > 64 then H k else k) in k' @ replicate (64 - length k') (CHR 0x00))"

definition hmac_spec :: "(string \<Rightarrow> string) \<Rightarrow> string \<Rightarrow> string \<Rightarrow> string" where
  "hmac_spec H k m =
     H (map (\<lambda>c. chr (byte c XOR 0x5c)) (hmac_block H k) @
        H (map (\<lambda>c. chr (byte c XOR 0x36)) (hmac_block H k) @ m))"

definition hmac_has :: "message_digest \<Rightarrow> string \<Rightarrow> hmac \<Rightarrow> string \<Rightarrow> bool" where
  "hmac_has d k h m \<longleftrightarrow>
     hkey h = k \<and> is_md5 (md h) = is_md5 d \<and> is_md5 (md_opad h) = is_md5 d \<and>
     digest_has (md h) (map (\<lambda>c. chr (byte c XOR 0x36)) (hmac_block (digest_H d) k) @ m) \<and>
     digest_has (md_opad h) (map (\<lambda>c. chr (byte c XOR 0x5c)) (hmac_block (digest_H d) k))"

lemma length_hmac_block: "length (hmac_block (digest_H d) k) = 64"
  using by_class.size by (simp add: hmac_block_def Let_def)

lemma hmac_init_has:
  assumes "is_md5 (md h) = is_md5 d" "is_md5 (md_opad h) = is_md5 d" "digest_has (md h) []" "digest_has (md_opad h) []"
    and k: "hkey h = k" "digest_fits d k"
  shows "hmac_has d k (hmac_init h) []"
proof -
  have fits: "digest_fits d x" if "length x = 64" for x using that by (intro by_class.fits_short) simp
  define p where "p = hmac_block (digest_H d) k"
  let ?x = "\<lambda>n. map (\<lambda>c. chr (byte c XOR n)) p"
  have l: "length (?x n) = 64" for n by (simp add: p_def length_hmac_block)
  have opad: "digest_has (digest_append (md_opad h) (?x 0x5c)) (?x 0x5c)"
    using by_class.append[of "md_opad h" d "[]" "?x 0x5c"] assms(2,4) fits[OF l] by simp
  have "\<exists>md1. is_md5 md1 = is_md5 d \<and> digest_has md1 [] \<and>
      hmac_init h = h\<lparr>md_opad := digest_append (md_opad h) (?x 0x5c), md := digest_append md1 (?x 0x36)\<rparr>"
  proof (cases "length k > 64")
    case True
    let ?r = "digest_readout (digest_append (md h) k)"
    have a: "is_md5 (digest_append (md h) k) = is_md5 d \<and> digest_has (digest_append (md h) k) k"
      using by_class.append[of "md h" d "[]" k] assms(1,3) k(2) by simp
    have r: "fst ?r = digest_H d k \<and> is_md5 (snd ?r) = is_md5 d \<and> digest_has (snd ?r) []"
      using by_class.readout[OF a] by simp
    then obtain o' m' where rr: "?r = (o', m')" "o' = digest_H d k" by (cases ?r) simp
    have "p = o' @ replicate (64 - length o') (CHR 0x00)"
      using True rr(2) by (simp add: p_def hmac_block_def Let_def)
    then show ?thesis
      using r True rr k(1) by (intro exI[of _ m']) (simp add: hmac_init_def Let_def)
  next
    case False
    then have "p = k @ replicate (64 - length k) (CHR 0x00)" by (simp add: p_def hmac_block_def)
    then show ?thesis
      using False assms(1,3) k(1) by (intro exI[of _ "md h"]) (simp add: hmac_init_def Let_def)
  qed
  then obtain md1 where m: "is_md5 md1 = is_md5 d" "digest_has md1 []"
    "hmac_init h = h\<lparr>md_opad := digest_append (md_opad h) (?x 0x5c), md := digest_append md1 (?x 0x36)\<rparr>" by blast
  have "digest_has (digest_append md1 (?x 0x36)) (?x 0x36)"
    using by_class.append[of md1 d "[]" "?x 0x36"] m(1,2) fits[OF l] by simp
  then show ?thesis using m opad assms(2) k(1) by (simp add: hmac_has_def p_def)
qed

lemma hmac_append_has: "hmac_has d k h m \<Longrightarrow> digest_fits d x \<Longrightarrow> hmac_has d k (hmac_append h x) (m @ x)"
  using by_class.append[of "md h" d _ x] by (fastforce simp: hmac_has_def hmac_append_def)

lemma hmac_pieces_has:
  "hmac_has d k h m \<Longrightarrow> \<forall>x\<in>set xs. digest_fits d x \<Longrightarrow>
     hmac_has d k (fold (\<lambda>x h. hmac_append h x) xs h) (m @ concat xs)"
proof (induction xs arbitrary: h m)
  case (Cons x xs)
  then show ?case using Cons.IH[OF hmac_append_has[of d k h m x]] by simp
qed simp

lemma hmac_readout_has:
  assumes h: "hmac_has d k h m" and k: "digest_fits d k"
  shows "fst (hmac_readout h) = hmac_spec (digest_H d) k m \<and> hmac_has d k (snd (hmac_readout h)) []"
proof -
  let ?x = "\<lambda>n. map (\<lambda>c. chr (byte c XOR n)) (hmac_block (digest_H d) k)"
  have hs: "hkey h = k" "is_md5 (md h) = is_md5 d \<and> digest_has (md h) (?x 0x36 @ m)"
    "is_md5 (md_opad h) = is_md5 d \<and> digest_has (md_opad h) (?x 0x5c)"
    using h by (simp_all add: hmac_has_def)
  obtain i m1 where r1: "digest_readout (md h) = (i, m1)" by (cases "digest_readout (md h)")
  have i: "i = digest_H d (?x 0x36 @ m)" "is_md5 m1 = is_md5 d" "digest_has m1 []"
    using by_class.readout[OF hs(2)] by (simp_all add: r1)
  have "length i \<le> 64" using by_class.size by (simp add: i(1))
  then have a: "is_md5 (digest_append (md_opad h) i) = is_md5 d \<and> digest_has (digest_append (md_opad h) i) (?x 0x5c @ i)"
    by (intro by_class.append hs(3) by_class.fits_short)
  obtain out o1 where r2: "digest_readout (digest_append (md_opad h) i) = (out, o1)"
    by (cases "digest_readout (digest_append (md_opad h) i)")
  have o: "out = digest_H d (?x 0x5c @ i)" "is_md5 o1 = is_md5 d" "digest_has o1 []"
    using by_class.readout[OF a] by (simp_all add: r2)
  have "hmac_readout h = (out, hmac_init (h\<lparr>md := m1, md_opad := o1\<rparr>))"
    by (simp add: hmac_readout_def r1 r2)
  moreover have "hmac_has d k (hmac_init (h\<lparr>md := m1, md_opad := o1\<rparr>)) []"
    using i o hs(1) k by (intro hmac_init_has) simp_all
  ultimately show ?thesis by (simp add: o(1) i(1) hmac_spec_def)
qed

lemma digest_fits_class: "is_md5 a = is_md5 b \<Longrightarrow> digest_fits a = digest_fits b"
  by (simp add: digest_fits_def fun_eq_iff)

lemma create_by_name_has:
  "create_by_name g name = Some d \<Longrightarrow> length g = 64 \<Longrightarrow> digest_has d []"
  by (auto simp: create_by_name_def Let_def md5_init_has sha1_new_has split: if_splits)

lemma digest_clone_has: "length g = 64 \<Longrightarrow> digest_has (digest_clone g d) []"
  by (cases d) (simp_all add: md5_init_has sha1_new_has)

lemma hmac_new_has:
  assumes h: "hmac_new g1 g2 name k = Inr h" and d: "create_by_name g1 name = Some d" and g: "length g1 = 64" "length g2 = 64"
    and k: "digest_fits d k"
  shows "hmac_has d k h []"
  using h d g k create_by_name_has[OF d g(1)]
  by (auto simp: hmac_new_def intro!: hmac_init_has digest_clone_has)



text \<open>The upper half of the length is always written as 0: right below half a gigabyte only.\<close>

lemma sha1_length_is_cut:
  assumes "length m < 2 ^ 61"
  shows "sha1_padded32 m = sha1_padded m \<longleftrightarrow> length m < 2 ^ 29"
proof -
  define n where "n = 8 * length m"
  have e: "256 ^ 4 = (2 ^ 32 :: nat)" by simp
  have s: "le_bytes 8 n = le_bytes 4 n @ le_bytes 4 (n div 2 ^ 32)"
    using le_bytes_split[of 4 4 n] unfolding e by simp
  have inj: "le_bytes 4 a = le_bytes 4 b \<longleftrightarrow> a mod 2 ^ 32 = b mod 2 ^ 32" for a b
    by (metis e le_val_le_bytes le_bytes_mod)
  have "sha1_padded32 m = sha1_padded m \<longleftrightarrow> replicate 4 (CHR 0x00) = rev (le_bytes 4 (n div 2 ^ 32))"
    unfolding sha1_padded32_def sha1_padded_def n_def[symmetric] s by simp
  also have "\<dots> \<longleftrightarrow> le_bytes 4 0 = le_bytes 4 (n div 2 ^ 32)"
    by (metis le_bytes_zero rev_replicate rev_rev_ident)
  also have "\<dots> \<longleftrightarrow> n div 2 ^ 32 = 0" using assms unfolding inj by (simp add: n_def div_less_iff_less_mult)
  also have "\<dots> \<longleftrightarrow> length m < 2 ^ 29" by (simp add: n_def div_eq_0_iff)
  finally show ?thesis .
qed

section \<open>The cookie cipher\<close>

text \<open>\<open>hmac_cipher\<close>: the constructor and the code its \<open>encrypt\<close> and \<open>decrypt\<close> compute.\<close>

definition hmac_cipher :: "string \<Rightarrow> string \<Rightarrow> key_error + (string \<times> string)" where
  "hmac_cipher hash_name k = (if length k < 16 then Inl Too_small else Inr (hash_name, k))"

definition cipher_mac :: "string \<Rightarrow> string \<Rightarrow> string \<times> string \<Rightarrow> string \<Rightarrow> string" where
  "cipher_mac g1 g2 cipher plain =
     (case hmac_new g1 g2 (fst cipher) (snd cipher) of
        Inl e \<Rightarrow> []
      | Inr h \<Rightarrow> fst (hmac_readout (hmac_append h plain)))"

definition cipher_digest_size :: "string \<Rightarrow> string \<Rightarrow> string \<times> string \<Rightarrow> nat" where
  "cipher_digest_size g1 g2 cipher =
     (case hmac_new g1 g2 (fst cipher) (snd cipher) of Inl e \<Rightarrow> 0 | Inr h \<Rightarrow> digest_size (md h))"

definition cipher_config :: "string \<Rightarrow> string \<Rightarrow> string \<times> string \<Rightarrow> session_config \<Rightarrow> session_config" where
  "cipher_config g1 g2 cipher cfg =
     cfg\<lparr>mac := cipher_mac g1 g2 cipher, mac_size := cipher_digest_size g1 g2 cipher\<rparr>"

lemma length_digest_readout: "length (fst (digest_readout d)) = digest_size d"
  by (cases d)
    (simp_all add: case_prod_beta md5_readout_def md5_finish_def Let_def length_md5_bytes
      sha1_readout_def length_sha1_bytes)

lemma hmac_init_class: "is_md5 (md_opad (hmac_init h)) = is_md5 (md_opad h)" "is_md5 (md (hmac_init h)) = is_md5 (md h)"
  by (auto simp: hmac_init_def Let_def case_prod_beta)

lemma cipher_config_ok: "mac_ok (cipher_config g1 g2 c cfg)"
proof (cases "hmac_new g1 g2 (fst c) (snd c)")
  case (Inr h)
  have "is_md5 (md_opad h) = is_md5 (md h)"
    using Inr by (auto simp: hmac_new_def hmac_init_class split: option.splits)
  then have "is_md5 (digest_append (md_opad (hmac_append h x)) y) = is_md5 (md h)" for x y
    by (simp add: hmac_append_def)
  from is_md5_size[OF this] Inr show ?thesis
    by (simp add: mac_ok_def cipher_config_def cipher_mac_def cipher_digest_size_def hmac_readout_def
        case_prod_beta length_digest_readout)
qed (simp add: mac_ok_def cipher_config_def cipher_mac_def cipher_digest_size_def)

lemma cipher_mac_is_hmac:
  assumes "create_by_name g1 name = Some d" "length g1 = 64" "length g2 = 64" "digest_fits d k" "digest_fits d m"
  shows "cipher_mac g1 g2 (name, k) m = hmac_spec (digest_H d) k m"
proof -
  obtain h where h: "hmac_new g1 g2 name k = Inr h" using assms(1) by (simp add: hmac_new_def)
  have "hmac_has d k (hmac_append h m) m"
    using hmac_append_has[OF hmac_new_has[OF h assms(1-4)] assms(5)] by simp
  from hmac_readout_has[OF this assms(4)] show ?thesis by (simp add: cipher_mac_def h)
qed

text \<open>
  Property C33. With the \<open>hmac\<close> encryptor and a hash that exists, a session cookie is accepted only
  when the bytes it decodes to are some data followed by the RFC 2104 code of these data under the
  configured key, which has at least 16 bytes; what the session then holds is these data less the
  eight bytes of the expiry time, which has not passed.
\<close>

theorem accepted_cookie_has_hmac:
  assumes "hmac_cipher name k = Inr cipher" "create_by_name g1 name = Some d" "length g1 = 64" "length g2 = 64"
    "digest_fits d k" "length (snd (decode_string (drop 1 (request_cookie io)) [])) < 2 ^ 31"
    "cookies_load (cipher_config g1 g2 cipher cfg) now io = (Some (data, timeout), io')"
  shows "16 \<le> length k \<and>
    (\<exists>real. snd (decode_string (drop 1 (request_cookie io)) []) = real @ hmac_spec (digest_H d) k real \<and>
       data = drop 8 real \<and> now \<le> timeout)"
proof -
  have c: "cipher = (name, k)" "16 \<le> length k"
    using assms(1) by (auto simp: hmac_cipher_def split: if_splits)
  obtain real where r: "snd (decode_string (drop 1 (request_cookie io)) []) = real @ cipher_mac g1 g2 cipher real"
    "data = drop 8 real" "now \<le> timeout"
    using cookies_load_authentic[OF cipher_config_ok assms(7)] by (auto simp: cipher_config_def)
  have "digest_fits d real" using assms(6) r(1) by (simp add: digest_fits_def)
  then have "cipher_mac g1 g2 cipher real = hmac_spec (digest_H d) k real"
    using cipher_mac_is_hmac[OF assms(2-5)] c(1) by simp
  then show ?thesis using r c(2) by auto
qed

lemma accepted_cookie_has_hmac_witness:
  "\<exists>cookie real d. cookies_load (cipher_config (replicate 64 (CHR 0x00)) (replicate 64 (CHR 0x00))
       (''md5'', ''sixteen byte key'') example_config) 5 (example_io cookie) = (Some (''data'', 9), example_io cookie) \<and>
     snd (decode_string (drop 1 cookie) []) = real @ hmac_spec (digest_H d) ''sixteen byte key'' real"
proof -
  let ?z = "replicate 64 (CHR 0x00)"
  let ?cipher = "(''md5'', ''sixteen byte key'')"
  let ?cfg = "cipher_config ?z ?z ?cipher example_config"
  define m where "m = le_bytes 8 9 @ ''data''"
  define cookie where "cookie = ''C'' @ encode_string (hmac_encrypt ?cfg m)"
  have save: "cookies_save ?cfg ''data'' 9 False (example_io []) = (Inr (), set_session_cookie cookie (example_io []))"
    by (simp add: cookies_save_def cookie_def m_def)
  have load: "cookies_load ?cfg 5 (example_io cookie) = (Some (''data'', 9), example_io cookie)"
    by (rule cookies_load_saved[OF cipher_config_ok _ _ _ save])
      (simp_all add: example_io_def set_session_cookie_def)
  have n: "map (\<lambda>c. if is_upper c then chr (byte c - 65 + 97) else c) ''md5'' = ''md5''" by code_simp
  have d: "create_by_name ?z ''md5'' = Some (Md5_digets (md5_init ?z))"
    unfolding create_by_name_def Let_def n by simp
  have ne: "hmac_encrypt ?cfg m \<noteq> []" by (simp add: hmac_encrypt_def m_def)
  have c: "hmac_cipher ''md5'' ''sixteen byte key'' = Inr ?cipher" by (simp add: hmac_cipher_def)
  have f: "digest_fits (Md5_digets (md5_init ?z)) ''sixteen byte key''" by (simp add: digest_fits_def)
  have "cipher_mac ?z ?z ?cipher m = hmac_spec md5_spec ''sixteen byte key'' m"
    using cipher_mac_is_hmac[OF d _ _ f] by (simp add: digest_fits_def m_def)
  then have l: "length (snd (decode_string (drop 1 (request_cookie (example_io cookie))) [])) < 2 ^ 31"
    using ne by (simp add: cookie_def example_io_def decode_encode_string hmac_encrypt_def cipher_config_def m_def
        hmac_spec_def md5_spec_def length_md5_bytes)
  have z: "length ?z = 64" by simp
  obtain real where "snd (decode_string (drop 1 cookie) []) =
      real @ hmac_spec (digest_H (Md5_digets (md5_init ?z))) ''sixteen byte key'' real"
    using accepted_cookie_has_hmac[OF c d z z f l load] by (auto simp: example_io_def)
  then show ?thesis using load by blast
qed

end
