(* ===== verification/Archive.thy ===== *)
theory Archive
  imports Prelude
begin

text \<open>
  \<open>lib/cppcms/src/archive.cpp\<close> and the container traits of \<open>cppcms/archive_traits.h\<close>: the
  serialisation the blog uses to keep structured data in the page cache, and the
  \<open>serialize\<close> functions of the blog's own records (\<open>data/basic_master.h\<close>,
  \<open>data/blog/master.h\<close>). A chunk is a 32-bit little-endian length and that many bytes.
\<close>

record archive =
  buffer :: string
  ptr :: nat

type_synonym 'a loader = "(archive, 'a) action"
type_synonym 'a saver = "'a \<Rightarrow> archive \<Rightarrow> archive"

definition empty_archive :: archive where
  "empty_archive = \<lparr>buffer = [], ptr = 0\<rparr>"

definition str :: "string \<Rightarrow> archive" where
  "str s = \<lparr>buffer = s, ptr = 0\<rparr>"

section \<open>Chunks\<close>

definition write_chunk :: "string \<Rightarrow> archive \<Rightarrow> archive" where
  "write_chunk s a = a\<lparr>buffer := buffer a @ le_bytes 4 (length s) @ s\<rparr>"

definition eof :: "archive \<Rightarrow> bool" where
  "eof a \<longleftrightarrow> ptr a \<ge> length (buffer a)"

definition next_chunk_size :: "nat loader" where
  "next_chunk_size a =
     (if eof a then (Inl Archive_error, a)
      else if length (buffer a) - ptr a < 4 then (Inl Archive_error, a)
      else
        let sz = le_val (take 4 (drop (ptr a) (buffer a)))
        in if ptr a + sz \<ge> length (buffer a) then (Inl Archive_error, a) else (Inr sz, a))"

text \<open>
  The bytes of the chunk are read without another check, through \<open>c_str()\<close>: the byte behind
  the end of the buffer is the terminating zero, further on the read is undefined.
\<close>

definition chunk_bytes :: "nat \<Rightarrow> string loader" where
  "chunk_bytes sz a =
     (if ptr a + 4 + sz > length (buffer a) + 1 then (Inl Undefined_read, a)
      else (Inr (take sz (drop (ptr a + 4) (buffer a @ [CHR 0x00]))), a\<lparr>ptr := ptr a + 4 + sz\<rparr>))"

definition read_chunk :: "nat \<Rightarrow> string loader" where
  "read_chunk len =
     andThen next_chunk_size (\<lambda>next. if next \<noteq> len then throw Archive_error else chunk_bytes len)"

definition read_chunk_as_string :: "string loader" where
  "read_chunk_as_string = andThen next_chunk_size chunk_bytes"

section \<open>Values\<close>

definition save_string :: "string saver" where
  "save_string v = write_chunk v"

definition load_string :: "string loader" where
  "load_string = read_chunk_as_string"

definition save_int :: "int saver" where
  "save_int v = write_chunk (le_bytes 4 (nat (v mod 2 ^ 32)))"

definition load_int :: "int loader" where
  "load_int = andThen (read_chunk 4) (\<lambda>b. ret (to_int32 (int (le_val b))))"

definition save_size_t :: "nat saver" where
  "save_size_t v = write_chunk (le_bytes 8 v)"

definition load_size_t :: "nat loader" where
  "load_size_t = andThen (read_chunk 8) (\<lambda>b. ret (le_val b))"

definition archive_save_container :: "'a saver \<Rightarrow> 'a list saver" where
  "archive_save_container sv v a = fold sv v (save_size_t (length v) a)"

fun load_n :: "'a loader \<Rightarrow> nat \<Rightarrow> 'a list loader" where
  "load_n ld 0 = ret []"
| "load_n ld (Suc n) = andThen ld (\<lambda>x. andThen (load_n ld n) (\<lambda>xs. ret (x # xs)))"

definition archive_load_container :: "'a loader \<Rightarrow> 'a list loader" where
  "archive_load_container ld = andThen load_size_t (load_n ld)"

section \<open>The round-trip contract\<close>

text \<open>
  What a pair of traits functions promises: saving appends to the buffer whatever is there,
  and loading from the position where a valid value was saved gives it back and moves to the
  byte behind it, whatever follows.
\<close>

definition image :: "'a saver \<Rightarrow> 'a \<Rightarrow> string" where
  "image sv v = buffer (sv v empty_archive)"

locale archivable =
  fixes sv :: "'a \<Rightarrow> archive \<Rightarrow> archive"
    and ld :: "archive \<Rightarrow> (exn + 'a) \<times> archive"
    and valid :: "'a \<Rightarrow> bool"
  assumes save_appends: "sv v a = a\<lparr>buffer := buffer a @ image sv v\<rparr>"
    and load_image: "valid v \<Longrightarrow>
      ld \<lparr>buffer = pre @ image sv v @ rest, ptr = length pre\<rparr> =
        (Inr v, \<lparr>buffer = pre @ image sv v @ rest, ptr = length (pre @ image sv v)\<rparr>)"

context archivable
begin

lemma fold_save: "fold sv vs a = a\<lparr>buffer := buffer a @ concat (map (image sv) vs)\<rparr>"
proof (induction vs arbitrary: a)
  case (Cons v vs)
  then show ?case by (simp add: save_appends[of v a])
qed simp

lemma load_n_images:
  "list_all valid vs \<Longrightarrow>
     load_n ld (length vs) \<lparr>buffer = pre @ concat (map (image sv) vs) @ rest, ptr = length pre\<rparr> =
       (Inr vs, \<lparr>buffer = pre @ concat (map (image sv) vs) @ rest,
                 ptr = length (pre @ concat (map (image sv) vs))\<rparr>)"
proof (induction vs arbitrary: pre)
  case (Cons v vs)
  let ?all = "pre @ concat (map (image sv) (v # vs)) @ rest"
  have "ld \<lparr>buffer = ?all, ptr = length pre\<rparr> =
        (Inr v, \<lparr>buffer = ?all, ptr = length (pre @ image sv v)\<rparr>)"
    using load_image[of v pre "concat (map (image sv) vs) @ rest"] Cons.prems by simp
  moreover have "load_n ld (length vs) \<lparr>buffer = ?all, ptr = length (pre @ image sv v)\<rparr> =
      (Inr vs, \<lparr>buffer = ?all, ptr = length (pre @ concat (map (image sv) (v # vs)))\<rparr>)"
    using Cons.IH[of "pre @ image sv v"] Cons.prems by simp
  ultimately show ?case by (simp add: andThen_def)
qed simp

lemma load_saved: "valid v \<Longrightarrow> fst (ld (str (buffer (sv v empty_archive)))) = Inr v"
  using load_image[of v "[]" "[]"] by (simp add: str_def image_def)

end

lemma image_write_chunk: "buffer (write_chunk s a) = buffer a @ le_bytes 4 (length s) @ s"
  by (simp add: write_chunk_def)

lemma next_chunk_size_at:
  assumes "length s < 2 ^ 32"
  shows "next_chunk_size \<lparr>buffer = pre @ (le_bytes 4 (length s) @ s) @ rest, ptr = length pre\<rparr> =
     (Inr (length s), \<lparr>buffer = pre @ (le_bytes 4 (length s) @ s) @ rest, ptr = length pre\<rparr>)"
  using assms by (simp add: next_chunk_size_def eof_def Let_def le_val_le_bytes)

lemma chunk_bytes_at:
  "chunk_bytes (length s) \<lparr>buffer = pre @ (le_bytes 4 n @ s) @ rest, ptr = length pre\<rparr> =
     (Inr s, \<lparr>buffer = pre @ (le_bytes 4 n @ s) @ rest, ptr = length (pre @ le_bytes 4 n @ s)\<rparr>)"
  by (simp add: chunk_bytes_def)

lemma images:
  "image save_string v = le_bytes 4 (length v) @ v"
  "image save_int i = le_bytes 4 4 @ le_bytes 4 (nat (i mod 2 ^ 32))"
  "image save_size_t n = le_bytes 4 8 @ le_bytes 8 n"
  by (simp_all add: image_def write_chunk_def empty_archive_def save_string_def save_int_def
      save_size_t_def)

lemma read_chunk_at:
  assumes "length s < 2 ^ 32" "n = length s"
  shows "read_chunk n \<lparr>buffer = pre @ (le_bytes 4 (length s) @ s) @ rest, ptr = length pre\<rparr> =
     (Inr s, \<lparr>buffer = pre @ (le_bytes 4 (length s) @ s) @ rest,
              ptr = length (pre @ le_bytes 4 (length s) @ s)\<rparr>)"
  using next_chunk_size_at[OF assms(1), of pre rest] chunk_bytes_at[of s pre "length s" rest] assms(2)
  by (simp add: read_chunk_def andThen_def)

interpretation a_string: archivable save_string load_string "\<lambda>s. length s < 2 ^ 32"
proof unfold_locales
  show "save_string v a = a\<lparr>buffer := buffer a @ image save_string v\<rparr>" for v a
    by (simp add: images) (simp add: save_string_def write_chunk_def)
  show "load_string \<lparr>buffer = pre @ image save_string v @ rest, ptr = length pre\<rparr> =
      (Inr v, \<lparr>buffer = pre @ image save_string v @ rest, ptr = length (pre @ image save_string v)\<rparr>)"
    if "length v < 2 ^ 32" for v pre rest
    using next_chunk_size_at[OF that, of pre rest] chunk_bytes_at[of v pre "length v" rest]
    by (simp add: images load_string_def read_chunk_as_string_def andThen_def)
qed

lemma to_int32_mod: "to_int32 (v mod 2 ^ 32) = to_int32 v"
  by (simp add: to_int32_def mod_simps)

interpretation a_int: archivable save_int load_int "\<lambda>v. - (2 ^ 31) \<le> v \<and> v < 2 ^ 31"
proof unfold_locales
  show "save_int v a = a\<lparr>buffer := buffer a @ image save_int v\<rparr>" for v a
    by (simp add: images) (simp add: save_int_def write_chunk_def)
  show "load_int \<lparr>buffer = pre @ image save_int v @ rest, ptr = length pre\<rparr> =
      (Inr v, \<lparr>buffer = pre @ image save_int v @ rest, ptr = length (pre @ image save_int v)\<rparr>)"
    if "- (2 ^ 31) \<le> v \<and> v < 2 ^ 31" for v pre rest
  proof -
    let ?b = "le_bytes 4 (nat (v mod 2 ^ 32))"
    have im: "image save_int v = le_bytes 4 (length ?b) @ ?b"
      by (simp add: images)
    have "nat (v mod 2 ^ 32) < 256 ^ 4" by (simp add: nat_less_iff)
    then have "int (le_val ?b) = v mod 2 ^ 32" by (simp add: le_val_le_bytes)
    moreover have "to_int32 (v mod 2 ^ 32) = v" using that by (simp only: to_int32_mod to_int32_id)
    ultimately show ?thesis
      using read_chunk_at[of ?b 4 pre rest] unfolding im load_int_def
      by (simp add: andThen_def)
  qed
qed

interpretation a_size_t: archivable save_size_t load_size_t "\<lambda>n. n < 2 ^ 64"
proof unfold_locales
  show "save_size_t v a = a\<lparr>buffer := buffer a @ image save_size_t v\<rparr>" for v a
    by (simp add: images) (simp add: save_size_t_def write_chunk_def)
  show "load_size_t \<lparr>buffer = pre @ image save_size_t v @ rest, ptr = length pre\<rparr> =
      (Inr v, \<lparr>buffer = pre @ image save_size_t v @ rest, ptr = length (pre @ image save_size_t v)\<rparr>)"
    if "v < 2 ^ 64" for v pre rest
  proof -
    have im: "image save_size_t v = le_bytes 4 (length (le_bytes 8 v)) @ le_bytes 8 v"
      by (simp add: images)
    show ?thesis
      using read_chunk_at[of "le_bytes 8 v" 8 pre rest] that unfolding im load_size_t_def
      by (simp add: andThen_def le_val_le_bytes)
  qed
qed

section \<open>Containers, pairs and records\<close>

text \<open>
  A vector keeps the contract of its elements. (The rule is stated on the locale predicate:
  each vector type the blog stores interprets the locale with it.)
\<close>

lemma archivable_container:
  assumes "archivable sv ld valid"
  shows "archivable (archive_save_container sv) (archive_load_container ld)
           (\<lambda>vs. length vs < 2 ^ 64 \<and> list_all valid vs)"
proof -
  have im: "image (archive_save_container sv) vs = image save_size_t (length vs) @ concat (map (image sv) vs)" for vs
    by (simp add: image_def archive_save_container_def archivable.fold_save[OF assms] images)
  show ?thesis
  proof unfold_locales
    show "archive_save_container sv vs a = a\<lparr>buffer := buffer a @ image (archive_save_container sv) vs\<rparr>" for vs a
      by (simp add: im archive_save_container_def archivable.fold_save[OF assms]
          a_size_t.save_appends[of "length vs" a])
    show "archive_load_container ld \<lparr>buffer = pre @ image (archive_save_container sv) vs @ rest, ptr = length pre\<rparr> =
       (Inr vs, \<lparr>buffer = pre @ image (archive_save_container sv) vs @ rest,
                 ptr = length (pre @ image (archive_save_container sv) vs)\<rparr>)"
      if v: "length vs < 2 ^ 64 \<and> list_all valid vs" for vs pre rest
      using a_size_t.load_image[of "length vs" pre "concat (map (image sv) vs) @ rest"]
        archivable.load_n_images[OF assms, of vs "pre @ image save_size_t (length vs)" rest] v
      by (simp add: archive_load_container_def andThen_def im)
  qed
qed

definition save_pair :: "'a saver \<Rightarrow> 'b saver \<Rightarrow> ('a \<times> 'b) saver" where
  "save_pair s1 s2 p a = s2 (snd p) (s1 (fst p) a)"

definition load_pair :: "'a loader \<Rightarrow> 'b loader \<Rightarrow> ('a \<times> 'b) loader" where
  "load_pair l1 l2 = andThen l1 (\<lambda>x. andThen l2 (\<lambda>y. ret (x, y)))"

lemma archivable_pair:
  assumes 1: "archivable s1 l1 v1" and 2: "archivable s2 l2 v2"
  shows "archivable (save_pair s1 s2) (load_pair l1 l2) (\<lambda>(x, y). v1 x \<and> v2 y)"
proof -
  have app: "s2 y (s1 x a) = a\<lparr>buffer := buffer a @ image s1 x @ image s2 y\<rparr>" for x y a
    using archivable.save_appends[OF 2, of y "s1 x a"] archivable.save_appends[OF 1, of x a] by simp
  then have im: "image (save_pair s1 s2) p = image s1 (fst p) @ image s2 (snd p)" for p
    by (simp add: image_def[of "save_pair s1 s2"] save_pair_def empty_archive_def)
  show ?thesis
  proof unfold_locales
    show "save_pair s1 s2 p a = a\<lparr>buffer := buffer a @ image (save_pair s1 s2) p\<rparr>" for p a
      by (simp add: im) (simp add: save_pair_def app)
    show "load_pair l1 l2 \<lparr>buffer = pre @ image (save_pair s1 s2) p @ rest, ptr = length pre\<rparr> =
       (Inr p, \<lparr>buffer = pre @ image (save_pair s1 s2) p @ rest,
                ptr = length (pre @ image (save_pair s1 s2) p)\<rparr>)"
      if "case p of (x, y) \<Rightarrow> v1 x \<and> v2 y" for p pre rest
      using that archivable.load_image[OF 1, of "fst p" pre "image s2 (snd p) @ rest"]
        archivable.load_image[OF 2, of "snd p" "pre @ image s1 (fst p)" rest]
      by (cases p) (simp add: load_pair_def andThen_def im)
  qed
qed

text \<open>A record is saved as the tuple of its fields.\<close>

definition save_via :: "('r \<Rightarrow> 'a) \<Rightarrow> 'a saver \<Rightarrow> 'r saver" where
  "save_via f sv r = sv (f r)"

definition load_via :: "('a \<Rightarrow> 'r) \<Rightarrow> 'a loader \<Rightarrow> 'r loader" where
  "load_via g ld = andThen ld (\<lambda>x. ret (g x))"

lemma archivable_via:
  assumes "archivable sv ld valid" and "\<And>r. g (f r) = r"
  shows "archivable (save_via f sv) (load_via g ld) (\<lambda>r. valid (f r))"
proof -
  have im: "image (save_via f sv) r = image sv (f r)" for r
    by (simp add: image_def save_via_def)
  show ?thesis
  proof unfold_locales
    show "save_via f sv r a = a\<lparr>buffer := buffer a @ image (save_via f sv) r\<rparr>" for r a
      unfolding im by (simp add: save_via_def archivable.save_appends[OF assms(1), symmetric])
    show "load_via g ld \<lparr>buffer = pre @ image (save_via f sv) r @ rest, ptr = length pre\<rparr> =
       (Inr r, \<lparr>buffer = pre @ image (save_via f sv) r @ rest,
                ptr = length (pre @ image (save_via f sv) r)\<rparr>)"
      if "valid (f r)" for r pre rest
      using archivable.load_image[OF assms(1) that, of pre rest] assms(2)
      by (simp add: load_via_def andThen_def im)
  qed
qed

text \<open>
  The bounds test of \<open>next_chunk_size\<close> leaves out the four bytes of the length itself, so the
  last chunk of a truncated archive is read up to three bytes past the end of the buffer (the
  first of them is the terminating zero, the others are not the string's).
\<close>

lemma chunk_overrun:
  assumes "length pre + 4 + n < 2 ^ 32" "2 \<le> k" "k \<le> 3" "n \<ge> k"
    "length payload = n - k"
  shows "fst (read_chunk_as_string \<lparr>buffer = pre @ le_bytes 4 n @ payload, ptr = length pre\<rparr>) =
           Inl Undefined_read"
proof -
  have "n < 4294967296" using assms by simp
  then have "next_chunk_size \<lparr>buffer = pre @ le_bytes 4 n @ payload, ptr = length pre\<rparr> =
      (Inr n, \<lparr>buffer = pre @ le_bytes 4 n @ payload, ptr = length pre\<rparr>)"
    using assms by (simp add: next_chunk_size_def eof_def Let_def le_val_le_bytes) arith
  then show ?thesis
    using assms by (simp add: read_chunk_as_string_def andThen_def chunk_bytes_def)
qed

text \<open>
  A truncated archive is over-read: when the last chunk claims two or three bytes
  more than there are, \<open>next_chunk_size\<close> accepts it although its own four bytes are counted,
  and the read goes past the terminating zero of the string.
\<close>

theorem truncated_chunk_is_over_read:
  assumes "length pre + 4 + n < 2 ^ 32" "2 \<le> k" "k \<le> 3" "n \<ge> k" "length payload = n - k"
  shows "fst (next_chunk_size \<lparr>buffer = pre @ le_bytes 4 n @ payload, ptr = length pre\<rparr>) = Inr n \<and>
     fst (read_chunk_as_string \<lparr>buffer = pre @ le_bytes 4 n @ payload, ptr = length pre\<rparr>) =
           Inl Undefined_read"
  using assms chunk_overrun[OF assms] by (simp add: next_chunk_size_def eof_def Let_def le_val_le_bytes) arith

theorem truncated_chunk_is_over_read_witness:
  "fst (read_chunk_as_string \<lparr>buffer = le_bytes 4 5 @ ''abc'', ptr = 0\<rparr>) = Inl Undefined_read"
  using truncated_chunk_is_over_read[of "[]" 5 2 "''abc''"] by simp

end
