(* ===== verification/Blog_Data.thy ===== *)
theory Blog_Data
  imports Archive Http_Util
begin

text \<open>
  The data model of the blog (\<open>data/basic_master.h\<close>, \<open>data/basic_master.cpp\<close>,
  \<open>data/blog/master.h\<close>): the page arithmetic and the page links, the escaping of search words
  for SQL \<open>LIKE\<close>, and the two objects kept in the cache in serialised form.
\<close>

section \<open>Pages of a listing\<close>

record pager =
  page_records :: int
  page_size :: int
  curpage :: int
  page_total :: int

text \<open>
  \<open>ceil((double)n / (double)s)\<close> on two \<open>int\<close> values is the exact ceiling: a double holds both
  exactly, and a quotient that is not an integer differs from one by more than the rounding.
\<close>

definition ceil_div :: "int \<Rightarrow> int \<Rightarrow> int" where
  "ceil_div n s = - ((- n) div s)"

definition calc_pages :: "pager \<Rightarrow> pager" where
  "calc_pages p =
     (if page_records p \<noteq> 0 then
        let size = (if page_size p \<le> 0 then 10 else page_size p);
            total = ceil_div (page_records p) size
        in p\<lparr>page_size := size, page_total := total,
             curpage := (if curpage p < 0 then 0 else if curpage p \<ge> total then total - 1 else curpage p)\<rparr>
      else p\<lparr>page_total := 1, curpage := 0\<rparr>)"

lemma ceil_div_bounds:
  assumes "0 < s"
  shows "(ceil_div n s - 1) * s < n" and "n \<le> ceil_div n s * s"
proof -
  define q r where "q = (- n) div s" and "r = (- n) mod s"
  have m: "q * s + r = - n" "0 \<le> r" "r < s"
    using assms by (simp_all only: q_def r_def div_mult_mod_eq pos_mod_sign pos_mod_bound)
  then show "(ceil_div n s - 1) * s < n" "n \<le> ceil_div n s * s"
    by (simp_all add: ceil_div_def left_diff_distrib flip: q_def)
qed

lemma ceil_div_pos:
  assumes "0 < s" "0 < n"
  shows "0 < ceil_div n s"
proof (rule ccontr)
  assume "\<not> 0 < ceil_div n s"
  then have "ceil_div n s * s \<le> 0" using assms(1) by (simp add: mult_le_0_iff)
  then show False using ceil_div_bounds(2)[OF assms(1), of n] assms(2) by simp
qed

text \<open>The current page exists, and the rows it shows start inside the listing.\<close>

lemma calc_pages_range:
  "0 \<le> page_records p \<Longrightarrow> 0 \<le> curpage (calc_pages p) \<and> curpage (calc_pages p) < page_total (calc_pages p)"
  using ceil_div_pos[of "if page_size p \<le> 0 then 10 else page_size p" "page_records p"]
  by (auto simp: calc_pages_def Let_def)

lemma calc_pages_offset:
  assumes "0 < page_records p"
  shows "curpage (calc_pages p) * page_size (calc_pages p) < page_records p"
proof -
  let ?s = "if page_size p \<le> 0 then 10 else page_size p"
  have s: "0 < ?s" by simp
  have c: "curpage (calc_pages p) \<le> ceil_div (page_records p) ?s - 1" "page_size (calc_pages p) = ?s"
    using assms ceil_div_pos[OF s assms] by (auto simp: calc_pages_def Let_def)
  then have "curpage (calc_pages p) * ?s \<le> (ceil_div (page_records p) ?s - 1) * ?s"
    using s by (intro mult_right_mono) auto
  then show ?thesis using ceil_div_bounds(1)[OF s, of "page_records p"] c(2) by simp
qed

text \<open>Every row is on exactly one page.\<close>

lemma page_of_row:
  assumes "0 < page_records p" "0 < page_size p" "0 \<le> row" "row < page_records p"
  shows "row div page_size p < page_total (calc_pages p)"
proof -
  have t: "page_total (calc_pages p) = ceil_div (page_records p) (page_size p)"
    using assms by (simp add: calc_pages_def Let_def)
  have "row < ceil_div (page_records p) (page_size p) * page_size p"
    using ceil_div_bounds(2)[OF assms(2), of "page_records p"] assms(4) by simp
  show ?thesis
  proof (rule ccontr)
    assume "\<not> row div page_size p < page_total (calc_pages p)"
    then have "ceil_div (page_records p) (page_size p) * page_size p \<le> row div page_size p * page_size p"
      using assms(2) by (intro mult_right_mono) (auto simp: t)
    also have "\<dots> \<le> row"
      using div_mult_mod_eq[of row "page_size p"] pos_mod_sign[OF assms(2), of row] by linarith
    finally show False using \<open>row < ceil_div _ _ * _\<close> by simp
  qed
qed

section \<open>Page links\<close>

definition endl :: string where
  "endl = [CHR 0x0A]"

definition dquote :: string where
  "dquote = [CHR 0x22]"

definition multi_page_link :: "string \<Rightarrow> string \<Rightarrow> string \<Rightarrow> string \<Rightarrow> string" where
  "multi_page_link query_string url cls page =
     ''<a href='' @ dquote @ url @
     (if query_string \<noteq> [] then ''?'' @ query_string else []) @
     dquote @ '' class='' @ dquote @ cls @ dquote @ ''>'' @ page @ ''</a>'' @ endl"

definition span_cur :: "string \<Rightarrow> string" where
  "span_cur s = ''<span class='' @ dquote @ ''page cur'' @ dquote @ ''>'' @ s @ ''</span>'' @ endl"

text \<open>The first and the last page number shown, counted from 0.\<close>

definition window :: "pager \<Rightarrow> int \<times> int" where
  "window p =
     (let b = curpage p - 5;
          b = (if b < 0 then 0 else b);
          e = b + 9;
          e = (if e \<ge> page_total p then page_total p - 1 else e)
      in (b, e))"

text \<open>
  \<open>MULTI_PAGE\<close>: \<open>u0\<close> is \<open>app().url(args)\<close>, \<open>up b\<close> is \<open>app().url(args, b)\<close>, \<open>desc\<close> the
  translated text with the two totals.
\<close>

definition multi_page :: "string \<Rightarrow> string \<Rightarrow> (int \<Rightarrow> string) \<Rightarrow> (int \<Rightarrow> int \<Rightarrow> string) \<Rightarrow> pager \<Rightarrow> string" where
  "multi_page query_string u0 up desc p =
     ''<div class='' @ dquote @ ''multi-page'' @ dquote @ ''>'' @ endl @
     ''<span class='' @ dquote @ ''desc'' @ dquote @ ''>'' @ desc (page_total p) (page_records p) @ ''</span>'' @ endl @
     (if page_total p > 1 then
        (case window p of (b, e) \<Rightarrow>
          (if b > 0 then multi_page_link query_string u0 ''page first'' ''&laquo;'' else []) @
          concat (map (\<lambda>i. if i = curpage p then span_cur (dec (i + 1))
                            else multi_page_link query_string (if i = 0 then u0 else up i) ''page'' (dec (i + 1)))
                    [b..e]) @
          (if e < page_total p - 1
           then multi_page_link query_string (up (page_total p - 1)) ''page last'' ''&raquo;'' else []))
      else span_cur ''1'') @
     ''</div>''"

lemma window_range:
  assumes "0 \<le> curpage p" "curpage p < page_total p"
  shows "fst (window p) \<le> curpage p" and "curpage p \<le> snd (window p)"
    and "0 \<le> fst (window p)" and "snd (window p) < page_total p"
    and "snd (window p) - fst (window p) \<le> 9"
  using assms by (auto simp: window_def Let_def)

section \<open>Search words\<close>

text \<open>
  The loop of \<open>str_replace\<close>: it does not end when \<open>strsrc\<close> is empty, so its result is optional.
\<close>

partial_function (option) replace_loop :: "string \<Rightarrow> string \<Rightarrow> string \<Rightarrow> nat \<Rightarrow> string option" where
  "replace_loop strsrc strdst s pos =
     (case find_from s strsrc pos of
        None \<Rightarrow> Some s
      | Some i \<Rightarrow>
          replace_loop strsrc strdst (take i s @ strdst @ drop (i + length strsrc) s)
            (i + length strdst))"

definition str_replace :: "string \<Rightarrow> string \<Rightarrow> string \<Rightarrow> string option" where
  "str_replace s strsrc strdst = replace_loop strsrc strdst s 0"

definition mysql_like :: "string \<Rightarrow> string option" where
  "mysql_like s =
     (case str_replace s [CHR 0x5C] [CHR 0x5C, CHR 0x5C] of None \<Rightarrow> None | Some s1 \<Rightarrow>
     (case str_replace s1 ''_'' [CHR 0x5C, CHR ''_''] of None \<Rightarrow> None | Some s2 \<Rightarrow>
     (case str_replace s2 ''|'' [CHR 0x5C, CHR ''|''] of None \<Rightarrow> None | Some s3 \<Rightarrow>
     str_replace s3 ''%'' [CHR 0x5C, CHR ''%''])))"

text \<open>Replacing one character everywhere.\<close>

definition subst_char :: "char \<Rightarrow> string \<Rightarrow> string \<Rightarrow> string" where
  "subst_char c d s = concat (map (\<lambda>x. if x = c then d else [x]) s)"

lemma subst_char_simps [simp]:
  "subst_char c d [] = []"
  "subst_char c d (x # s) = (if x = c then d else [x]) @ subst_char c d s"
  "subst_char c d (s @ t) = subst_char c d s @ subst_char c d t"
  by (simp_all add: subst_char_def)

lemma find_char_split:
  "find_str [c] s = (if c \<in> set s then Some (length (takeWhile (\<lambda>x. x \<noteq> c) s)) else None)"
  by (induction s) auto

lemma replace_loop_char:
  "replace_loop [c] d (done @ s) (length done) = Some (done @ subst_char c d s)"
proof (induction "length s" arbitrary: "done" s rule: less_induct)
  case less
  define t where "t = takeWhile (\<lambda>x. x \<noteq> c) s"
  have nt: "subst_char c d t = t"
  proof -
    have "\<forall>x \<in> set t. x \<noteq> c" by (auto simp: t_def dest: set_takeWhileD)
    then show ?thesis by (induction t) auto
  qed
  show ?case
  proof (cases "dropWhile (\<lambda>x. x \<noteq> c) s")
    case Nil
    then have "s = t" by (metis t_def takeWhile_dropWhile_id append_Nil2)
    moreover have "find_from (done @ s) [c] (length done) = None"
      using Nil by (auto simp: find_from_def find_char_split)
    ultimately show ?thesis using nt by (subst replace_loop.simps) simp
  next
    case (Cons a r)
    have a: "a = c" using hd_dropWhile[of "\<lambda>x. x \<noteq> c" s] Cons by simp
    have s: "s = t @ c # r"
      using takeWhile_dropWhile_id[of "\<lambda>x. x \<noteq> c" s] unfolding Cons a t_def by (rule sym)
    have "c \<in> set s" using s by (metis in_set_conv_decomp)
    then have f: "find_from (done @ s) [c] (length done) = Some (length done + length t)"
      by (simp add: find_from_def find_char_split t_def)
    have "replace_loop [c] d (done @ s) (length done) =
        replace_loop [c] d ((done @ t @ d) @ r) (length (done @ t @ d))"
    proof (subst replace_loop.simps, simp add: f)
      have "take (length t) s = t" "drop (Suc (length t)) s = r" unfolding s by simp_all
      then show "replace_loop [c] d (done @ take (length t) s @ d @ drop (Suc (length t)) s)
          (length done + length t + length d) =
        replace_loop [c] d (done @ t @ d @ r) (length done + (length t + length d))"
        by (simp add: add.assoc)
    qed
    also have "\<dots> = Some ((done @ t @ d) @ subst_char c d r)"
      using arg_cong[OF s, of length] by (intro less) simp
    also have "(done @ t @ d) @ subst_char c d r = done @ subst_char c d (t @ c # r)"
      using nt by simp
    finally show ?thesis using s by (simp only:)
  qed
qed

lemma str_replace_char: "str_replace s [c] d = Some (subst_char c d s)"
  using replace_loop_char[of c d "[]" s] by (simp add: str_replace_def)

definition like_escape :: "char \<Rightarrow> string" where
  "like_escape c = (if c \<in> {CHR 0x5C, CHR ''_'', CHR ''|'', CHR ''%''} then [CHR 0x5C, c] else [c])"

lemma mysql_like_spec: "mysql_like s = Some (concat (map like_escape s))"
proof -
  have "subst_char (CHR ''%'') [CHR 0x5C, CHR ''%''] (subst_char (CHR ''|'') [CHR 0x5C, CHR ''|'']
      (subst_char (CHR ''_'') [CHR 0x5C, CHR ''_''] (subst_char (CHR 0x5C) [CHR 0x5C, CHR 0x5C] s))) =
    concat (map like_escape s)"
    by (induction s) (auto simp: like_escape_def)
  then show ?thesis by (simp add: mysql_like_def str_replace_char)
qed

section \<open>Objects kept in the cache\<close>

record general_info =
  blog_title :: string
  blog_description :: string
  contact :: string
  copyright_string :: string

definition empty_info :: general_info where
  "empty_info = \<lparr>blog_title = [], blog_description = [], contact = [], copyright_string = []\<rparr>"

definition general_info_fields :: "general_info \<Rightarrow> string \<times> string \<times> string \<times> string" where
  "general_info_fields i = (blog_title i, blog_description i, contact i, copyright_string i)"

definition general_info_of :: "string \<times> string \<times> string \<times> string \<Rightarrow> general_info" where
  "general_info_of = (\<lambda>(t, d, c, r). \<lparr>blog_title = t, blog_description = d, contact = c, copyright_string = r\<rparr>)"

definition save_general_info :: "general_info saver" where
  "save_general_info = save_via general_info_fields
     (save_pair save_string (save_pair save_string (save_pair save_string save_string)))"

definition load_general_info :: "general_info loader" where
  "load_general_info = load_via general_info_of
     (load_pair load_string (load_pair load_string (load_pair load_string load_string)))"

text \<open>\<open>basic_master::serialize\<close> keeps the number of records only.\<close>

definition save_records :: "int saver" where
  "save_records = save_int"

definition load_records :: "int loader" where
  "load_records = load_int"

record side_page =
  sp_id :: int
  sp_title :: string

record side_cat =
  sc_id :: int
  sc_name :: string
  sc_posts :: int

record sidebar_info =
  si_pages :: "side_page list"
  si_cats :: "side_cat list"

definition empty_sidebar :: sidebar_info where
  "empty_sidebar = \<lparr>si_pages = [], si_cats = []\<rparr>"

definition save_side_page :: "side_page saver" where
  "save_side_page = save_via (\<lambda>p. (sp_id p, sp_title p)) (save_pair save_int save_string)"

definition load_side_page :: "side_page loader" where
  "load_side_page = load_via (\<lambda>(i, t). \<lparr>sp_id = i, sp_title = t\<rparr>) (load_pair load_int load_string)"

definition save_side_cat :: "side_cat saver" where
  "save_side_cat = save_via (\<lambda>c. (sc_id c, sc_name c, sc_posts c))
     (save_pair save_int (save_pair save_string save_int))"

definition load_side_cat :: "side_cat loader" where
  "load_side_cat = load_via (\<lambda>(i, n, p). \<lparr>sc_id = i, sc_name = n, sc_posts = p\<rparr>)
     (load_pair load_int (load_pair load_string load_int))"

definition save_sidebar :: "sidebar_info saver" where
  "save_sidebar = save_via (\<lambda>s. (si_pages s, si_cats s))
     (save_pair (archive_save_container save_side_page) (archive_save_container save_side_cat))"

definition load_sidebar_info :: "sidebar_info loader" where
  "load_sidebar_info = load_via (\<lambda>(p, c). \<lparr>si_pages = p, si_cats = c\<rparr>)
     (load_pair (archive_load_container load_side_page) (archive_load_container load_side_cat))"

definition int_ok :: "int \<Rightarrow> bool" where
  "int_ok v \<longleftrightarrow> - (2 ^ 31) \<le> v \<and> v < 2 ^ 31"

definition str_ok :: "string \<Rightarrow> bool" where
  "str_ok s \<longleftrightarrow> length s < 2 ^ 32"

definition info_ok :: "general_info \<Rightarrow> bool" where
  "info_ok i \<longleftrightarrow> str_ok (blog_title i) \<and> str_ok (blog_description i) \<and> str_ok (contact i) \<and>
     str_ok (copyright_string i)"

definition sidebar_ok :: "sidebar_info \<Rightarrow> bool" where
  "sidebar_ok s \<longleftrightarrow>
     length (si_pages s) < 2 ^ 64 \<and> list_all (\<lambda>p. int_ok (sp_id p) \<and> str_ok (sp_title p)) (si_pages s) \<and>
     length (si_cats s) < 2 ^ 64 \<and>
     list_all (\<lambda>c. int_ok (sc_id c) \<and> str_ok (sc_name c) \<and> int_ok (sc_posts c)) (si_cats s)"

lemma archivable_weaken:
  "archivable sv ld P \<Longrightarrow> (\<And>v. Q v \<Longrightarrow> P v) \<Longrightarrow> archivable sv ld Q"
  by (simp add: archivable_def)

lemma a_str: "archivable save_string load_string str_ok"
  by (rule archivable_weaken[OF a_string.archivable_axioms]) (simp add: str_ok_def)

lemma a_int32: "archivable save_int load_int int_ok"
  by (rule archivable_weaken[OF a_int.archivable_axioms]) (simp add: int_ok_def)

interpretation a_info: archivable save_general_info load_general_info info_ok
proof -
  have "archivable save_general_info load_general_info
      (\<lambda>i. case general_info_fields i of (t, r) \<Rightarrow> str_ok t \<and>
        (case r of (d, r) \<Rightarrow> str_ok d \<and> (case r of (c, r) \<Rightarrow> str_ok c \<and> str_ok r)))"
    unfolding save_general_info_def load_general_info_def
    by (intro archivable_via archivable_pair a_str) (simp add: general_info_of_def general_info_fields_def)
  then show "archivable save_general_info load_general_info info_ok"
    by (rule archivable_weaken) (simp add: info_ok_def general_info_fields_def)
qed

lemma a_side_page: "archivable save_side_page load_side_page (\<lambda>p. int_ok (sp_id p) \<and> str_ok (sp_title p))"
proof -
  have "archivable save_side_page load_side_page (\<lambda>p. case (sp_id p, sp_title p) of (i, t) \<Rightarrow> int_ok i \<and> str_ok t)"
    unfolding save_side_page_def load_side_page_def by (intro archivable_via archivable_pair a_str a_int32) simp
  then show ?thesis by simp
qed

lemma a_side_cat:
  "archivable save_side_cat load_side_cat (\<lambda>c. int_ok (sc_id c) \<and> str_ok (sc_name c) \<and> int_ok (sc_posts c))"
proof -
  have "archivable save_side_cat load_side_cat (\<lambda>c. case (sc_id c, sc_name c, sc_posts c) of (i, r) \<Rightarrow>
      int_ok i \<and> (case r of (n, p) \<Rightarrow> str_ok n \<and> int_ok p))"
    unfolding save_side_cat_def load_side_cat_def by (intro archivable_via archivable_pair a_str a_int32) simp
  then show ?thesis by simp
qed

interpretation a_sidebar: archivable save_sidebar load_sidebar_info sidebar_ok
proof -
  have "archivable save_sidebar load_sidebar_info (\<lambda>s. case (si_pages s, si_cats s) of (p, c) \<Rightarrow>
      (length p < 2 ^ 64 \<and> list_all (\<lambda>p. int_ok (sp_id p) \<and> str_ok (sp_title p)) p) \<and>
      (length c < 2 ^ 64 \<and> list_all (\<lambda>c. int_ok (sc_id c) \<and> str_ok (sc_name c) \<and> int_ok (sc_posts c)) c))"
    unfolding save_sidebar_def load_sidebar_info_def
    by (intro archivable_via archivable_pair archivable_container a_side_page a_side_cat) simp
  then show "archivable save_sidebar load_sidebar_info sidebar_ok"
    by (rule archivable_weaken) (simp add: sidebar_ok_def)
qed

section \<open>What SQL finds\<close>

text \<open>
  \<open>LIKE\<close> with the escape character \<open>\\<close>, the default of MySQL and PostgreSQL; \<open>same\<close> is the
  collation's equality of characters.
\<close>

function like_match :: "(char \<Rightarrow> char \<Rightarrow> bool) \<Rightarrow> string \<Rightarrow> string \<Rightarrow> bool" where
  "like_match same [] s \<longleftrightarrow> s = []"
| "like_match same (p # ps) [] \<longleftrightarrow> p = CHR ''%'' \<and> like_match same ps []"
| "like_match same (p # ps) (c # s) \<longleftrightarrow>
     (if p = CHR ''%'' then like_match same ps (c # s) \<or> like_match same (p # ps) s
      else if p = CHR ''_'' then like_match same ps s
      else if p = CHR 0x5C \<and> ps \<noteq> [] then same (hd ps) c \<and> like_match same (tl ps) s
      else same p c \<and> like_match same ps s)"
  by pat_completeness auto
termination
  by (relation "measure (\<lambda>(_, p, s). length p + length s)") auto

lemma like_any: "like_match same [CHR ''%''] s"
  by (induction s) simp_all

lemma like_escape_match:
  "like_match same (like_escape c @ ps) s \<longleftrightarrow> (\<exists>x r. s = x # r \<and> same c x \<and> like_match same ps r)"
  by (cases s) (auto simp: like_escape_def)

lemma like_escaped:
  "like_match same (concat (map like_escape q) @ ps) s \<longleftrightarrow>
     (\<exists>m r. s = m @ r \<and> list_all2 same q m \<and> like_match same ps r)"
proof (induction q arbitrary: s)
  case (Cons c q)
  have "like_match same (concat (map like_escape (c # q)) @ ps) s \<longleftrightarrow>
      (\<exists>x m r. s = x # m @ r \<and> same c x \<and> list_all2 same q m \<and> like_match same ps r)"
    by (simp add: like_escape_match Cons.IH) blast
  also have "\<dots> \<longleftrightarrow> (\<exists>m r. s = m @ r \<and> list_all2 same (c # q) m \<and> like_match same ps r)"
    by (metis append_Cons list_all2_Cons1 list_all2_Cons)
  finally show ?case .
qed simp

lemma like_prefix_any:
  "like_match same (CHR ''%'' # ps) s \<longleftrightarrow> (\<exists>a r. s = a @ r \<and> like_match same ps r)"
proof (induction s)
  case (Cons c s)
  have "like_match same (CHR ''%'' # ps) (c # s) \<longleftrightarrow>
      like_match same ps (c # s) \<or> (\<exists>a r. s = a @ r \<and> like_match same ps r)"
    using Cons by simp
  also have "\<dots> \<longleftrightarrow> (\<exists>a r. c # s = a @ r \<and> like_match same ps r)"
    by (metis append_Cons append_Nil list.inject list.exhaust)
  finally show ?case .
qed simp

text \<open>
  Property C31. A search word is found literally: escaping it always ends, and a text matches
  \<open>%word%\<close> exactly when it contains the word, whatever wildcards or backslashes the word has.
\<close>

theorem search_word_is_literal:
  "\<exists>p. mysql_like q = Some p \<and>
     (\<forall>s. like_match same (''%'' @ p @ ''%'') s \<longleftrightarrow> (\<exists>a m b. s = a @ m @ b \<and> list_all2 same q m))"
  by (simp add: mysql_like_spec like_prefix_any like_escaped like_any) blast

text \<open>
  Property C30. The page arithmetic never leaves the listing: with records, the page shown
  starts at a record that exists and lies in the window of at most ten page links; every
  record is on one of the pages counted.
\<close>

theorem paging_stays_in_range:
  assumes "0 < page_records p"
  shows "let q = calc_pages p in
     0 \<le> curpage q * page_size q \<and> curpage q * page_size q < page_records p \<and>
     fst (window q) \<le> curpage q \<and> curpage q \<le> snd (window q) \<and>
     0 \<le> fst (window q) \<and> snd (window q) < page_total q \<and> snd (window q) - fst (window q) \<le> 9 \<and>
     (page_total q - 1) * page_size q < page_records p \<and> page_records p \<le> page_total q * page_size q"
proof -
  let ?s = "if page_size p \<le> 0 then 10 else page_size p"
  have s: "0 < ?s" by simp
  have q: "page_size (calc_pages p) = ?s" "page_total (calc_pages p) = ceil_div (page_records p) ?s"
    using assms by (simp_all add: calc_pages_def Let_def)
  have c: "0 \<le> curpage (calc_pages p)" "curpage (calc_pages p) < page_total (calc_pages p)"
    using calc_pages_range[of p] assms by simp_all
  show ?thesis
    using calc_pages_offset[OF assms] window_range[OF c] c(1) ceil_div_bounds[OF s, of "page_records p"]
    unfolding Let_def q by (auto intro: mult_nonneg_nonneg)
qed

theorem paging_stays_in_range_witness:
  "curpage (calc_pages \<lparr>page_records = 23, page_size = 10, curpage = 99, page_total = 1\<rparr>) * 10 < 23"
  using paging_stays_in_range[of "\<lparr>page_records = 23, page_size = 10, curpage = 99, page_total = 1\<rparr>"]
  by (simp add: calc_pages_def ceil_div_def Let_def)

text \<open>
  Property C32. What the cache keeps of the blog comes back: the general information and the
  sidebar are loaded from the bytes they were serialised to exactly as they were.
\<close>

theorem cached_objects_round_trip:
  assumes "info_ok i" and "sidebar_ok s"
  shows "fst (load_general_info (str (buffer (save_general_info i empty_archive)))) = Inr i \<and>
     fst (load_sidebar_info (str (buffer (save_sidebar s empty_archive)))) = Inr s"
  using a_info.load_image[OF assms(1), of "[]" "[]"] a_sidebar.load_image[OF assms(2), of "[]" "[]"]
  by (simp add: image_def str_def)

theorem cached_objects_round_trip_witness:
  "fst (load_sidebar_info (str (buffer (save_sidebar
      \<lparr>si_pages = [\<lparr>sp_id = 3, sp_title = ''About''\<rparr>],
       si_cats = [\<lparr>sc_id = -1, sc_name = ''C++'', sc_posts = 7\<rparr>]\<rparr> empty_archive)))) =
     Inr \<lparr>si_pages = [\<lparr>sp_id = 3, sp_title = ''About''\<rparr>],
       si_cats = [\<lparr>sc_id = -1, sc_name = ''C++'', sc_posts = 7\<rparr>]\<rparr>"
  using cached_objects_round_trip[of "\<lparr>blog_title = ''b'', blog_description = [], contact = [], copyright_string = []\<rparr>"
    "\<lparr>si_pages = [\<lparr>sp_id = 3, sp_title = ''About''\<rparr>],
      si_cats = [\<lparr>sc_id = -1, sc_name = ''C++'', sc_posts = 7\<rparr>]\<rparr>"]
  by (simp add: info_ok_def sidebar_ok_def str_ok_def int_ok_def)

end
