(* ===== verification/Http_Response.thy ===== *)
theory Http_Response
  imports Http_Util
begin

text \<open>
  The part of \<open>lib/cppcms/src/http_response.cpp\<close> the blog's handlers and the page cache use:
  the headers, the status, the moment the output stream is first requested (when the headers
  leave and can no longer be changed), the copy of the page kept for the cache and the
  decision to compress. What is left out: the asynchronous chunks, buffer sizes and the socket.
  Compression itself (zlib) is the parameter \<open>gz\<close> where it is needed.
\<close>

section \<open>State\<close>

record response =
  headers :: "string \<rightharpoonup> string"
  added_headers :: "string list"
  charset :: "string option"
  client_gzip :: bool
  io_mode_normal :: bool
  disable_compression :: bool
  ostream_requested :: bool
  copy_to_cache_flag :: bool
  finalized :: bool
  zbuf_open :: bool
  cached_open :: bool
  sent :: "((string \<rightharpoonup> string) \<times> string list) option"
  body :: string

text \<open>
  The header map compares names with \<open>protocol::compare\<close>, that is up to the case of the
  letters (\<open>compare_nocase_eq_0\<close>): the model keys it by the lower-case name.
\<close>

definition hkey :: "string \<Rightarrow> string" where
  "hkey name = map ascii_to_lower name"

definition set_header :: "string \<Rightarrow> string \<Rightarrow> response \<Rightarrow> response" where
  "set_header name v r =
     (if v = [] then r\<lparr>headers := (headers r)(hkey name := None)\<rparr>
      else r\<lparr>headers := (headers r)(hkey name \<mapsto> v)\<rparr>)"

definition get_header :: "string \<Rightarrow> response \<Rightarrow> string" where
  "get_header name r = (case headers r (hkey name) of Some v \<Rightarrow> v | None \<Rightarrow> [])"

definition erase_header :: "string \<Rightarrow> response \<Rightarrow> response" where
  "erase_header name r = r\<lparr>headers := (headers r)(hkey name := None)\<rparr>"

definition add_header :: "string \<Rightarrow> string \<Rightarrow> response \<Rightarrow> response" where
  "add_header name v r = r\<lparr>added_headers := added_headers r @ [name @ '': '' @ v]\<rparr>"

definition status_to_string :: "int \<Rightarrow> string" where
  "status_to_string s =
     (case map_of
        [(100, ''Continue''), (101, ''Switching Protocols''), (200, ''OK''), (201, ''Created''),
         (202, ''Accepted''), (203, ''Non-Authoritative Information''), (204, ''No Content''),
         (205, ''Reset Content''), (206, ''Partial Content''), (300, ''Multiple Choices''),
         (301, ''Moved Permanently''), (302, ''Found''), (303, ''See Other''),
         (304, ''Not Modified''), (305, ''Use Proxy''), (307, ''Temporary Redirect''),
         (400, ''Bad Request''), (401, ''Unauthorized''), (402, ''Payment Required''),
         (403, ''Forbidden''), (404, ''Not Found''), (405, ''Method Not Allowed''),
         (406, ''Not Acceptable''), (407, ''Proxy Authentication Required''),
         (408, ''Request Time-out''), (409, ''Conflict''), (410, ''Gone''),
         (411, ''Length Required''), (412, ''Precondition Failed''),
         (413, ''Request Entity Too Large''), (414, ''Request-URI Too Large''),
         (415, ''Unsupported Media Type''), (416, ''Requested range not satisfiable''),
         (417, ''Expectation Failed''), (500, ''Internal Server Error''),
         (501, ''Not Implemented''), (502, ''Bad Gateway''), (503, ''Service Unavailable''),
         (504, ''Gateway Time-out''), (505, ''HTTP Version not supported'')] s of
        Some t \<Rightarrow> t | None \<Rightarrow> ''Unknown'')"

definition status :: "int \<Rightarrow> response \<Rightarrow> response" where
  "status code = set_header ''Status'' (dec code @ '' '' @ status_to_string code)"

definition content_encoding :: "string \<Rightarrow> response \<Rightarrow> response" where
  "content_encoding = set_header ''Content-Encoding''"

definition content_type :: "string \<Rightarrow> response \<Rightarrow> response" where
  "content_type = set_header ''Content-Type''"

definition content_range :: "string \<Rightarrow> response \<Rightarrow> response" where
  "content_range = set_header ''Content-Range''"

definition accept_ranges :: "string \<Rightarrow> response \<Rightarrow> response" where
  "accept_ranges = set_header ''Accept-Ranges''"

definition cache_control :: "string \<Rightarrow> response \<Rightarrow> response" where
  "cache_control = set_header ''Cache-Control''"

definition age_header :: "nat \<Rightarrow> response \<Rightarrow> response" where
  "age_header seconds = set_header ''Age'' (dec (int seconds))"

definition etag :: "string \<Rightarrow> response \<Rightarrow> response" where
  "etag = set_header ''ETag''"

definition vary :: "string \<Rightarrow> response \<Rightarrow> response" where
  "vary = set_header ''Vary''"

definition location :: "string \<Rightarrow> response \<Rightarrow> response" where
  "location = set_header ''Location''"

text \<open>\<open>unsigned long long\<close>: a negative \<open>long\<close> wraps around.\<close>

definition content_length :: "int \<Rightarrow> response \<Rightarrow> response" where
  "content_length len = set_header ''Content-Length'' (dec (len mod 2 ^ 64))"

text \<open>The dated headers; \<open>http_time\<close> is \<open>make_http_time\<close>, the C library's date formatting.\<close>

definition date_headers ::
    "(int \<Rightarrow> string) \<Rightarrow> int \<Rightarrow> int \<Rightarrow> int \<Rightarrow> response \<Rightarrow> response" where
  "date_headers http_time t mtime expires r =
     set_header ''Expires'' (http_time expires)
       (set_header ''Last-Modified'' (http_time mtime) (set_header ''Date'' (http_time t) r))"

definition set_content_header :: "string \<Rightarrow> response \<Rightarrow> response" where
  "set_content_header ct r =
     (case charset r of
        None \<Rightarrow> set_header ''Content-Type'' ct r
      | Some cs \<Rightarrow> set_header ''Content-Type'' (ct @ ''; charset='' @ cs) r)"

text \<open>\<open>set_redirect_header(loc, s = found)\<close>: 302.\<close>

definition set_redirect_header :: "string \<Rightarrow> response \<Rightarrow> response" where
  "set_redirect_header loc r = status 302 (location loc r)"

section \<open>Output\<close>

definition need_gzip :: "response \<Rightarrow> bool" where
  "need_gzip r \<longleftrightarrow>
     \<not> disable_compression r \<and> io_mode_normal r \<and> client_gzip r \<and>
     get_header ''Content-Encoding'' r = [] \<and>
     is_prefix_of ''text/'' (get_header ''Content-Type'' r)"

definition copy_to_cache :: "response \<Rightarrow> response" where
  "copy_to_cache r = r\<lparr>copy_to_cache_flag := True\<rparr>"

text \<open>
  The two halves of \<open>out()\<close> at its first call: choose the compression; send the headers and
  stack the copying and the compressing buffers on the device. Between them
  \<open>write_http_headers\<close> saves the session, which is put in by \<open>Context.out\<close>.
\<close>

definition out_prepare :: "response \<Rightarrow> response" where
  "out_prepare r =
     (if need_gzip r then content_encoding ''gzip'' (r\<lparr>ostream_requested := True, zbuf_open := True\<rparr>)
      else r\<lparr>ostream_requested := True\<rparr>)"

definition out_send :: "response \<Rightarrow> response" where
  "out_send r = r\<lparr>sent := Some (headers r, added_headers r), cached_open := copy_to_cache_flag r\<rparr>"

definition write_out :: "string \<Rightarrow> response \<Rightarrow> response" where
  "write_out s r = r\<lparr>body := body r @ s\<rparr>"

definition copied_data :: "(string \<Rightarrow> string) \<Rightarrow> response \<Rightarrow> string" where
  "copied_data gz r =
     (if \<not> copy_to_cache_flag r \<or> \<not> ostream_requested r then []
      else if cached_open r then (if zbuf_open r then gz (body r) else body r) else [])"

text \<open>What the client gets: the sent headers and the body, compressed or not.\<close>

definition wire_body :: "(string \<Rightarrow> string) \<Rightarrow> response \<Rightarrow> string" where
  "wire_body gz r = (if zbuf_open r then gz (body r) else body r)"

definition error_page :: "int \<Rightarrow> string \<Rightarrow> string" where
  "error_page stat msg =
     ''<!DOCTYPE HTML PUBLIC '' @ [CHR 0x22] @ ''-//W3C//DTD HTML 4.01 Transitional//EN'' @
     [CHR 0x22, CHR 0x0A, CHR 0x09, CHR 0x22] @ ''http://www.w3.org/TR/html4/loose.dtd'' @
     [CHR 0x22] @ ''>'' @ [CHR 0x0A] @ ''<html>'' @ [CHR 0x0A] @ ''  <head>'' @ [CHR 0x0A] @
     ''    <title>'' @ dec stat @ '' &mdash; '' @ status_to_string stat @ ''</title>'' @ [CHR 0x0A] @
     ''  </head>'' @ [CHR 0x0A] @ ''  <body>'' @ [CHR 0x0A] @
     ''    <h1>'' @ dec stat @ '' &mdash; '' @ status_to_string stat @ ''</h1>'' @ [CHR 0x0A] @
     (if msg = [] then [] else ''    <p>'' @ escape msg @ ''</p>'' @ [CHR 0x0A]) @
     ''  </body>'' @ [CHR 0x0A] @ ''</html>'' @ [CHR 0x0A]"

section \<open>Headers\<close>

lemma hkey_eq_iff: "hkey a = hkey b \<longleftrightarrow> compare_nocase a b = 0"
  by (simp add: hkey_def compare_nocase_eq_0)

lemma get_set_header:
  "get_header a (set_header b v r) = (if compare_nocase a b = 0 then v else get_header a r)"
  by (auto simp: get_header_def set_header_def hkey_eq_iff[symmetric])

lemma set_header_frame [simp]:
  "ostream_requested (set_header a v r) = ostream_requested r"
  "finalized (set_header a v r) = finalized r"
  "body (set_header a v r) = body r"
  "sent (set_header a v r) = sent r"
  "copy_to_cache_flag (set_header a v r) = copy_to_cache_flag r"
  "cached_open (set_header a v r) = cached_open r"
  "zbuf_open (set_header a v r) = zbuf_open r"
  "added_headers (set_header a v r) = added_headers r"
  by (simp_all add: set_header_def)

text \<open>
  The copy taken for the cache is what went to the client, whether compressed or not, when it
  was asked for before the first output.
\<close>

lemma copied_is_wire:
  "cached_open r \<Longrightarrow> copy_to_cache_flag r \<Longrightarrow> ostream_requested r \<Longrightarrow> copied_data gz r = wire_body gz r"
  by (simp add: copied_data_def wire_body_def)

lemma out_prepare_frame [simp]:
  "copy_to_cache_flag (out_prepare r) = copy_to_cache_flag r"
  "body (out_prepare r) = body r"
  "ostream_requested (out_prepare r)"
  by (simp_all add: out_prepare_def content_encoding_def)

end
