(* ===== verification/Session_Interface.thy ===== *)
theory Session_Interface
  imports Session_Storage
begin

text \<open>
  \<open>lib/cppcms/src/session_interface.cpp\<close>: the session a request works with. It is loaded from
  its storage at the start of the request, changed by the handlers and saved when the response
  headers are written. Times are seconds; the clock \<open>now\<close> is an argument.
\<close>

section \<open>State\<close>

record entry =
  evalue :: string
  exposed :: bool

type_synonym session_data = "(string \<times> entry) list"

record 's session = "'s sess_io" +
  sdata :: session_data
  sdata_copy :: session_data
  timeout_val :: int
  how :: int
  timeout_in :: int
  new_session :: bool
  saved :: bool
  on_server_flag :: bool
  loaded :: bool
  reset_flag :: bool
  csrf_checked :: bool
  csrf_do_validation :: bool
  cookie_names :: "string list"

text \<open>The enumeration of \<open>session_interface.h\<close>.\<close>

definition fixed :: int where "fixed = 0"
definition renew :: int where "renew = 1"
definition browser :: int where "browser = 2"

section \<open>The data of a session as bytes\<close>

text \<open>
  The bit-field \<open>packed\<close>: ten bits for the size of the key, one for the exposed flag, 21 for
  the size of the value, from the least significant bit on.
\<close>

definition packed :: "nat \<Rightarrow> bool \<Rightarrow> nat \<Rightarrow> exn + string" where
  "packed ks e ds =
     (if ks \<ge> 1024 then Inl (Cppcms_error ''session::save key too long'')
      else if ds \<ge> 1024 * 1024 * 2 then Inl (Cppcms_error ''session::save value too long'')
      else Inr (le_bytes 4 (ks + 1024 * (if e then 1 else 0) + 2048 * ds)))"

definition unpack :: "string \<Rightarrow> exn + (nat \<times> bool \<times> nat)" where
  "unpack s =
     (if 4 \<le> length s
      then (let v = le_val (take 4 s) in Inr (v mod 1024, v div 1024 mod 2 = 1, v div 2048))
      else Inl (Cppcms_error ''session::format violation -> pack''))"

fun save_data :: "session_data \<Rightarrow> exn + string" where
  "save_data [] = Inr []"
| "save_data ((k, e) # d) =
     (case packed (length k) (exposed e) (length (evalue e)) of
        Inl x \<Rightarrow> Inl x
      | Inr header \<Rightarrow>
          (case save_data d of Inl x \<Rightarrow> Inl x | Inr s \<Rightarrow> Inr (header @ k @ evalue e @ s)))"

function load_entries :: "session_data \<Rightarrow> string \<Rightarrow> exn + session_data" where
  "load_entries d s =
     (if s = [] then Inr d
      else case unpack s of
        Inl x \<Rightarrow> Inl x
      | Inr (ks, e, ds) \<Rightarrow>
          (let r = drop 4 s in
           if ks + ds \<le> length r
           then load_entries (omap_set (take ks r) \<lparr>evalue = take ds (drop ks r), exposed = e\<rparr> d)
                  (drop (ks + ds) r)
           else Inl (Cppcms_error ''sessions::format violation data'')))"
  by pat_completeness auto
termination
  by (relation "measure (\<lambda>(d, s). length s)") auto

declare load_entries.simps [simp del]

definition load_data :: "string \<Rightarrow> exn + session_data" where
  "load_data s = load_entries [] s"

section \<open>Reading and changing a session\<close>

definition is_set :: "string \<Rightarrow> ('s, 'z) session_scheme \<Rightarrow> bool" where
  "is_set k s \<longleftrightarrow> map_of (sdata s) k \<noteq> None"

definition sget :: "string \<Rightarrow> ('s, 'z) session_scheme \<Rightarrow> exn + string" where
  "sget k s =
     (case map_of (sdata s) k of
        None \<Rightarrow> Inl (Cppcms_error (''Undefined session key '' @ k))
      | Some e \<Rightarrow> Inr (evalue e))"

definition sget_default :: "string \<Rightarrow> string \<Rightarrow> ('s, 'z) session_scheme \<Rightarrow> string" where
  "sget_default k d s = (case map_of (sdata s) k of None \<Rightarrow> d | Some e \<Rightarrow> evalue e)"

text \<open>
  \<open>get<int>\<close>: the whole value has to be a number that fits an \<open>int\<close>, after optional leading
  white space.
\<close>

definition parse_int :: "string \<Rightarrow> exn + int" where
  "parse_int s =
     (let t = dropWhile is_space s;
          (neg, ds) = (case t of
             c # r \<Rightarrow> if c = CHR ''-'' then (True, r) else if c = CHR ''+'' then (False, r) else (False, t)
           | [] \<Rightarrow> (False, []));
          v = (if neg then - digits_val ds else digits_val ds)
      in if ds = [] \<or> \<not> list_all is_digit ds \<or> v < - (2 ^ 31) \<or> 2 ^ 31 \<le> v then Inl Bad_cast
         else Inr v)"

definition sget_int :: "string \<Rightarrow> ('s, 'z) session_scheme \<Rightarrow> exn + int" where
  "sget_int k s = (case sget k s of Inl x \<Rightarrow> Inl x | Inr v \<Rightarrow> parse_int v)"

definition entry_of :: "string \<Rightarrow> session_data \<Rightarrow> entry" where
  "entry_of k d = (case map_of d k of Some e \<Rightarrow> e | None \<Rightarrow> \<lparr>evalue = [], exposed = False\<rparr>)"

definition sset :: "string \<Rightarrow> string \<Rightarrow> ('s, 'z) session_scheme \<Rightarrow> ('s, 'z) session_scheme" where
  "sset k v s = s\<lparr>sdata := omap_set k ((entry_of k (sdata s))\<lparr>evalue := v\<rparr>) (sdata s)\<rparr>"

definition sset_int :: "string \<Rightarrow> int \<Rightarrow> ('s, 'z) session_scheme \<Rightarrow> ('s, 'z) session_scheme" where
  "sset_int k v s = sset k (dec v) s"

definition serase :: "string \<Rightarrow> ('s, 'z) session_scheme \<Rightarrow> ('s, 'z) session_scheme" where
  "serase k s = s\<lparr>sdata := omap_erase k (sdata s)\<rparr>"

definition sclear :: "('s, 'z) session_scheme \<Rightarrow> ('s, 'z) session_scheme" where
  "sclear s = s\<lparr>sdata := []\<rparr>"

definition key_set :: "('s, 'z) session_scheme \<Rightarrow> string set" where
  "key_set s = {k \<in> fst ` set (sdata s). k = [] \<or> hd k \<noteq> CHR ''_''}"

definition is_exposed :: "string \<Rightarrow> ('s, 'z) session_scheme \<Rightarrow> bool" where
  "is_exposed k s = (case map_of (sdata s) k of Some e \<Rightarrow> exposed e | None \<Rightarrow> False)"

definition expose :: "string \<Rightarrow> bool \<Rightarrow> ('s, 'z) session_scheme \<Rightarrow> ('s, 'z) session_scheme" where
  "expose k b s = s\<lparr>sdata := omap_set k ((entry_of k (sdata s))\<lparr>exposed := b\<rparr>) (sdata s)\<rparr>"

definition hide :: "string \<Rightarrow> ('s, 'z) session_scheme \<Rightarrow> ('s, 'z) session_scheme" where
  "hide k s = expose k False s"

definition set_age :: "int \<Rightarrow> ('s, 'z) session_scheme \<Rightarrow> ('s, 'z) session_scheme" where
  "set_age t s = sset_int ''_t'' t (s\<lparr>timeout_val := t\<rparr>)"

definition default_age :: "session_config \<Rightarrow> ('s, 'z) session_scheme \<Rightarrow> ('s, 'z) session_scheme" where
  "default_age cfg s = (serase ''_t'' s)\<lparr>timeout_val := default_timeout cfg\<rparr>"

definition expiration :: "int \<Rightarrow> ('s, 'z) session_scheme \<Rightarrow> ('s, 'z) session_scheme" where
  "expiration h s = sset_int ''_h'' h (s\<lparr>how := h\<rparr>)"

definition default_expiration :: "session_config \<Rightarrow> ('s, 'z) session_scheme \<Rightarrow> ('s, 'z) session_scheme" where
  "default_expiration cfg s = (serase ''_h'' s)\<lparr>how := default_how cfg\<rparr>"

definition on_server :: "bool \<Rightarrow> ('s, 'z) session_scheme \<Rightarrow> ('s, 'z) session_scheme" where
  "on_server b s = sset_int ''_s'' (if b then 1 else 0) (s\<lparr>on_server_flag := b\<rparr>)"

definition reset_session :: "('s, 'z) session_scheme \<Rightarrow> ('s, 'z) session_scheme" where
  "reset_session s = s\<lparr>reset_flag := True\<rparr>"

section \<open>Loading\<close>

text \<open>The three special keys are read back after the data.\<close>

definition opt_int :: "string \<Rightarrow> (int \<Rightarrow> ('s, 'z) session_scheme \<Rightarrow> ('s, 'z) session_scheme) \<Rightarrow>
    (('s, 'z) session_scheme, unit) action" where
  "opt_int k f s =
     (if is_set k s
      then (case sget_int k s of Inl x \<Rightarrow> (Inl x, s) | Inr v \<Rightarrow> (Inr (), f v s))
      else (Inr (), s))"

definition load_special :: "(('s, 'z) session_scheme, unit) action" where
  "load_special =
     andThen (opt_int ''_t'' (\<lambda>v s. s\<lparr>timeout_val := v\<rparr>)) (\<lambda>_.
     andThen (opt_int ''_h'' (\<lambda>v s. s\<lparr>how := v\<rparr>)) (\<lambda>_.
     opt_int ''_s'' (\<lambda>v s. s\<lparr>on_server_flag := v mod 2 = 1\<rparr>)))"

definition load :: "'s storage_ops \<Rightarrow> session_config \<Rightarrow> int \<Rightarrow> (('s, 'z) session_scheme, bool) action" where
  "load ops cfg now s =
     (if loaded s then (Inr False, s)
      else
        let s0 = s\<lparr>loaded := True, sdata := [], sdata_copy := [], timeout_val := default_timeout cfg,
                   how := default_how cfg, saved := False, on_server_flag := False\<rparr>
        in case api_load ops cfg now s0 of
             (None, s1) \<Rightarrow> (Inr False, s1)
           | (Some (ar, t), s1) \<Rightarrow>
               (case load_data ar of
                  Inl x \<Rightarrow> (Inl x, s1\<lparr>timeout_in := t\<rparr>)
                | Inr d \<Rightarrow>
                    andThen load_special (\<lambda>_. ret True)
                      (s1\<lparr>timeout_in := t, sdata := d, sdata_copy := d\<rparr>)))"

section \<open>Saving\<close>

definition cookie_age :: "int \<Rightarrow> ('s, 'z) session_scheme \<Rightarrow> int" where
  "cookie_age now s =
     (if how s = browser then 0
      else if how s = renew \<or> how s = fixed \<and> new_session s then timeout_val s
      else to_int32 (timeout_in s - now))"

definition session_age :: "int \<Rightarrow> ('s, 'z) session_scheme \<Rightarrow> int" where
  "session_age now s =
     (if how s = browser \<or> how s = renew \<or> how s = fixed \<and> new_session s then timeout_val s + now
      else timeout_in s)"

text \<open>\<open>update_exposed\<close>: the cookies of the exposed keys to send and the ones to delete.\<close>

definition exposed_changed :: "bool \<Rightarrow> session_data \<Rightarrow> string \<times> entry \<Rightarrow> bool" where
  "exposed_changed force old p =
     (case p of (k, e) \<Rightarrow>
        exposed e \<and> (force \<or> (case map_of old k of None \<Rightarrow> True
                                | Some e2 \<Rightarrow> \<not> exposed e2 \<or> evalue e \<noteq> evalue e2)))"

definition hidden_now :: "bool \<Rightarrow> session_data \<Rightarrow> session_data \<Rightarrow> string set" where
  "hidden_now force old d =
     set (map fst (filter (\<lambda>(k, e). \<not> exposed e \<and>
             ((case map_of old k of None \<Rightarrow> False | Some e2 \<Rightarrow> exposed e2) \<or> force)) d)) \<union>
     set (map fst (filter (\<lambda>(k, e). exposed e \<and> map_of d k = None) old))"

definition unknown_cookies :: "session_config \<Rightarrow> string list \<Rightarrow> session_data \<Rightarrow> string set" where
  "unknown_cookies cfg names d =
     (if remove_unknown_cookies cfg
      then (let prefix = cookie_prefix cfg @ ''_''
            in set (filter (\<lambda>k. case map_of d k of None \<Rightarrow> True | Some e \<Rightarrow> \<not> exposed e)
                 (map (drop (length prefix)) (filter (starts_with prefix) names))))
      else {})"

definition removed_cookies :: "session_config \<Rightarrow> string list \<Rightarrow> bool \<Rightarrow> session_data \<Rightarrow> session_data \<Rightarrow> string set" where
  "removed_cookies cfg names force old d = hidden_now force old d \<union> unknown_cookies cfg names d"

definition update_exposed :: "session_config \<Rightarrow> int \<Rightarrow> bool \<Rightarrow> ('s, 'z) session_scheme \<Rightarrow> ('s, 'z) session_scheme" where
  "update_exposed cfg now force s =
     (let sent = fold (\<lambda>(k, e) s. send_cookie (cookie_age now s) (evalue e) k s)
                   (filter (exposed_changed force (sdata_copy s)) (sdata s)) s
      in fold (\<lambda>k s. send_cookie (- 1) [] k s)
           (sorted_list_of_set (removed_cookies cfg (cookie_names s) force (sdata_copy s) (sdata s))) sent)"

definition generate_csrf_token :: "session_config \<Rightarrow> ('s, 'z) session_scheme \<Rightarrow> string \<times> ('s, 'z) session_scheme" where
  "generate_csrf_token cfg s =
     (let (bs, s) = random_bytes cfg 6 s in (map of_uc (encode (map of_nat bs)), s))"

definition add_csrf :: "session_config \<Rightarrow> ('s, 'z) session_scheme \<Rightarrow> ('s, 'z) session_scheme" where
  "add_csrf cfg s =
     (if new_session s \<and> csrf_enable cfg
      then (let (tok, s) = generate_csrf_token cfg s; s = sset ''_csrf'' tok s
            in if csrf_exposed cfg then expose ''_csrf'' True s else s)
      else s)"

text \<open>
  Nothing changed: a fixed session is left alone, a renewed one only rewritten when more than
  a tenth of its life has passed. (\<open>timeout_val * 0.1\<close> is a double; compared with an integer it
  decides as the exact tenth.)
\<close>

definition no_renewal :: "int \<Rightarrow> ('s, 'z) session_scheme \<Rightarrow> bool" where
  "no_renewal now s \<longleftrightarrow>
     how s = fixed \<or>
     (how s = renew \<or> how s = browser) \<and> 10 * (now + timeout_val s - timeout_in s) < timeout_val s"

definition store_session :: "'s storage_ops \<Rightarrow> session_config \<Rightarrow> int \<Rightarrow> bool \<Rightarrow> (('s, 'z) session_scheme, unit) action" where
  "store_session ops cfg now force s =
     (case save_data (sdata s) of
        Inl x \<Rightarrow> (Inl x, s)
      | Inr ar \<Rightarrow>
          andThen (\<lambda>s. api_save ops cfg now ar (session_age now s) (new_session s) (on_server_flag s)
                         (s\<lparr>temp_cookie := []\<rparr>))
            (\<lambda>_ s. (Inr (), (update_exposed cfg now force
                      ((send_cookie (cookie_age now s) (temp_cookie s) [] s)\<lparr>temp_cookie := []\<rparr>))
                        \<lparr>saved := True\<rparr>)) s)"

definition save :: "'s storage_ops \<Rightarrow> session_config \<Rightarrow> int \<Rightarrow> (('s, 'z) session_scheme, unit) action" where
  "save ops cfg now s =
     (if \<not> loaded s \<or> saved s then (Inr (), s)
      else
        let s1 = s\<lparr>new_session := sdata_copy s = [] \<and> sdata s \<noteq> [] \<or> reset_flag s\<rparr> in
        if sdata s1 = []
        then (Inr (), update_exposed cfg now True
                        (if request_cookie s1 \<noteq> [] then api_clear ops cfg now s1 else s1))
        else
          let s2 = add_csrf cfg s1;
              same = (sdata s2 = sdata_copy s2 \<and> \<not> new_session s2)
          in if same \<and> no_renewal now s2 then (Inr (), s2) else store_session ops cfg now same s2)"

section \<open>Request forgery\<close>

definition get_csrf_token :: "('s, 'z) session_scheme \<Rightarrow> string" where
  "get_csrf_token s = sget_default ''_csrf'' [] s"

definition validate_csrf_token :: "string \<Rightarrow> ('s, 'z) session_scheme \<Rightarrow> bool" where
  "validate_csrf_token tok s \<longleftrightarrow> get_csrf_token s = [] \<or> get_csrf_token s = tok"

definition validate_request_origin ::
    "session_config \<Rightarrow> string \<Rightarrow> (string \<times> string) list \<Rightarrow> string \<Rightarrow> (('s, 'z) session_scheme, unit) action" where
  "validate_request_origin cfg request_method post header s =
     (if csrf_checked s then (Inr (), s)
      else
        let s1 = s\<lparr>csrf_checked := True\<rparr> in
        if \<not> csrf_enable cfg \<or> \<not> csrf_do_validation s1 \<or> request_method \<noteq> ''POST'' then (Inr (), s1)
        else
          let tok = (case filter (\<lambda>(k, v). k = ''_csrf'') post of [(_, v)] \<Rightarrow> v | _ \<Rightarrow> header)
          in if validate_csrf_token tok s1 then (Inr (), s1) else (Inl Request_forgery_error, s1))"

section \<open>The data of a session survives the trip\<close>

lemma packed_InrD:
  assumes "packed ks e ds = Inr h"
  shows "unpack (h @ r) = Inr (ks, e, ds)" and "length h = 4"
proof -
  define b :: nat where "b = (if e then 1 else 0)"
  have ks: "ks < 1024" and ds: "ds < 2097152" and h: "h = le_bytes 4 (ks + 1024 * b + 2048 * ds)"
    using assms by (auto simp: packed_def b_def split: if_splits)
  have b: "b < 2" "(b = 1) = e" by (simp_all add: b_def)
  show len: "length h = 4" unfolding h by (rule length_le_bytes)
  then have "le_val (take 4 (h @ r)) = le_val h" by simp
  also have "\<dots> = (ks + 1024 * b + 2048 * ds) mod 256 ^ 4"
    unfolding h by (rule le_val_le_bytes)
  also have "\<dots> = ks + 1024 * b + 2048 * ds" using ks ds b by simp
  finally have v: "le_val (take 4 (h @ r)) = ks + 1024 * b + 2048 * ds" .
  define m where "m = b + 2 * ds"
  have n: "ks + 1024 * b + 2048 * ds = ks + 1024 * m" by (simp add: m_def)
  have dm: "(ks + 1024 * m) mod 1024 = ks" "(ks + 1024 * m) div 1024 = m" using ks by simp_all
  have "(ks + 1024 * m) div 2048 = m div 2" using div_mult2_eq[of "ks + 1024 * m" 1024 2] dm by simp
  moreover have "m div 2 = ds" "m mod 2 = b" using b(1) by (simp_all add: m_def)
  ultimately show "unpack (h @ r) = Inr (ks, e, ds)"
    using len b(2) dm by (simp only: unpack_def v n Let_def length_append) simp
qed

lemma entry_eta [simp]: "\<lparr>evalue = evalue e, exposed = exposed e\<rparr> = e"
  by (cases e) simp

lemma load_entries_saved:
  "save_data d = Inr s \<Longrightarrow> omap_ok (acc @ d) \<Longrightarrow> load_entries acc s = Inr (acc @ d)"
proof (induction d arbitrary: acc s rule: save_data.induct)
  case 1
  then show ?case by (simp add: load_entries.simps)
next
  case (2 k e d)
  obtain h t where h: "packed (length k) (exposed e) (length (evalue e)) = Inr h"
    and t: "save_data d = Inr t" and s: "s = h @ k @ evalue e @ t"
    using 2(2) by (auto split: sum.splits)
  have "omap_ok (acc @ [(k, e)])"
    using 2(3) by (simp add: omap_ok_def sorted_wrt_append)
  then have ins: "omap_set k e acc = acc @ [(k, e)]" by (rule omap_set_append)
  have "load_entries acc s = load_entries (omap_set k \<lparr>evalue = evalue e, exposed = exposed e\<rparr> acc) t"
    using packed_InrD(1)[OF h, of "k @ evalue e @ t"] packed_InrD(2)[OF h]
    by (subst load_entries.simps) (auto simp: s Let_def)
  also have "\<dots> = Inr ((acc @ [(k, e)]) @ d)"
    using 2(1)[OF h t, of "acc @ [(k, e)]"] 2(3) ins by simp
  finally show ?case by simp
qed

lemma load_saved_data: "omap_ok d \<Longrightarrow> save_data d = Inr s \<Longrightarrow> load_data s = Inr d"
  using load_entries_saved[of d s "[]"] by (simp add: load_data_def)

definition fits :: "session_data \<Rightarrow> bool" where
  "fits d \<longleftrightarrow> (\<forall>(k, e) \<in> set d. length k < 1024 \<and> length (evalue e) < 1024 * 1024 * 2)"

lemma save_data_fits: "(\<exists>s. save_data d = Inr s) \<longleftrightarrow> fits d"
  by (induction d rule: save_data.induct)
     (auto simp: fits_def packed_def split: sum.splits if_splits)

lemma parse_int_dec: "- (2 ^ 31) \<le> v \<Longrightarrow> v < 2 ^ 31 \<Longrightarrow> parse_int (dec v) = Inr v"
proof -
  assume v: "- (2 ^ 31) \<le> v" "v < 2 ^ 31"
  show ?thesis
  proof (cases "v < 0")
    case True
    have "\<not> is_space (CHR ''-'')" by (simp add: is_space_def)
    then show ?thesis using True v
      by (simp add: parse_int_def dec_def digits_val_dec_nat dec_nat_digits Let_def)
  next
    case False
    obtain c r where cr: "dec_nat (nat v) = c # r" by (cases "dec_nat (nat v)") auto
    then have "is_digit c" using dec_nat_digits[of "nat v"] by simp
    then have c: "\<not> is_space c" "c \<noteq> CHR ''-''" "c \<noteq> CHR ''+''"
      by (auto dest: is_digit_not_space is_digit_not_sign)
    have "digits_val (c # r) = v" "list_all is_digit (c # r)"
      using digits_val_dec_nat[of "nat v"] dec_nat_digits[of "nat v"] cr False by simp_all
    then show ?thesis using cr c False v by (simp add: parse_int_def dec_def Let_def)
  qed
qed

section \<open>The fields of a session\<close>

lemma send_cookie_store [simp]: "sstore (send_cookie a d k s) = sstore s"
  by (simp add: send_cookie_def)

lemma session_of_more:
  fixes s s' :: "('s, 'z) session_scheme"
  assumes "sess_io.more s = sess_io.more s'"
  shows "sdata s = sdata s'" "sdata_copy s = sdata_copy s'" "timeout_val s = timeout_val s'"
    "how s = how s'" "timeout_in s = timeout_in s'" "new_session s = new_session s'"
    "saved s = saved s'" "on_server_flag s = on_server_flag s'" "loaded s = loaded s'"
    "reset_flag s = reset_flag s'" "cookie_names s = cookie_names s'"
  using assms by (cases s; cases s'; simp)+

lemma sset_fields [simp]:
  "sstore (sset k v s) = sstore s" "request_cookie (sset k v s) = request_cookie s"
  "sdata_copy (sset k v s) = sdata_copy s" "loaded (sset k v s) = loaded s"
  "saved (sset k v s) = saved s" "reset_flag (sset k v s) = reset_flag s"
  "cookies_out (sset k v s) = cookies_out s"
  by (simp_all add: sset_def)

lemma expose_fields [simp]:
  "sstore (expose k b s) = sstore s" "request_cookie (expose k b s) = request_cookie s"
  "sdata_copy (expose k b s) = sdata_copy s" "loaded (expose k b s) = loaded s"
  "saved (expose k b s) = saved s" "reset_flag (expose k b s) = reset_flag s"
  "cookies_out (expose k b s) = cookies_out s"
  by (simp_all add: expose_def)

lemma map_of_sset [simp]:
  "map_of (sdata (sset k v s)) = (map_of (sdata s))(k \<mapsto> (entry_of k (sdata s))\<lparr>evalue := v\<rparr>)"
  by (simp add: sset_def omap_simps)

lemma is_set_sset [simp]: "is_set k (sset k' v s) \<longleftrightarrow> k = k' \<or> is_set k s"
  by (simp add: is_set_def)

lemma sget_sset [simp]: "sget k (sset k' v s) = (if k = k' then Inr v else sget k s)"
  by (simp add: sget_def)

lemma map_of_expose [simp]:
  "map_of (sdata (expose k b s)) = (map_of (sdata s))(k \<mapsto> (entry_of k (sdata s))\<lparr>exposed := b\<rparr>)"
  by (simp add: expose_def omap_simps)

lemma sget_expose: "is_set k' s \<Longrightarrow> sget k (expose k' b s) = sget k s"
  by (auto simp: sget_def is_set_def entry_of_def split: option.splits)

lemma sset_omap_ok [inv_intros]: "omap_ok (sdata s) \<Longrightarrow> omap_ok (sdata (sset k v s))"
  by (simp add: sset_def omap_ok_set)

lemma expose_omap_ok [inv_intros]: "omap_ok (sdata s) \<Longrightarrow> omap_ok (sdata (expose k b s))"
  by (simp add: expose_def omap_ok_set)

lemma serase_omap_ok [inv_intros]: "omap_ok (sdata s) \<Longrightarrow> omap_ok (sdata (serase k s))"
  by (simp add: serase_def omap_ok_erase)

lemma sclear_omap_ok [inv_intros]: "omap_ok (sdata (sclear s))"
  by (simp add: sclear_def)

section \<open>A session is found again\<close>

definition specials_ok :: "session_data \<Rightarrow> bool" where
  "specials_ok d \<longleftrightarrow> (\<forall>k \<in> {''_t'', ''_h'', ''_s''}. \<forall>e. map_of d k = Some e \<longrightarrow>
     (\<exists>v. - (2 ^ 31) \<le> v \<and> v < 2 ^ 31 \<and> evalue e = dec v))"

lemma opt_int_ok:
  assumes "\<And>e. map_of (sdata s) k = Some e \<Longrightarrow>
      \<exists>v. - (2 ^ 31) \<le> v \<and> v < 2 ^ 31 \<and> evalue e = dec v"
    and "\<And>v s. sdata (f v s) = sdata s"
  obtains s' where "opt_int k f s = (Inr (), s')" "sdata s' = sdata s"
proof (cases "map_of (sdata s) k")
  case None
  then show ?thesis using that by (simp add: opt_int_def is_set_def)
next
  case (Some e)
  then obtain v where "sget_int k s = Inr v"
    using assms(1)[OF Some] parse_int_dec by (auto simp: sget_int_def sget_def)
  then show ?thesis using that Some assms(2) by (simp add: opt_int_def is_set_def)
qed

lemma load_special_ok:
  assumes "specials_ok (sdata s)"
  obtains s' where "load_special s = (Inr (), s')" "sdata s' = sdata s"
proof -
  have sp: "map_of (sdata s) k = Some e \<Longrightarrow> \<exists>v. - (2 ^ 31) \<le> v \<and> v < 2 ^ 31 \<and> evalue e = dec v"
    if "k \<in> {''_t'', ''_h'', ''_s''}" for k e
    using assms that unfolding specials_ok_def by blast
  obtain s1 where s1: "opt_int ''_t'' (\<lambda>v s. s\<lparr>timeout_val := v\<rparr>) s = (Inr (), s1)" "sdata s1 = sdata s"
    by (rule opt_int_ok[of s "''_t''" "\<lambda>v s. s\<lparr>timeout_val := v\<rparr>"]) (use sp in auto)
  obtain s2 where s2: "opt_int ''_h'' (\<lambda>v s. s\<lparr>how := v\<rparr>) s1 = (Inr (), s2)" "sdata s2 = sdata s"
    by (rule opt_int_ok[of s1 "''_h''" "\<lambda>v s. s\<lparr>how := v\<rparr>"]) (use sp s1 in auto)
  obtain s3 where s3: "opt_int ''_s'' (\<lambda>v s. s\<lparr>on_server_flag := v mod 2 = 1\<rparr>) s2 = (Inr (), s3)"
    "sdata s3 = sdata s"
    by (rule opt_int_ok[of s2 "''_s''" "\<lambda>v s. s\<lparr>on_server_flag := v mod 2 = 1\<rparr>"]) (use sp s2 in auto)
  show ?thesis
    using that s1 s2 s3 by (simp add: load_special_def andThen_Inr)
qed

lemma fold_send_fields:
  "sstore (fold (\<lambda>k s. send_cookie a [] k s) ks s) = sstore s"
  "sess_io.more (fold (\<lambda>k s. send_cookie a [] k s) ks s) = sess_io.more s"
  "set (cookies_out s) \<subseteq> set (cookies_out (fold (\<lambda>k s. send_cookie a [] k s) ks s))"
  by (simp_all add: fold_keeps[where g = sstore] fold_keeps[where g = sess_io.more])
     (rule fold_grows[where Q = "\<lambda>s. set (cookies_out s)"], auto simp: send_cookie_def)

lemma fold_expose_fields:
  "sstore (fold (\<lambda>(k, e) s. send_cookie (cookie_age now s) (evalue e) k s) ds s) = sstore s"
  "sess_io.more (fold (\<lambda>(k, e) s. send_cookie (cookie_age now s) (evalue e) k s) ds s) = sess_io.more s"
  "set (cookies_out s) \<subseteq> set (cookies_out (fold (\<lambda>(k, e) s. send_cookie (cookie_age now s) (evalue e) k s) ds s))"
  by (simp_all add: split_beta fold_keeps[where g = sstore] fold_keeps[where g = sess_io.more])
     (rule fold_grows[where Q = "\<lambda>s. set (cookies_out s)"], auto simp: send_cookie_def)

lemma update_exposed_fields:
  "sstore (update_exposed cfg now force s) = sstore s"
  "sess_io.more (update_exposed cfg now force s) = sess_io.more s"
  "set (cookies_out s) \<subseteq> set (cookies_out (update_exposed cfg now force s))"
proof -
  let ?a = "fold (\<lambda>(k, e) s. send_cookie (cookie_age now s) (evalue e) k s)
      (filter (exposed_changed force (sdata_copy s)) (sdata s)) s"
  show "sstore (update_exposed cfg now force s) = sstore s"
    "sess_io.more (update_exposed cfg now force s) = sess_io.more s"
    by (simp_all add: update_exposed_def Let_def fold_send_fields fold_expose_fields)
  show "set (cookies_out s) \<subseteq> set (cookies_out (update_exposed cfg now force s))"
    unfolding update_exposed_def Let_def
    by (rule subset_trans[OF fold_expose_fields(3) fold_send_fields(3)])
qed

lemma store_session_result:
  assumes "store_session ops cfg now force s = (Inr (), s')"
  obtains ar io1 where "save_data (sdata s) = Inr ar"
    "api_save ops cfg now ar (session_age now s) (new_session s) (on_server_flag s)
       (s\<lparr>temp_cookie := []\<rparr>) = (Inr (), io1)"
    "sstore s' = sstore io1" "sdata s' = sdata s" "saved s'"
    "\<exists>age. ([], urlencode (temp_cookie io1), age) \<in> set (cookies_out s')"
proof -
  obtain ar where ar: "save_data (sdata s) = Inr ar"
    using assms by (cases "save_data (sdata s)") (auto simp: store_session_def)
  let ?save = "api_save ops cfg now ar (session_age now s) (new_session s) (on_server_flag s)
       (s\<lparr>temp_cookie := []\<rparr>)"
  obtain io1 where io1: "?save = (Inr (), io1)"
    using assms ar by (auto simp: store_session_def andThen_Inr_iff)
  let ?c = "(send_cookie (cookie_age now io1) (temp_cookie io1) [] io1)\<lparr>temp_cookie := []\<rparr>"
  have s': "s' = (update_exposed cfg now force ?c)\<lparr>saved := True\<rparr>"
    using assms ar io1 by (simp add: store_session_def andThen_Inr)
  have "sess_io.more io1 = sess_io.more s"
    using api_more(1)[of ops cfg now ar "session_age now s" "new_session s" "on_server_flag s"
        "s\<lparr>temp_cookie := []\<rparr>"] io1 by simp
  then have more: "sess_io.more (update_exposed cfg now force ?c) = sess_io.more s"
    by (simp add: update_exposed_fields)
  show ?thesis
  proof (rule that[OF ar io1])
    show "sstore s' = sstore io1" by (simp add: s' update_exposed_fields send_cookie_def)
    show "sdata s' = sdata s" using session_of_more(1)[OF more] by (simp add: s')
    show "saved s'" by (simp add: s')
    have "([], urlencode (temp_cookie io1), if temp_cookie io1 = [] then - 1 else cookie_age now io1)
        \<in> set (cookies_out ?c)"
      by (simp add: send_cookie_def)
    then show "\<exists>age. ([], urlencode (temp_cookie io1), age) \<in> set (cookies_out s')"
      using update_exposed_fields(3)[of ?c cfg now force] by (auto simp: s')
  qed
qed

lemma stored_session_loads:
  fixes s s' :: "(mem_storage, 'z) session_scheme"
  assumes cfg: "mac_ok cfg" and st: "storage_ok (sstore s)"
    and d: "omap_ok (sdata s)" "specials_ok (sdata s)"
    and t: "now \<le> t" "t \<le> session_age now s"
      "- (2 ^ 63) \<le> session_age now s" "session_age now s < 2 ^ 63"
    and save: "store_session memory_ops cfg now force s = (Inr (), s')"
  obtains c age where "([], urlencode c, age) \<in> set (cookies_out s')"
    "\<And>s2 :: (mem_storage, 'z) session_scheme.
       request_cookie s2 = c \<Longrightarrow> sstore s2 = sstore s' \<Longrightarrow> \<not> loaded s2 \<Longrightarrow>
         fst (load memory_ops cfg t s2) = Inr True \<and> sdata (snd (load memory_ops cfg t s2)) = sdata s"
proof -
  obtain ar io1 where ar: "save_data (sdata s) = Inr ar"
    and io1: "api_save memory_ops cfg now ar (session_age now s) (new_session s) (on_server_flag s)
       (s\<lparr>temp_cookie := []\<rparr>) = (Inr (), io1)"
    and s': "sstore s' = sstore io1"
    and c: "\<exists>age. ([], urlencode (temp_cookie io1), age) \<in> set (cookies_out s')"
    using store_session_result[OF save] by metis
  have "fst (load memory_ops cfg t s2) = Inr True \<and> sdata (snd (load memory_ops cfg t s2)) = sdata s"
    if s2: "request_cookie s2 = temp_cookie io1" "sstore s2 = sstore s'" "\<not> loaded s2"
    for s2 :: "(mem_storage, 'z) session_scheme"
  proof -
    let ?s0 = "s2\<lparr>loaded := True, sdata := [], sdata_copy := [], timeout_val := default_timeout cfg,
                   how := default_how cfg, saved := False, on_server_flag := False\<rparr>"
    have ld: "api_load memory_ops cfg t ?s0 = (Some (ar, session_age now s), ?s0)"
      by (rule mem_store.api_load_saved[OF cfg _ t io1]) (use st s2 s' in simp_all)
    let ?s1 = "?s0\<lparr>timeout_in := session_age now s, sdata := sdata s, sdata_copy := sdata s\<rparr>"
    have "specials_ok (sdata ?s1)" using d(2) by simp
    then obtain s3 where s3: "load_special ?s1 = (Inr (), s3)" "sdata s3 = sdata s"
      using load_special_ok[of ?s1] by auto
    then have "load memory_ops cfg t s2 = (Inr True, s3)"
      using s2(3) ld load_saved_data[OF d(1) ar] by (simp add: load_def Let_def andThen_Inr)
    then show ?thesis using s3(2) by simp
  qed
  then show ?thesis using that c by blast
qed

section \<open>The storage stays well formed\<close>

lemma random_bytes_store [simp]: "sstore (snd (random_bytes cfg n s)) = sstore s"
  by (simp add: random_bytes_def)

lemma add_csrf_store [simp]: "sstore (add_csrf cfg s) = sstore s"
  by (simp add: add_csrf_def generate_csrf_token_def split_beta Let_def)

context session_storage
begin

lemma api_clear_ok: "ok (sstore io) \<Longrightarrow> ok (sstore (api_clear ops cfg now io))"
  by (auto simp: api_clear_def dual_clear_def cookies_clear_def Let_def sid_clear_ok split: location.split)

lemma api_load_ok: "ok (sstore io) \<Longrightarrow> ok (sstore (snd (api_load ops cfg now io)))"
  by (auto simp: api_load_def dual_load_def cookies_load_def Let_def sid_load_ok split_beta
      split: location.split option.split)

lemma store_session_ok:
  assumes "ok (sstore s)"
  shows "ok (sstore (snd (store_session ops cfg now force s)))"
proof (cases "save_data (sdata s)")
  case (Inr ar)
  let ?m = "api_save ops cfg now ar (session_age now s) (new_session s) (on_server_flag s)
       (s\<lparr>temp_cookie := []\<rparr>)"
  have "ok (sstore (snd ?m))" using assms by (simp add: api_save_ok)
  then show ?thesis
    using Inr by (cases ?m) (auto simp: store_session_def andThen_def update_exposed_fields split: sum.split)
qed (simp add: store_session_def assms)

lemma save_ok: "ok (sstore s) \<Longrightarrow> ok (sstore (snd (save ops cfg now s)))"
  by (simp add: save_def Let_def update_exposed_fields api_clear_ok store_session_ok)

lemma opt_int_store: "(\<And>v s. sstore (f v s) = sstore s) \<Longrightarrow> sstore (snd (opt_int k f s)) = sstore s"
  by (simp add: opt_int_def split: sum.split)

lemma load_special_store: "sstore (snd (load_special s)) = sstore s"
  unfolding load_special_def andThen_def
  by (auto simp: opt_int_store split: prod.splits sum.splits dest!: arg_cong[where f = "\<lambda>p. sstore (snd p)"])

lemma load_ok:
  assumes "ok (sstore s)"
  shows "ok (sstore (snd (load ops cfg now s)))"
proof (cases "loaded s")
  case False
  let ?s0 = "s\<lparr>loaded := True, sdata := [], sdata_copy := [], timeout_val := default_timeout cfg,
                   how := default_how cfg, saved := False, on_server_flag := False\<rparr>"
  obtain r s1 where m: "api_load ops cfg now ?s0 = (r, s1)" by (cases "api_load ops cfg now ?s0")
  have s1: "ok (sstore s1)" using api_load_ok[of ?s0 cfg now] assms m by simp
  have sp: "ok (sstore (snd (andThen load_special (\<lambda>_. ret True) s2)))" if "ok (sstore s2)" for s2
    using that load_special_store[of s2]
    by (cases "load_special s2") (auto simp: andThen_def split: sum.split)
  show ?thesis
    using False m s1 by (auto simp: load_def Let_def split: option.split sum.split intro!: sp)
qed (simp add: load_def assms)

end

section \<open>What the session promises\<close>

text \<open>
  The data of a session can be written exactly when every key is shorter than
  1024 bytes and every value shorter than two megabytes; what was written is read back as it
  was, exposed flags included.
\<close>

theorem session_data_round_trip:
  assumes "omap_ok d"
  shows "case save_data d of Inl _ \<Rightarrow> \<not> fits d | Inr s \<Rightarrow> fits d \<and> load_data s = Inr d"
  using save_data_fits[of d] load_saved_data[OF assms] by (auto split: sum.split)

theorem session_data_round_trip_witness:
  "fits [(''id'', \<lparr>evalue = ''1'', exposed = False\<rparr>), (''user'', \<lparr>evalue = ''root'', exposed = True\<rparr>)]"
  using session_data_round_trip[of "[(''id'', \<lparr>evalue = ''1'', exposed = False\<rparr>),
      (''user'', \<lparr>evalue = ''root'', exposed = True\<rparr>)]"]
  by (simp add: omap_ok_def fits_def split: sum.splits)


definition example_session :: "mem_storage session" where
  "example_session = sess_io.extend (example_io [])
     \<lparr>sdata = [(''user'', \<lparr>evalue = ''root'', exposed = False\<rparr>)], sdata_copy = [], timeout_val = 60,
      how = 1, timeout_in = 0, new_session = True, saved = False, on_server_flag = True, loaded = True,
      reset_flag = False, csrf_checked = False, csrf_do_validation = True, cookie_names = []\<rparr>"

lemma example_session_fields [simp]:
  "sstore example_session = new_storage" "request_cookie example_session = []"
  "sdata example_session = [(''user'', \<lparr>evalue = ''root'', exposed = False\<rparr>)]"
  "session_age 5 example_session = 65" "loaded example_session"
  by (simp_all add: example_session_def example_io_def sess_io.defs session_age_def fixed_def renew_def browser_def)

lemma new_storage_ok [simp]: "storage_ok new_storage"
  by (simp add: storage_ok_def new_storage_def)


end
