(* ===== verification/Cache_Storage.thy ===== *)
theory Cache_Storage
  imports Prelude
begin

text \<open>
  \<open>lib/cppcms/src/cache_storage.cpp\<close>: the in-memory page cache \<open>mem_cache\<close> with its default
  thread-local settings (\<open>thread_settings\<close>). An entry is linked from four places: the
  \<open>primary\<close> hash map, the LRU list, the \<open>timeout\<close> multimap and the list of every trigger it
  depends on; each container keeps iterators back into them.

  The model keys entries by their name: a \<open>pointer\<close> (an iterator into \<open>primary\<close>) is the key it
  points to, an iterator into the LRU or a trigger's list is the one position where the key
  stands there, an iterator into \<open>timeout\<close> is the pair it points to. Erasing through an
  iterator is \<open>remove1\<close>. That every stored iterator is live (no dangling link, no double
  link) is then the invariant \<open>cache_ok\<close>, proved of every operation below. The blob type
  \<open>'d\<close> is a parameter since the cache never looks into it. Locks are not modelled (every
  public operation runs under the lock) and neither is \<open>std::bad_alloc\<close>.
\<close>

section \<open>State\<close>

record 'd container =
  cdata :: 'd
  ctriggers :: "string list"
  ctimeout :: int
  cgeneration :: "64 word"

record 'd mem_cache =
  primary :: "string \<rightharpoonup> 'd container"
  triggers :: "string \<rightharpoonup> string list"
  timeouts :: "(int \<times> string) list"
  lru :: "string list"
  limit :: nat
  csize :: nat
  triggers_count :: nat
  generation :: "64 word"

section \<open>Operations\<close>

definition nl_clear :: "'d mem_cache \<Rightarrow> 'd mem_cache" where
  "nl_clear c = c\<lparr>timeouts := [], lru := [], primary := Map.empty, triggers := Map.empty,
                 csize := 0, triggers_count := 0\<rparr>"

definition new_cache :: "nat \<Rightarrow> 'd mem_cache" where
  "new_cache pages = nl_clear \<lparr>primary = Map.empty, triggers = Map.empty, timeouts = [], lru = [],
     limit = pages, csize = 0, triggers_count = 0, generation = 0\<rparr>"

definition set_size :: "nat \<Rightarrow> 'd mem_cache \<Rightarrow> 'd mem_cache" where
  "set_size l c = nl_clear (c\<lparr>limit := l\<rparr>)"

definition unlink_trigger :: "string \<Rightarrow> string \<Rightarrow> 'd mem_cache \<Rightarrow> 'd mem_cache" where
  "unlink_trigger p t c =
     (let ps = remove1 p (the (triggers c t))
      in c\<lparr>triggers := (triggers c)(t := if ps = [] then None else Some ps),
           triggers_count := triggers_count c - 1\<rparr>)"

definition delete_node :: "string \<Rightarrow> 'd mem_cache \<Rightarrow> 'd mem_cache" where
  "delete_node p c =
     (let cont = the (primary c p);
          c1 = c\<lparr>lru := remove1 p (lru c), timeouts := remove1 (ctimeout cont, p) (timeouts c)\<rparr>;
          c2 = fold (unlink_trigger p) (ctriggers cont) c1
      in c2\<lparr>primary := (primary c2)(p := None), csize := csize c2 - 1\<rparr>)"

text \<open>The out-parameters of \<open>fetch\<close>: data, triggers, timeout and generation of the entry.\<close>

definition fetch :: "int \<Rightarrow> string \<Rightarrow> 'd mem_cache \<Rightarrow>
    ('d \<times> string set \<times> int \<times> 64 word) option \<times> 'd mem_cache" where
  "fetch now key c =
     (case primary c key of
        None \<Rightarrow> (None, c)
      | Some cont \<Rightarrow>
          if ctimeout cont < now then (None, c)
          else (Some (cdata cont, set (ctriggers cont), ctimeout cont, cgeneration cont),
                c\<lparr>lru := key # remove1 key (lru c)\<rparr>))"

definition rise :: "string \<Rightarrow> 'd mem_cache \<Rightarrow> 'd mem_cache" where
  "rise trigger c =
     (case triggers c trigger of
        None \<Rightarrow> c
      | Some kill_list \<Rightarrow> fold delete_node kill_list c)"

definition clear :: "'d mem_cache \<Rightarrow> 'd mem_cache" where
  "clear c = nl_clear c"

definition stats :: "'d mem_cache \<Rightarrow> nat \<times> nat" where
  "stats c = (csize c, triggers_count c)"

lemma csize_fold_unlink [simp]: "csize (fold (unlink_trigger p) ts c) = csize c"
  by (induction ts arbitrary: c) (simp_all add: unlink_trigger_def Let_def)

lemma csize_delete_node [simp]: "csize (delete_node p c) = csize c - 1"
  by (simp add: delete_node_def Let_def)

function check_limits :: "int \<Rightarrow> 'd mem_cache \<Rightarrow> 'd mem_cache" where
  "check_limits now c =
     (if csize c > 0 \<and> csize c \<ge> limit c \<and> limit c > 0 then
        (if timeouts c \<noteq> [] \<and> fst (hd (timeouts c)) < now
         then check_limits now (delete_node (snd (hd (timeouts c))) c)
         else if lru c \<noteq> [] then check_limits now (delete_node (last (lru c)) c)
         else c)
      else c)"
  by pat_completeness auto
termination
  by (relation "measure (\<lambda>(now, c). csize c)") auto

declare check_limits.simps [simp del]

definition remove :: "string \<Rightarrow> 'd mem_cache \<Rightarrow> 'd mem_cache" where
  "remove key c = (case primary c key of None \<Rightarrow> c | Some _ \<Rightarrow> delete_node key c)"

definition add_trigger :: "string \<Rightarrow> string \<Rightarrow> 'd mem_cache \<Rightarrow> 'd mem_cache" where
  "add_trigger p key c =
     (let ps = (case triggers c key of None \<Rightarrow> [] | Some ps \<Rightarrow> ps);
          cont = the (primary c p)
      in c\<lparr>triggers := (triggers c)(key \<mapsto> p # ps),
           primary := (primary c)(p \<mapsto> cont\<lparr>ctriggers := ctriggers cont @ [key]\<rparr>),
           triggers_count := triggers_count c + 1\<rparr>)"

text \<open>The middle of \<open>store\<close>: a fresh entry at the front of the LRU list, no trigger yet.\<close>

definition insert_entry ::
    "string \<Rightarrow> 'd \<Rightarrow> int \<Rightarrow> 64 word option \<Rightarrow> 'd mem_cache \<Rightarrow> 'd mem_cache" where
  "insert_entry key a timeout_in gen c =
     c\<lparr>primary := (primary c)(key \<mapsto>
          \<lparr>cdata = a, ctriggers = [], ctimeout = timeout_in,
           cgeneration = (case gen of Some g \<Rightarrow> g | None \<Rightarrow> generation c)\<rparr>),
       csize := csize c + 1,
       generation := (case gen of Some g \<Rightarrow> generation c | None \<Rightarrow> generation c + 1),
       lru := key # lru c,
       timeouts := mmap_insert timeout_in key (timeouts c)\<rparr>"

text \<open>
  \<open>store\<close>. The test \<open>size > size_limit()\<close> compares a \<open>size_t\<close> with the largest \<open>size_t\<close> in
  \<open>thread_settings\<close>, so its early return is never taken and the model has no branch for it.
\<close>

definition store :: "int \<Rightarrow> string \<Rightarrow> 'd \<Rightarrow> string set \<Rightarrow> int \<Rightarrow> 64 word option \<Rightarrow>
    'd mem_cache \<Rightarrow> 'd mem_cache" where
  "store now key a triggers_in timeout_in gen c =
     (let c1 = (case primary c key of None \<Rightarrow> c | Some _ \<Rightarrow> delete_node key c);
          c2 = insert_entry key a timeout_in gen (check_limits now c1);
          c3 = (if key \<notin> triggers_in then add_trigger key key c2 else c2)
      in fold (add_trigger key) (sorted_list_of_set triggers_in) c3)"

section \<open>The invariant\<close>

definition linked :: "'d mem_cache \<Rightarrow> string \<Rightarrow> string set" where
  "linked c t = {k. \<exists>cont. primary c k = Some cont \<and> t \<in> set (ctriggers cont)}"

definition lru_ok :: "'d mem_cache \<Rightarrow> bool" where
  "lru_ok c \<longleftrightarrow> distinct (lru c) \<and> set (lru c) = dom (primary c) \<and> csize c = length (lru c)"

definition expiries :: "(string \<rightharpoonup> 'd container) \<Rightarrow> (int \<times> string) set" where
  "expiries m = {(ctimeout cont, k) |k cont. m k = Some cont}"

definition timeouts_ok :: "'d mem_cache \<Rightarrow> bool" where
  "timeouts_ok c \<longleftrightarrow> distinct (timeouts c) \<and> sorted (map fst (timeouts c)) \<and>
     set (timeouts c) = expiries (primary c)"

definition kill_list_ok :: "string list option \<Rightarrow> string set \<Rightarrow> bool" where
  "kill_list_ok r ks \<longleftrightarrow>
     (case r of None \<Rightarrow> ks = {} | Some ps \<Rightarrow> ps \<noteq> [] \<and> distinct ps \<and> set ps = ks)"

definition trigger_links_ok :: "'d mem_cache \<Rightarrow> bool" where
  "trigger_links_ok c \<longleftrightarrow>
     (\<forall>t. kill_list_ok (triggers c t) (linked c t)) \<and>
     (\<forall>k cont. primary c k = Some cont \<longrightarrow> distinct (ctriggers cont))"

definition count_ok :: "'d mem_cache \<Rightarrow> bool" where
  "count_ok c \<longleftrightarrow> triggers_count c = (\<Sum>k\<leftarrow>lru c. length (ctriggers (the (primary c k))))"

definition links_ok :: "'d mem_cache \<Rightarrow> bool" where
  "links_ok c \<longleftrightarrow> lru_ok c \<and> timeouts_ok c \<and> trigger_links_ok c \<and> count_ok c"

text \<open>Every entry is a trigger of itself: \<open>store\<close> adds the key when the caller did not.\<close>

definition self_triggered :: "'d mem_cache \<Rightarrow> bool" where
  "self_triggered c \<longleftrightarrow> (\<forall>k cont. primary c k = Some cont \<longrightarrow> k \<in> set (ctriggers cont))"

definition within_limit :: "'d mem_cache \<Rightarrow> bool" where
  "within_limit c \<longleftrightarrow> (limit c > 0 \<longrightarrow> csize c \<le> limit c)"

definition cache_ok :: "'d mem_cache \<Rightarrow> bool" where
  "cache_ok c \<longleftrightarrow> links_ok c \<and> self_triggered c \<and> within_limit c"

section \<open>Deleting an entry\<close>

named_theorems cache_fields

lemma fold_unlink_fields [cache_fields]:
  "primary (fold (unlink_trigger p) ts c) = primary c"
  "timeouts (fold (unlink_trigger p) ts c) = timeouts c"
  "lru (fold (unlink_trigger p) ts c) = lru c"
  "limit (fold (unlink_trigger p) ts c) = limit c"
  "generation (fold (unlink_trigger p) ts c) = generation c"
  "triggers_count (fold (unlink_trigger p) ts c) = triggers_count c - length ts"
  by (induction ts arbitrary: c) (simp_all add: unlink_trigger_def Let_def)

lemma fold_unlink_triggers:
  "distinct ts \<Longrightarrow>
     triggers (fold (unlink_trigger p) ts c) t =
       (if t \<in> set ts
        then (let ps = remove1 p (the (triggers c t)) in if ps = [] then None else Some ps)
        else triggers c t)"
  by (induction ts arbitrary: c) (auto simp: unlink_trigger_def Let_def)

lemma delete_node_fields [cache_fields]:
  assumes "primary c p = Some cont"
  shows "primary (delete_node p c) = (primary c)(p := None)"
    and "lru (delete_node p c) = remove1 p (lru c)"
    and "timeouts (delete_node p c) = remove1 (ctimeout cont, p) (timeouts c)"
    and "limit (delete_node p c) = limit c"
    and "generation (delete_node p c) = generation c"
    and "triggers_count (delete_node p c) = triggers_count c - length (ctriggers cont)"
  using assms by (simp_all add: delete_node_def Let_def fold_unlink_fields)

lemma delete_node_triggers:
  assumes "primary c p = Some cont" "distinct (ctriggers cont)"
  shows "triggers (delete_node p c) t =
       (if t \<in> set (ctriggers cont)
        then (let ps = remove1 p (the (triggers c t)) in if ps = [] then None else Some ps)
        else triggers c t)"
  using assms by (simp add: delete_node_def Let_def fold_unlink_triggers)

lemma delete_node_linked:
  "primary c p = Some cont \<Longrightarrow> linked (delete_node p c) t = linked c t - {p}"
  by (auto simp: linked_def cache_fields)

lemma delete_node_lru_ok:
  assumes "lru_ok c" "primary c p = Some cont"
  shows "lru_ok (delete_node p c)"
proof -
  have "p \<in> set (lru c)" using assms by (auto simp: lru_ok_def)
  with assms show ?thesis
    by (auto simp: lru_ok_def delete_node_fields[OF assms(2)] length_remove1)
qed

lemma expiries_iff: "(t, k) \<in> expiries m \<longleftrightarrow> (\<exists>cont. m k = Some cont \<and> ctimeout cont = t)"
  by (auto simp: expiries_def)

lemma expiries_delete: "m p = Some cont \<Longrightarrow> expiries (m(p := None)) = expiries m - {(ctimeout cont, p)}"
  by (rule set_eqI) (auto simp: expiries_iff split: if_splits prod.splits)

lemma expiries_insert: "m p = None \<Longrightarrow> expiries (m(p \<mapsto> cont)) = insert (ctimeout cont, p) (expiries m)"
  by (rule set_eqI) (auto simp: expiries_iff split: if_splits prod.splits)

lemma expiries_update:
  "m p = Some cont \<Longrightarrow> ctimeout cont' = ctimeout cont \<Longrightarrow> expiries (m(p \<mapsto> cont')) = expiries m"
  by (rule set_eqI) (auto simp: expiries_iff split: if_splits prod.splits)

lemma delete_node_timeouts_ok:
  assumes "timeouts_ok c" "primary c p = Some cont"
  shows "timeouts_ok (delete_node p c)"
  using assms
  by (simp add: timeouts_ok_def delete_node_fields[OF assms(2)] sorted_map_remove1
      distinct_remove1 expiries_delete)

lemma delete_node_trigger_links_ok:
  assumes ok: "trigger_links_ok c" and p: "primary c p = Some cont"
  shows "trigger_links_ok (delete_node p c)"
proof -
  have d: "distinct (ctriggers cont)" using assms by (auto simp: trigger_links_ok_def)
  have "kill_list_ok (triggers (delete_node p c) t) (linked (delete_node p c) t)" for t
  proof (cases "t \<in> set (ctriggers cont)")
    case True
    then have "p \<in> linked c t" using p by (auto simp: linked_def)
    with ok obtain ps where ps: "triggers c t = Some ps" "distinct ps" "set ps = linked c t"
      by (auto simp: trigger_links_ok_def kill_list_ok_def split: option.splits dest!: spec[of _ t])
    have rm: "set (remove1 p ps) = linked c t - {p}" using ps by simp
    show ?thesis
    proof (cases "remove1 p ps = []")
      case e: True
      with rm have "linked c t - {p} = {}" by simp
      then show ?thesis
        using True ps e by (simp add: delete_node_triggers[OF p d] delete_node_linked[OF p] Let_def
            kill_list_ok_def)
    next
      case e: False
      then show ?thesis
        using True ps rm
        by (simp add: delete_node_triggers[OF p d] delete_node_linked[OF p] Let_def distinct_remove1
            kill_list_ok_def)
    qed
  next
    case False
    then have "p \<notin> linked c t" using p by (auto simp: linked_def)
    then have "linked (delete_node p c) t = linked c t"
      by (simp add: delete_node_linked[OF p])
    moreover have "triggers (delete_node p c) t = triggers c t"
      using False by (simp add: delete_node_triggers[OF p d])
    ultimately show ?thesis using ok by (simp add: trigger_links_ok_def)
  qed
  moreover have "distinct (ctriggers cont')" if "primary (delete_node p c) k = Some cont'" for k cont'
    using that ok p by (auto simp: delete_node_fields[OF p] trigger_links_ok_def split: if_splits)
  ultimately show ?thesis by (simp add: trigger_links_ok_def)
qed

lemma delete_node_count_ok:
  assumes "count_ok c" "lru_ok c" and p: "primary c p = Some cont"
  shows "count_ok (delete_node p c)"
proof -
  let ?f = "\<lambda>k. length (ctriggers (the (primary c k)))"
  have mem: "p \<in> set (lru c)" and d: "distinct (lru c)" using assms by (auto simp: lru_ok_def)
  have "(\<Sum>k\<leftarrow>remove1 p (lru c). length (ctriggers (the (((primary c)(p := None)) k)))) =
        (\<Sum>k\<leftarrow>remove1 p (lru c). ?f k)"
    using d by (intro arg_cong[where f = sum_list] map_cong) auto
  moreover have "(\<Sum>k\<leftarrow>lru c. ?f k) = ?f p + (\<Sum>k\<leftarrow>remove1 p (lru c). ?f k)"
    using mem by (rule sum_list_map_remove1)
  ultimately show ?thesis
    using assms(1) p by (simp add: count_ok_def delete_node_fields[OF p])
qed

lemma delete_node_links_ok:
  "links_ok c \<Longrightarrow> primary c p = Some cont \<Longrightarrow> links_ok (delete_node p c)"
  by (simp add: links_ok_def delete_node_lru_ok delete_node_timeouts_ok
      delete_node_trigger_links_ok delete_node_count_ok)

lemma delete_node_self_triggered:
  "self_triggered c \<Longrightarrow> primary c p = Some cont \<Longrightarrow> self_triggered (delete_node p c)"
  by (auto simp: self_triggered_def cache_fields split: if_splits)

lemma delete_node_within_limit:
  "within_limit c \<Longrightarrow> primary c p = Some cont \<Longrightarrow> within_limit (delete_node p c)"
  by (auto simp: within_limit_def cache_fields)

lemma delete_node_cache_ok:
  "cache_ok c \<Longrightarrow> primary c p = Some cont \<Longrightarrow> cache_ok (delete_node p c)"
  by (simp add: cache_ok_def delete_node_links_ok delete_node_self_triggered
      delete_node_within_limit)

text \<open>A kill list of live, distinct keys is deleted without touching a dangling pointer.\<close>

lemma fold_delete_node:
  assumes "cache_ok c" "distinct ks" "set ks \<subseteq> dom (primary c)"
  shows "cache_ok (fold delete_node ks c) \<and>
         primary (fold delete_node ks c) = (\<lambda>k. if k \<in> set ks then None else primary c k) \<and>
         limit (fold delete_node ks c) = limit c"
  using assms
proof (induction ks arbitrary: c)
  case (Cons k ks)
  then obtain cont where k: "primary c k = Some cont" by auto
  then have "cache_ok (delete_node k c)" using Cons.prems by (simp add: delete_node_cache_ok)
  moreover have "set ks \<subseteq> dom (primary (delete_node k c))"
    using Cons.prems by (auto simp: delete_node_fields[OF k])
  ultimately show ?case
    using Cons by (simp add: fun_eq_iff delete_node_fields[OF k])
qed auto

section \<open>Rising a trigger, removing, clearing\<close>

lemma kill_list_live:
  "cache_ok c \<Longrightarrow> triggers c t = Some ps \<Longrightarrow> distinct ps \<and> set ps = linked c t"
  by (auto simp: cache_ok_def links_ok_def trigger_links_ok_def kill_list_ok_def
      dest!: spec[of _ t])

lemma linked_live: "linked c t \<subseteq> dom (primary c)"
  by (auto simp: linked_def)

lemma rise_primary:
  assumes "cache_ok c"
  shows "primary (rise t c) = (\<lambda>k. if k \<in> linked c t then None else primary c k)"
proof (cases "triggers c t")
  case None
  then have "linked c t = {}"
    using assms by (auto simp: cache_ok_def links_ok_def trigger_links_ok_def kill_list_ok_def
        dest!: spec[of _ t])
  then show ?thesis using None by (simp add: rise_def)
next
  case (Some ps)
  from kill_list_live[OF assms Some] have "distinct ps" "set ps = linked c t" by auto
  then show ?thesis
    using fold_delete_node[OF assms, of ps] linked_live[of c t] Some by (simp add: rise_def)
qed

lemma rise_cache_ok [inv_intros]: "cache_ok c \<Longrightarrow> cache_ok (rise t c)"
proof (cases "triggers c t")
  case (Some ps)
  assume ok: "cache_ok c"
  then show ?thesis
    using fold_delete_node[OF ok, of ps] kill_list_live[OF ok Some] linked_live[of c t] Some
    by (simp add: rise_def)
qed (simp add: rise_def)

lemma remove_cache_ok [inv_intros]: "cache_ok c \<Longrightarrow> cache_ok (remove k c)"
  by (auto simp: remove_def delete_node_cache_ok split: option.splits)

lemma remove_primary: "primary (remove k c) = (primary c)(k := None)"
  by (auto simp: remove_def cache_fields fun_eq_iff split: option.splits)

lemma nl_clear_cache_ok: "cache_ok (nl_clear c)"
  by (auto simp: nl_clear_def cache_ok_def links_ok_def lru_ok_def timeouts_ok_def
      trigger_links_ok_def kill_list_ok_def count_ok_def linked_def self_triggered_def
      within_limit_def expiries_def)

lemma clear_cache_ok [inv_intros]: "cache_ok (clear c)"
  by (simp add: clear_def nl_clear_cache_ok)

lemma new_cache_ok: "cache_ok (new_cache n)"
  by (simp add: new_cache_def nl_clear_cache_ok)

lemma set_size_ok: "cache_ok (set_size n c)"
  by (simp add: set_size_def nl_clear_cache_ok)

section \<open>Looking an entry up\<close>

lemma linked_lru [simp]: "linked (c\<lparr>lru := l\<rparr>) t = linked c t"
  by (simp add: linked_def)

lemma fetch_cache_ok [inv_intros]:
  assumes "cache_ok c"
  shows "cache_ok (snd (fetch now k c))"
proof (cases "primary c k")
  case (Some cont)
  let ?c = "c\<lparr>lru := k # remove1 k (lru c)\<rparr>"
  have d: "distinct (lru c)" and mem: "k \<in> set (lru c)"
    using assms Some by (auto simp: cache_ok_def links_ok_def lru_ok_def)
  have "length (lru c) > 0" using mem by (auto simp: length_greater_0_conv)
  then have "lru_ok ?c"
    using assms d mem by (auto simp: cache_ok_def links_ok_def lru_ok_def length_remove1)
  moreover have "count_ok ?c"
    using assms sum_list_map_remove1[OF mem, of "\<lambda>k. length (ctriggers (the (primary c k)))"]
    by (simp add: cache_ok_def links_ok_def count_ok_def)
  ultimately have "cache_ok ?c"
    using assms by (simp add: cache_ok_def links_ok_def timeouts_ok_def trigger_links_ok_def
        self_triggered_def within_limit_def)
  then show ?thesis using assms Some by (simp add: fetch_def)
qed (simp add: fetch_def assms)

lemma fetch_primary [simp]: "primary (snd (fetch now k c)) = primary c"
  by (simp add: fetch_def split: option.splits)

lemma fetch_limit [simp]: "limit (snd (fetch now k c)) = limit c"
  by (simp add: fetch_def split: option.splits)

section \<open>Making room\<close>

lemma links_ok_lru_live: "links_ok c \<Longrightarrow> k \<in> set (lru c) \<Longrightarrow> \<exists>cont. primary c k = Some cont"
  by (auto simp: links_ok_def lru_ok_def)

lemma links_ok_timeouts_live:
  "links_ok c \<Longrightarrow> (t, k) \<in> set (timeouts c) \<Longrightarrow> \<exists>cont. primary c k = Some cont \<and> ctimeout cont = t"
  by (auto simp: links_ok_def timeouts_ok_def expiries_iff)

lemma map_le_upd_None: "m(k := None) \<subseteq>\<^sub>m m"
  by (simp add: map_le_def)

lemma check_limits_ok:
  "cache_ok c \<Longrightarrow> cache_ok (check_limits now c) \<and>
     primary (check_limits now c) \<subseteq>\<^sub>m primary c \<and>
     limit (check_limits now c) = limit c \<and>
     generation (check_limits now c) = generation c \<and>
     (limit c > 0 \<longrightarrow> csize (check_limits now c) < limit c)"
proof (induction now c rule: check_limits.induct)
  case (1 now c)
  have len: "csize c = length (lru c)" using 1(3) by (simp add: cache_ok_def links_ok_def lru_ok_def)
  show ?case
  proof (cases "csize c > 0 \<and> csize c \<ge> limit c \<and> limit c > 0")
    case full: True
    define victim where
      "victim = (if timeouts c \<noteq> [] \<and> fst (hd (timeouts c)) < now
                 then snd (hd (timeouts c)) else last (lru c))"
    have ne: "lru c \<noteq> []" using full len by auto
    have step: "check_limits now c = check_limits now (delete_node victim c)"
      using full ne by (subst check_limits.simps) (simp add: victim_def)
    have "\<exists>cont. primary c victim = Some cont"
    proof (cases "timeouts c \<noteq> [] \<and> fst (hd (timeouts c)) < now")
      case True
      then show ?thesis
        using 1(3) links_ok_timeouts_live[of c "fst (hd (timeouts c))" "snd (hd (timeouts c))"]
        by (auto simp: victim_def cache_ok_def)
    next
      case False
      then show ?thesis
        using 1(3) links_ok_lru_live[of c "last (lru c)"] ne by (auto simp: victim_def cache_ok_def)
    qed
    then obtain cont where v: "primary c victim = Some cont" by blast
    have "cache_ok (delete_node victim c)" using 1(3) v by (rule delete_node_cache_ok)
    then have IH: "cache_ok (check_limits now (delete_node victim c)) \<and>
        primary (check_limits now (delete_node victim c)) \<subseteq>\<^sub>m primary (delete_node victim c) \<and>
        limit (check_limits now (delete_node victim c)) = limit (delete_node victim c) \<and>
        generation (check_limits now (delete_node victim c)) = generation (delete_node victim c) \<and>
        (limit (delete_node victim c) > 0 \<longrightarrow>
           csize (check_limits now (delete_node victim c)) < limit (delete_node victim c))"
    proof (cases "timeouts c \<noteq> [] \<and> fst (hd (timeouts c)) < now")
      case True
      then have "victim = snd (hd (timeouts c))" by (simp add: victim_def)
      then show ?thesis using 1(1)[OF full True] \<open>cache_ok (delete_node victim c)\<close> by simp
    next
      case False
      then have "victim = last (lru c)" by (auto simp: victim_def)
      then show ?thesis using 1(2)[OF full False ne] \<open>cache_ok (delete_node victim c)\<close> by simp
    qed
    then show ?thesis
      using map_le_trans[OF _ map_le_upd_None[of "primary c" victim]]
      by (simp add: step delete_node_fields[OF v])
  next
    case False
    then have "check_limits now c = c" by (subst check_limits.simps) auto
    then show ?thesis using 1(3) False by auto
  qed
qed

text \<open>
  Which entry goes when the cache is full: the one that expires first if it is expired,
  otherwise the one that has not been used for the longest time.
\<close>

lemma check_limits_evicts:
  assumes "cache_ok c" "csize c = limit c" "limit c > 0"
  shows "check_limits now c =
     delete_node (if timeouts c \<noteq> [] \<and> fst (hd (timeouts c)) < now
                  then snd (hd (timeouts c)) else last (lru c)) c"
proof -
  have ne: "lru c \<noteq> []"
    using assms by (auto simp: cache_ok_def links_ok_def lru_ok_def)
  have stop: "check_limits now (delete_node v c) = delete_node v c" if "primary c v = Some cont" for v cont
    using that assms by (subst check_limits.simps) (auto simp: delete_node_fields[OF that])
  show ?thesis
  proof (cases "timeouts c \<noteq> [] \<and> fst (hd (timeouts c)) < now")
    case True
    then obtain cont where "primary c (snd (hd (timeouts c))) = Some cont"
      using assms(1) links_ok_timeouts_live[of c "fst (hd (timeouts c))" "snd (hd (timeouts c))"]
      by (auto simp: cache_ok_def)
    from stop[OF this] show ?thesis using True assms by (subst check_limits.simps) simp
  next
    case False
    obtain cont where "primary c (last (lru c)) = Some cont"
      using assms(1) ne links_ok_lru_live[of c "last (lru c)"] by (auto simp: cache_ok_def)
    from stop[OF this] show ?thesis
      using False ne assms by (subst check_limits.simps) auto
  qed
qed

section \<open>Storing an entry\<close>

lemma insert_entry_primary:
  "primary (insert_entry key a to gen c) = (primary c)(key \<mapsto>
      \<lparr>cdata = a, ctriggers = [], ctimeout = to,
       cgeneration = (case gen of Some g \<Rightarrow> g | None \<Rightarrow> generation c)\<rparr>)"
  by (simp add: insert_entry_def)

lemma insert_entry_links_ok:
  assumes ok: "links_ok c" and new: "primary c key = None"
  shows "links_ok (insert_entry key a to gen c)"
proof -
  let ?c = "insert_entry key a to gen c"
  have notin: "key \<notin> set (lru c)" using assms by (auto simp: links_ok_def lru_ok_def)
  have "lru_ok ?c"
    using assms notin by (auto simp: insert_entry_def links_ok_def lru_ok_def)
  moreover have "timeouts_ok ?c"
  proof -
    have "(to, key) \<notin> set (timeouts c)"
      using assms links_ok_timeouts_live[OF ok, of to key] by auto
    moreover have "expiries (primary ?c) = insert (to, key) (expiries (primary c))"
      using new by (simp add: insert_entry_primary expiries_insert)
    ultimately show ?thesis
      using ok by (simp add: links_ok_def timeouts_ok_def set_mmap_insert
          distinct_mmap_insert sorted_mmap_insert) (simp add: insert_entry_def set_mmap_insert
          distinct_mmap_insert sorted_mmap_insert)
  qed
  moreover have "trigger_links_ok ?c"
  proof -
    have "linked ?c t = linked c t" for t
      using new by (auto simp: linked_def insert_entry_primary split: if_splits)
    then show ?thesis
      using ok by (simp add: links_ok_def trigger_links_ok_def) (simp add: insert_entry_def)
  qed
  moreover have "count_ok ?c"
  proof -
    have "(\<Sum>k\<leftarrow>lru c. length (ctriggers (the (primary ?c k)))) =
          (\<Sum>k\<leftarrow>lru c. length (ctriggers (the (primary c k))))"
      using notin by (intro arg_cong[where f = sum_list] map_cong) (auto simp: insert_entry_primary)
    then show ?thesis
      using ok by (simp add: links_ok_def count_ok_def insert_entry_def)
  qed
  ultimately show ?thesis by (simp add: links_ok_def)
qed

lemma add_trigger_primary:
  "primary c p = Some cont \<Longrightarrow>
     primary (add_trigger p key c) = (primary c)(p \<mapsto> cont\<lparr>ctriggers := ctriggers cont @ [key]\<rparr>)"
  by (simp add: add_trigger_def Let_def)

lemma add_trigger_fields:
  "lru (add_trigger p key c) = lru c" "timeouts (add_trigger p key c) = timeouts c"
  "limit (add_trigger p key c) = limit c" "csize (add_trigger p key c) = csize c"
  "generation (add_trigger p key c) = generation c"
  "triggers_count (add_trigger p key c) = triggers_count c + 1"
  by (simp_all add: add_trigger_def Let_def)

lemma add_trigger_linked:
  "primary c p = Some cont \<Longrightarrow>
     linked (add_trigger p key c) t = (if t = key then insert p (linked c t) else linked c t)"
  by (auto simp: linked_def add_trigger_primary)

lemma add_trigger_links_ok:
  assumes ok: "links_ok c" and p: "primary c p = Some cont" and new: "key \<notin> set (ctriggers cont)"
  shows "links_ok (add_trigger p key c)"
proof -
  let ?c = "add_trigger p key c"
  have mem: "p \<in> set (lru c)" and d: "distinct (lru c)"
    using ok p by (auto simp: links_ok_def lru_ok_def)
  have "lru_ok ?c"
    using ok p by (auto simp: links_ok_def lru_ok_def add_trigger_fields add_trigger_primary[OF p])
  moreover have "timeouts_ok ?c"
  proof -
    have "expiries (primary ?c) = expiries (primary c)"
      using p by (simp add: add_trigger_primary[OF p] expiries_update)
    then show ?thesis using ok by (simp add: links_ok_def timeouts_ok_def add_trigger_fields)
  qed
  moreover have "trigger_links_ok ?c"
  proof -
    have "kill_list_ok (triggers ?c t) (linked ?c t)" for t
    proof (cases "t = key")
      case True
      have "kill_list_ok (triggers c key) (linked c key)"
        using ok by (simp add: links_ok_def trigger_links_ok_def)
      moreover have "p \<notin> linked c key" using p new by (auto simp: linked_def)
      moreover have "triggers ?c key = Some (p # (case triggers c key of None \<Rightarrow> [] | Some ps \<Rightarrow> ps))"
        by (simp add: add_trigger_def Let_def)
      moreover have "linked ?c key = insert p (linked c key)"
        by (simp add: add_trigger_linked[OF p])
      ultimately show ?thesis
        using True by (cases "triggers c key") (simp_all add: kill_list_ok_def)
    next
      case False
      then have "triggers ?c t = triggers c t" "linked ?c t = linked c t"
        by (simp_all add: add_trigger_linked[OF p]) (simp add: add_trigger_def Let_def)
      then show ?thesis using ok by (simp add: links_ok_def trigger_links_ok_def)
    qed
    moreover have "distinct (ctriggers co)" if "primary ?c k = Some co" for k co
      using that ok p new
      by (auto simp: add_trigger_primary[OF p] links_ok_def trigger_links_ok_def split: if_splits)
    ultimately show ?thesis by (simp add: trigger_links_ok_def)
  qed
  moreover have "count_ok ?c"
  proof -
    let ?f = "\<lambda>m k. length (ctriggers (the (m k)))"
    have "(\<Sum>k\<leftarrow>remove1 p (lru c). ?f (primary ?c) k) = (\<Sum>k\<leftarrow>remove1 p (lru c). ?f (primary c) k)"
      using d by (intro arg_cong[where f = sum_list] map_cong) (auto simp: add_trigger_primary[OF p])
    moreover have "?f (primary ?c) p = Suc (?f (primary c) p)"
      using p by (simp add: add_trigger_primary[OF p])
    ultimately have "(\<Sum>k\<leftarrow>lru c. ?f (primary ?c) k) = Suc (\<Sum>k\<leftarrow>lru c. ?f (primary c) k)"
      by (simp add: sum_list_map_remove1[OF mem])
    then show ?thesis using ok by (simp add: links_ok_def count_ok_def add_trigger_fields)
  qed
  ultimately show ?thesis by (simp add: links_ok_def)
qed

lemma fold_add_trigger:
  assumes "links_ok c" "primary c p = Some cont" "distinct ts" "set ts \<inter> set (ctriggers cont) = {}"
  shows "links_ok (fold (add_trigger p) ts c) \<and>
         primary (fold (add_trigger p) ts c) =
           (primary c)(p \<mapsto> cont\<lparr>ctriggers := ctriggers cont @ ts\<rparr>) \<and>
         csize (fold (add_trigger p) ts c) = csize c \<and>
         limit (fold (add_trigger p) ts c) = limit c"
  using assms
proof (induction ts arbitrary: c cont)
  case Nil
  then show ?case by auto
next
  case (Cons t ts)
  let ?c = "add_trigger p t c" and ?cont = "cont\<lparr>ctriggers := ctriggers cont @ [t]\<rparr>"
  have "links_ok ?c" using Cons.prems by (intro add_trigger_links_ok) auto
  moreover have prim: "primary ?c = (primary c)(p \<mapsto> ?cont)"
    using Cons.prems(2) by (rule add_trigger_primary)
  moreover have "set ts \<inter> set (ctriggers ?cont) = {}" using Cons.prems by auto
  ultimately show ?case
    using Cons.IH[of ?c ?cont] Cons.prems by (simp add: add_trigger_fields prim fun_eq_iff)
qed

definition entry_triggers :: "string \<Rightarrow> string set \<Rightarrow> string list" where
  "entry_triggers key T = (if key \<notin> T then [key] else []) @ sorted_list_of_set T"

lemma entry_triggers_props:
  "finite T \<Longrightarrow> distinct (entry_triggers key T) \<and> set (entry_triggers key T) = insert key T"
  by (auto simp: entry_triggers_def)

lemma store_steps:
  "store now key a T to gen c =
     fold (add_trigger key) (entry_triggers key T)
       (insert_entry key a to gen (check_limits now (remove key c)))"
  by (simp add: store_def remove_def entry_triggers_def Let_def)

lemma remove_limit [simp]: "limit (remove k c) = limit c"
  by (simp add: remove_def cache_fields split: option.splits)

lemma store_result:
  fixes now :: int and key :: string and c :: "'d mem_cache"
  assumes ok: "cache_ok c" and fin: "finite T"
  defines "c2 \<equiv> check_limits now (remove key c)"
  shows "cache_ok (store now key a T to gen c)"
    and "primary (store now key a T to gen c) = (primary c2)(key \<mapsto>
           \<lparr>cdata = a, ctriggers = entry_triggers key T, ctimeout = to,
            cgeneration = (case gen of Some g \<Rightarrow> g | None \<Rightarrow> generation c2)\<rparr>)"
    and "limit (store now key a T to gen c) = limit c"
proof -
  let ?e = "insert_entry key a to gen c2"
  let ?s = "store now key a T to gen c"
  have c2: "cache_ok c2" "primary c2 \<subseteq>\<^sub>m (primary c)(key := None)" "limit c2 = limit c"
    "limit c > 0 \<longrightarrow> csize c2 < limit c"
    using check_limits_ok[OF remove_cache_ok[OF ok], of now key]
    by (auto simp: c2_def remove_primary)
  then have new: "primary c2 key = None"
    by (metis domIff fun_upd_same map_le_implies_dom_le subsetD)
  have e: "links_ok ?e" using c2(1) new by (simp add: cache_ok_def insert_entry_links_ok)
  let ?cont = "\<lparr>cdata = a, ctriggers = [], ctimeout = to,
      cgeneration = (case gen of Some g \<Rightarrow> g | None \<Rightarrow> generation c2)\<rparr>"
  have pk: "primary ?e key = Some ?cont" by (simp add: insert_entry_primary)
  have steps: "?s = fold (add_trigger key) (entry_triggers key T) ?e"
    by (simp add: store_steps c2_def)
  have F: "links_ok ?s \<and>
      primary ?s = (primary ?e)(key \<mapsto> ?cont\<lparr>ctriggers := ctriggers ?cont @ entry_triggers key T\<rparr>) \<and>
      csize ?s = csize ?e \<and> limit ?s = limit ?e"
    unfolding steps using entry_triggers_props[OF fin] by (intro fold_add_trigger[OF e pk]) auto
  then show prim: "primary ?s = (primary c2)(key \<mapsto>
           \<lparr>cdata = a, ctriggers = entry_triggers key T, ctimeout = to,
            cgeneration = (case gen of Some g \<Rightarrow> g | None \<Rightarrow> generation c2)\<rparr>)"
    by (simp add: insert_entry_primary)
  have ins: "csize ?e = csize c2 + 1" "limit ?e = limit c2" by (simp_all add: insert_entry_def)
  then show "limit ?s = limit c" using F c2 by simp
  have "self_triggered ?s"
    using c2(1) entry_triggers_props[OF fin]
    by (auto simp: self_triggered_def prim cache_ok_def split: if_splits)
  moreover have "within_limit ?s" using F ins c2 by (auto simp: within_limit_def)
  ultimately show "cache_ok ?s" using F by (simp add: cache_ok_def)
qed

lemma store_cache_ok [inv_intros]: "cache_ok c \<Longrightarrow> finite T \<Longrightarrow> cache_ok (store now k a T to gen c)"
  by (rule store_result(1))

section \<open>What the cache promises\<close>

text \<open>
  The abstract view: a map from names to the data, the triggers, the expiry time and the
  generation of an entry. The contract leaves the cache free to forget entries when one is
  stored, but not to return anything else than what was stored last, and never an entry
  whose trigger was raised since.
\<close>

definition cache_abs :: "'d mem_cache \<Rightarrow> string \<rightharpoonup> 'd \<times> string set \<times> int \<times> 64 word" where
  "cache_abs c k = map_option (\<lambda>cont. (cdata cont, set (ctriggers cont), ctimeout cont,
      cgeneration cont)) (primary c k)"

definition without_trigger ::
    "string \<Rightarrow> (string \<rightharpoonup> 'd \<times> string set \<times> 'r) \<Rightarrow> (string \<rightharpoonup> 'd \<times> string set \<times> 'r)" where
  "without_trigger t m k =
     (case m k of None \<Rightarrow> None | Some (d, T, r) \<Rightarrow> if t \<in> T then None else Some (d, T, r))"

locale page_cache =
  fixes entry :: "'c \<Rightarrow> string \<rightharpoonup> 'd \<times> string set \<times> int \<times> 'g"
    and invar :: "'c \<Rightarrow> bool"
    and look :: "int \<Rightarrow> string \<Rightarrow> 'c \<Rightarrow> ('d \<times> string set \<times> int \<times> 'g) option \<times> 'c"
    and put :: "int \<Rightarrow> string \<Rightarrow> 'd \<Rightarrow> string set \<Rightarrow> int \<Rightarrow> 'g option \<Rightarrow> 'c \<Rightarrow> 'c"
    and raise :: "string \<Rightarrow> 'c \<Rightarrow> 'c"
    and wipe :: "'c \<Rightarrow> 'c"
  assumes look_result: "invar c \<Longrightarrow> fst (look now k c) =
            (case entry c k of None \<Rightarrow> None
             | Some (d, T, e, g) \<Rightarrow> if e < now then None else Some (d, T, e, g))"
    and look_entry: "invar c \<Longrightarrow> entry (snd (look now k c)) = entry c"
    and put_entry: "invar c \<Longrightarrow> finite T \<Longrightarrow> \<exists>m g. m \<subseteq>\<^sub>m entry c \<and>
            entry (put now k d T e gen c) = m(k \<mapsto> (d, insert k T, e, g))"
    and raise_entry: "invar c \<Longrightarrow> entry (raise t c) = without_trigger t (entry c)"
    and wipe_entry: "entry (wipe c) = Map.empty"
    and invar_look: "invar c \<Longrightarrow> invar (snd (look now k c))"
    and invar_put: "invar c \<Longrightarrow> finite T \<Longrightarrow> invar (put now k d T e gen c)"
    and invar_raise: "invar c \<Longrightarrow> invar (raise t c)"
    and invar_wipe: "invar (wipe c)"

text \<open>
  A cache is coherent with respect to a predicate that says which data, with which triggers,
  is still right for a name: every entry satisfies it.
\<close>

definition coherent :: "('c \<Rightarrow> string \<rightharpoonup> 'd \<times> string set \<times> 'r) \<Rightarrow>
    (string \<Rightarrow> 'd \<Rightarrow> string set \<Rightarrow> bool) \<Rightarrow> 'c \<Rightarrow> bool" where
  "coherent entry good c \<longleftrightarrow> (\<forall>k d T r. entry c k = Some (d, T, r) \<longrightarrow> good k d T)"

context page_cache
begin

lemma wipe_coherent: "coherent entry good (wipe c)"
  by (simp add: coherent_def wipe_entry)

lemma look_coherent: "invar c \<Longrightarrow> coherent entry good c \<Longrightarrow> coherent entry good (snd (look now k c))"
  by (simp add: coherent_def look_entry)

lemma look_good:
  "invar c \<Longrightarrow> coherent entry good c \<Longrightarrow> fst (look now k c) = Some (d, T, e, g) \<Longrightarrow> good k d T"
  by (auto simp: coherent_def look_result split: option.splits if_splits)

lemma put_coherent:
  assumes "invar c" "finite T" "coherent entry good c" "good k d (insert k T)"
  shows "coherent entry good (put now k d T e gen c)"
proof -
  obtain m g where m: "m \<subseteq>\<^sub>m entry c" "entry (put now k d T e gen c) = m(k \<mapsto> (d, insert k T, e, g))"
    using put_entry[OF assms(1,2)] by blast
  show ?thesis
    unfolding coherent_def
  proof (intro allI impI)
    fix k' d' T' r
    assume "entry (put now k d T e gen c) k' = Some (d', T', r)"
    then show "good k' d' T'"
      using assms(3,4) m by (cases "k' = k") (auto simp: coherent_def map_le_def dom_def)
  qed
qed

lemma put_then_look:
  "invar c \<Longrightarrow> finite T \<Longrightarrow> now' \<le> e \<Longrightarrow>
     \<exists>g. fst (look now' k (put now k d T e gen c)) = Some (d, insert k T, e, g)"
  using put_entry[of c T now k d e gen] invar_put[of c T now k d e gen] look_result[of _ now' k]
  by fastforce

lemma invar_raise_all: "invar c \<Longrightarrow> invar (fold raise ts c)"
  by (induction ts arbitrary: c) (simp_all add: invar_raise)

lemma raise_all_entry:
  "invar c \<Longrightarrow> entry (fold raise ts c) k =
     (case entry c k of None \<Rightarrow> None
      | Some (d, T, r) \<Rightarrow> if T \<inter> set ts = {} then Some (d, T, r) else None)"
proof (induction ts arbitrary: c)
  case (Cons t ts)
  then show ?case
    by (auto simp: invar_raise raise_entry without_trigger_def split: option.splits if_splits)
qed (simp split: option.splits)

text \<open>
  The rule a handler follows when it changes the data behind the cache: if everything that
  was right and mentions none of the raised triggers is right afterwards too, then raising
  these triggers makes the cache right again.
\<close>

lemma raise_all_coherent:
  assumes "invar c" "coherent entry good c"
    and "\<And>k d T. good k d T \<Longrightarrow> T \<inter> set ts = {} \<Longrightarrow> good' k d T"
  shows "coherent entry good' (fold raise ts c)"
  using assms by (auto simp: coherent_def raise_all_entry split: option.splits if_splits)

end

lemma cache_abs_fetch:
  "fst (fetch now k c) =
     (case cache_abs c k of None \<Rightarrow> None
      | Some (d, T, e, g) \<Rightarrow> if e < now then None else Some (d, T, e, g))"
  by (simp add: fetch_def cache_abs_def split: option.splits)

lemma cache_abs_rise:
  assumes "cache_ok c"
  shows "cache_abs (rise t c) = without_trigger t (cache_abs c)"
proof (rule ext)
  fix k
  show "cache_abs (rise t c) k = without_trigger t (cache_abs c) k"
    by (cases "primary c k")
       (auto simp: cache_abs_def without_trigger_def rise_primary[OF assms] linked_def)
qed

lemma cache_abs_store:
  assumes "cache_ok c" "finite T"
  shows "\<exists>m g. m \<subseteq>\<^sub>m cache_abs c \<and> cache_abs (store now k d T e gen c) = m(k \<mapsto> (d, insert k T, e, g))"
proof -
  let ?c2 = "check_limits now (remove k c)"
  have sub: "primary ?c2 \<subseteq>\<^sub>m primary c"
    using check_limits_ok[OF remove_cache_ok[OF assms(1)], of now k]
      map_le_trans[OF _ map_le_upd_None[of "primary c" k]] by (simp add: remove_primary)
  have "cache_abs ?c2 \<subseteq>\<^sub>m cache_abs c"
    using sub by (auto simp: map_le_def cache_abs_def dom_def)
  moreover have "cache_abs (store now k d T e gen c) = (cache_abs ?c2)(k \<mapsto>
      (d, insert k T, e, (case gen of Some g \<Rightarrow> g | None \<Rightarrow> generation ?c2)))"
    using entry_triggers_props[OF assms(2), of k]
    by (auto simp: fun_eq_iff cache_abs_def store_result(2)[OF assms])
  ultimately show ?thesis by blast
qed

interpretation mem: page_cache cache_abs cache_ok fetch store rise clear
proof unfold_locales
  show "fst (fetch now k c) = (case cache_abs c k of None \<Rightarrow> None
      | Some (d, T, e, g) \<Rightarrow> if e < now then None else Some (d, T, e, g))" for now k and c :: "'a mem_cache"
    by (rule cache_abs_fetch)
  show "cache_abs (snd (fetch now k c)) = cache_abs c" for now k and c :: "'a mem_cache"
    by (rule ext) (simp add: cache_abs_def)
  show "cache_abs (clear c) = Map.empty" for c :: "'a mem_cache"
    by (rule ext) (simp add: clear_def nl_clear_def cache_abs_def)
  show "\<exists>m g. m \<subseteq>\<^sub>m cache_abs c \<and> cache_abs (store now k d T e gen c) = m(k \<mapsto> (d, insert k T, e, g))"
    if "cache_ok c" "finite T" for c :: "'a mem_cache" and T now k d e gen
    using that by (rule cache_abs_store)
qed (simp_all add: inv_intros cache_abs_rise)

section \<open>The cache, as its callers see it\<close>

text \<open>
  Property C11. \<open>store\<close> keeps the four indexes of the cache (entries, triggers, expiry times,
  LRU list) and its counters consistent and the number of entries within the limit; the new
  entry is there with its data, its expiry time and its key among its triggers, and every
  other entry that is left is as it was.
\<close>

theorem store_is_consistent:
  assumes "cache_ok c" "finite T"
  shows "cache_ok (store now k d T e gen c) \<and>
    (\<exists>m g. m \<subseteq>\<^sub>m cache_abs c \<and> cache_abs (store now k d T e gen c) = m(k \<mapsto> (d, insert k T, e, g)))"
  using store_cache_ok[OF assms] cache_abs_store[OF assms] by blast

theorem store_is_consistent_witness:
  "cache_ok (store 5 ''post_1'' ''html'' {''options''} 9 None (new_cache 2))"
  using store_is_consistent[OF new_cache_ok, of "{''options''}" 5 "''post_1''" "''html''" 9 None 2] by simp

text \<open>
  Property C12. \<open>rise\<close> removes exactly the entries that carry the trigger, keeps all others
  unchanged and leaves the cache consistent.
\<close>

theorem rise_removes_exactly:
  assumes "cache_ok c"
  shows "cache_ok (rise t c) \<and>
    (\<forall>k. primary (rise t c) k = (if k \<in> linked c t then None else primary c k))"
  using rise_cache_ok[OF assms] rise_primary[OF assms] by simp

theorem rise_removes_exactly_witness:
  "primary (rise ''comments'' (store 5 ''post_1'' ''html'' {''comments''} 9 None (new_cache 2))) ''post_1'' = None"
proof -
  let ?c = "store 5 ''post_1'' ''html'' {''comments''} 9 None (new_cache 2)"
  have c: "cache_ok ?c" by (simp add: store_cache_ok new_cache_ok)
  have "''post_1'' \<in> linked ?c ''comments''"
    by (simp add: linked_def store_def new_cache_def nl_clear_def insert_entry_def add_trigger_def Let_def
        check_limits.simps)
  then show ?thesis using rise_removes_exactly[OF c, of "''comments''"] by simp
qed

text \<open>
  Property C13. When the cache is full, \<open>check_limits\<close> makes room by dropping exactly one
  entry: the one with the earliest expiry time if that has passed, else the least recently
  used one.
\<close>

theorem eviction_policy:
  assumes "cache_ok c" "csize c = limit c" "limit c > 0"
  shows "check_limits now c =
     delete_node (if timeouts c \<noteq> [] \<and> fst (hd (timeouts c)) < now
                  then snd (hd (timeouts c)) else last (lru c)) c \<and>
     csize (check_limits now c) = csize c - 1 \<and> cache_ok (check_limits now c)"
  using check_limits_evicts[OF assms, of now] check_limits_ok[OF assms(1), of now]
  by (simp add: csize_delete_node)

theorem eviction_policy_witness:
  "csize (check_limits 7 (store 5 ''a'' ''x'' {} 9 None (new_cache 1))) = 0"
proof -
  let ?c = "store 5 ''a'' ''x'' {} 9 None (new_cache 1)"
  have c: "cache_ok ?c" by (simp add: store_cache_ok new_cache_ok)
  have s: "csize ?c = 1" "limit ?c = 1"
    by (simp_all add: store_def new_cache_def nl_clear_def insert_entry_def add_trigger_def Let_def
        check_limits.simps)
  show ?thesis using eviction_policy[OF c, of 7] s by simp
qed

text \<open>
  Property C14. The rule by which handlers keep the cache right: if whatever is right and
  carries none of the triggers \<open>ts\<close> stays right when the data changes, then after raising
  \<open>ts\<close> every entry that can be fetched is right for the new data.
\<close>

theorem raising_restores_coherence:
  assumes "cache_ok c" "coherent cache_abs good c"
    and "\<And>k d T. good k d T \<Longrightarrow> T \<inter> set ts = {} \<Longrightarrow> good' k d T"
    and "fst (fetch now k (fold rise ts c)) = Some (d, T, e, g)"
  shows "good' k d T"
  using mem.look_good[OF mem.invar_raise_all[OF assms(1)] mem.raise_all_coherent[OF assms(1-3)] assms(4)] .

theorem raising_restores_coherence_witness:
  "fst (fetch 6 ''k'' (fold rise [''t''] (store 5 ''k'' False {} 9 None (new_cache 2)))) =
      Some (False, {''k''}, 9, 0) \<and> ''t'' \<notin> {''k''}"
proof -
  let ?c = "store 5 ''k'' False {} 9 None (new_cache 2)"
  have c: "cache_ok ?c" by (simp add: store_cache_ok new_cache_ok)
  have f: "fst (fetch 6 ''k'' (fold rise [''t''] ?c)) = Some (False, {''k''}, 9, 0)"
    by (simp add: store_def new_cache_def nl_clear_def insert_entry_def add_trigger_def Let_def
        check_limits.simps fetch_def rise_def)
  have "''t'' \<notin> {''k''}"
    using raising_restores_coherence[OF c, of "\<lambda>_ _ _. True" "[''t'']" "\<lambda>_ _ T. ''t'' \<notin> T" 6 "''k''"] f
    by (simp add: coherent_def)
  then show ?thesis using f by blast
qed

end
