(* ===== verification/Cache_Interface.thy ===== *)
theory Cache_Interface
  imports Cache_Storage Archive
begin

text \<open>
  \<open>lib/cppcms/src/cache_interface.cpp\<close>: what a request sees of the page cache. It collects the
  triggers the page under construction depends on, in the page's own set and in every live
  \<open>triggers_recorder\<close>, and keeps frames and serialised objects in the shared cache (whose
  entries are byte strings here). The page operations, which also need the response, are in
  the theory \<open>Context\<close>.
\<close>

section \<open>State\<close>

text \<open>
  \<open>recorders\<close> holds the recorders that are registered, named by a number in place of their
  address, with the triggers each has seen. Without a cache configured \<open>module\<close> is \<open>None\<close>.
\<close>

record cache_if =
  module :: "string mem_cache option"
  page_triggers :: "string set"
  recorders :: "(nat \<times> string set) list"
  next_recorder :: nat
  page_compression_used :: bool

definition new_cache_if :: "string mem_cache option \<Rightarrow> cache_if" where
  "new_cache_if m = \<lparr>module = m, page_triggers = {}, recorders = [], next_recorder = 0,
                     page_compression_used = False\<rparr>"

definition nocache :: "cache_if \<Rightarrow> bool" where
  "nocache c \<longleftrightarrow> module c = None"

section \<open>Expiry times\<close>

definition infty :: int where
  "infty = 2 ^ 63 - 1 - 3600 * 24"

definition deadtime :: "int \<Rightarrow> int \<Rightarrow> exn + int" where
  "deadtime now sec =
     (if sec < 0 then Inr infty
      else if now + sec \<ge> 2 ^ 63 then Inl (Cppcms_error ''Year 2038 problem?'')
      else Inr (now + sec))"

section \<open>Recorders\<close>

definition new_recorder :: "cache_if \<Rightarrow> nat \<times> cache_if" where
  "new_recorder c =
     (next_recorder c,
      c\<lparr>recorders := recorders c @ [(next_recorder c, {})], next_recorder := next_recorder c + 1\<rparr>)"

definition remove_triggers_recorder :: "nat \<Rightarrow> cache_if \<Rightarrow> cache_if" where
  "remove_triggers_recorder i c = c\<lparr>recorders := filter (\<lambda>(j, _). j \<noteq> i) (recorders c)\<rparr>"

definition detach :: "nat \<Rightarrow> (cache_if, string set) action" where
  "detach i c =
     (case map_of (recorders c) i of
        None \<Rightarrow> (Inl (Cppcms_error
          ''triggers_recorder: the detach was called once, can't use the object twice''), c)
      | Some T \<Rightarrow> (Inr T, remove_triggers_recorder i c))"

section \<open>Triggers\<close>

definition ci_add_trigger :: "string \<Rightarrow> cache_if \<Rightarrow> cache_if" where
  "ci_add_trigger t c =
     (if nocache c then c
      else c\<lparr>recorders := map (\<lambda>(i, T). (i, insert t T)) (recorders c),
             page_triggers := insert t (page_triggers c)\<rparr>)"

definition ci_add_triggers :: "string set \<Rightarrow> cache_if \<Rightarrow> cache_if" where
  "ci_add_triggers ts c = fold ci_add_trigger (sorted_list_of_set ts) c"

definition ci_rise :: "string \<Rightarrow> cache_if \<Rightarrow> cache_if" where
  "ci_rise t c = c\<lparr>module := map_option (rise t) (module c)\<rparr>"

definition ci_clear :: "cache_if \<Rightarrow> cache_if" where
  "ci_clear c = c\<lparr>module := map_option clear (module c)\<rparr>"

definition ci_stats :: "cache_if \<Rightarrow> (nat \<times> nat) option" where
  "ci_stats c = map_option stats (module c)"

definition ci_reset :: "cache_if \<Rightarrow> cache_if" where
  "ci_reset c = c\<lparr>page_triggers := {}\<rparr>"

section \<open>Frames and objects\<close>

definition ci_fetch :: "int \<Rightarrow> string \<Rightarrow> bool \<Rightarrow> cache_if \<Rightarrow> string option \<times> cache_if" where
  "ci_fetch now key notriggers c =
     (case module c of
        None \<Rightarrow> (None, c)
      | Some m \<Rightarrow>
          (case fetch now key m of
             (None, m') \<Rightarrow> (None, c\<lparr>module := Some m'\<rparr>)
           | (Some (d, ts, _), m') \<Rightarrow>
               (Some d, (if notriggers then id else ci_add_triggers ts) (c\<lparr>module := Some m'\<rparr>))))"

definition ci_store :: "int \<Rightarrow> string \<Rightarrow> string \<Rightarrow> string set \<Rightarrow> int \<Rightarrow> bool \<Rightarrow> (cache_if, unit) action" where
  "ci_store now key data ts timeout notriggers c =
     (if nocache c then (Inr (), c)
      else
        let c1 = (if notriggers then c else ci_add_trigger key (ci_add_triggers ts c)) in
        case deadtime now timeout of
          Inl x \<Rightarrow> (Inl x, c1)
        | Inr t \<Rightarrow> (Inr (), c1\<lparr>module := map_option (store now key data ts t None) (module c1)\<rparr>))"

text \<open>\<open>fetch_data\<close> and \<open>store_data\<close>: through the archive, with the object's own functions.\<close>

definition ci_fetch_data :: "'a loader \<Rightarrow> int \<Rightarrow> string \<Rightarrow> bool \<Rightarrow> (cache_if, 'a option) action" where
  "ci_fetch_data ld now key notriggers c =
     (case ci_fetch now key notriggers c of
        (None, c') \<Rightarrow> (Inr None, c')
      | (Some buf, c') \<Rightarrow>
          (case fst (ld (str buf)) of Inl x \<Rightarrow> (Inl x, c') | Inr v \<Rightarrow> (Inr (Some v), c')))"

definition ci_store_data :: "'a saver \<Rightarrow> int \<Rightarrow> string \<Rightarrow> 'a \<Rightarrow> string set \<Rightarrow> int \<Rightarrow> bool \<Rightarrow> (cache_if, unit) action" where
  "ci_store_data sv now key v ts timeout notriggers =
     ci_store now key (buffer (sv v empty_archive)) ts timeout notriggers"

section \<open>The invariant\<close>

definition cif_ok :: "cache_if \<Rightarrow> bool" where
  "cif_ok c \<longleftrightarrow> (case module c of None \<Rightarrow> True | Some m \<Rightarrow> cache_ok m) \<and>
     finite (page_triggers c) \<and> (\<forall>(i, T) \<in> set (recorders c). finite T \<and> i < next_recorder c)"

lemma cif_okD: "cif_ok c \<Longrightarrow> module c = Some m \<Longrightarrow> cache_ok m"
  by (simp add: cif_ok_def)

lemma cif_ok_module:
  "cif_ok c \<Longrightarrow> (\<And>m. f = Some m \<Longrightarrow> cache_ok m) \<Longrightarrow> cif_ok (c\<lparr>module := f\<rparr>)"
  by (auto simp: cif_ok_def split: option.splits)

lemma new_cache_if_ok: "(\<And>c. m = Some c \<Longrightarrow> cache_ok c) \<Longrightarrow> cif_ok (new_cache_if m)"
  by (auto simp: cif_ok_def new_cache_if_def split: option.splits)

lemma new_recorder_ok [inv_intros]: "cif_ok c \<Longrightarrow> cif_ok (snd (new_recorder c))"
  by (auto simp: cif_ok_def new_recorder_def)

lemma remove_triggers_recorder_ok [inv_intros]: "cif_ok c \<Longrightarrow> cif_ok (remove_triggers_recorder i c)"
  by (auto simp: cif_ok_def remove_triggers_recorder_def)

lemma detach_ok [inv_intros]: "cif_ok c \<Longrightarrow> cif_ok (snd (detach i c))"
  by (simp add: detach_def remove_triggers_recorder_ok split: option.split)

lemma ci_add_trigger_ok [inv_intros]: "cif_ok c \<Longrightarrow> cif_ok (ci_add_trigger t c)"
  by (auto simp: cif_ok_def ci_add_trigger_def)

lemma ci_add_triggers_ok [inv_intros]: "cif_ok c \<Longrightarrow> cif_ok (ci_add_triggers ts c)"
  by (simp add: ci_add_triggers_def fold_invar ci_add_trigger_ok)

lemma ci_rise_ok [inv_intros]: "cif_ok c \<Longrightarrow> cif_ok (ci_rise t c)"
  by (auto simp: ci_rise_def intro!: cif_ok_module rise_cache_ok dest: cif_okD)

lemma ci_clear_ok [inv_intros]: "cif_ok c \<Longrightarrow> cif_ok (ci_clear c)"
  by (auto simp: ci_clear_def intro!: cif_ok_module clear_cache_ok)

lemma ci_reset_ok [inv_intros]: "cif_ok c \<Longrightarrow> cif_ok (ci_reset c)"
  by (simp add: cif_ok_def ci_reset_def)

lemma ci_fetch_ok [inv_intros]: "cif_ok c \<Longrightarrow> cif_ok (snd (ci_fetch now key n c))"
proof -
  assume ok: "cif_ok c"
  have "cif_ok (c\<lparr>module := Some (snd (fetch now key m))\<rparr>)" if "module c = Some m" for m
    using fetch_cache_ok[OF cif_okD[OF ok that]] by (auto intro: cif_ok_module[OF ok])
  then show ?thesis
    by (auto simp: ci_fetch_def ok split: option.splits prod.splits intro!: ci_add_triggers_ok)
qed

lemma ci_store_ok [inv_intros]:
  assumes ok: "cif_ok c" and ts: "finite ts"
  shows "cif_ok (snd (ci_store now key data ts timeout n c))"
proof -
  let ?c1 = "if n then c else ci_add_trigger key (ci_add_triggers ts c)"
  have c1: "cif_ok ?c1" using ok by (simp add: inv_intros)
  have "cif_ok (?c1\<lparr>module := map_option (store now key data ts t None) (module ?c1)\<rparr>)" for t
    by (rule cif_ok_module[OF c1]) (auto simp del: if_split intro!: store_cache_ok[OF cif_okD[OF c1] ts])
  then show ?thesis
    using ok c1 unfolding ci_store_def Let_def by (simp only: split: sum.split if_split) auto
qed

lemma ci_fetch_data_ok [inv_intros]: "cif_ok c \<Longrightarrow> cif_ok (snd (ci_fetch_data ld now key n c))"
  using ci_fetch_ok[of c now key n]
  by (auto simp: ci_fetch_data_def split: option.splits prod.splits sum.splits)

lemma ci_store_data_ok [inv_intros]:
  "cif_ok c \<Longrightarrow> finite ts \<Longrightarrow> cif_ok (snd (ci_store_data sv now key v ts timeout n c))"
  by (simp add: ci_store_data_def ci_store_ok)

end
