(* ===== verification/Context.thy ===== *)
theory Context
  imports Http_Response Session_Interface Cache_Interface
begin

text \<open>
  One request: the response, the session and the cache interface of \<open>http_context.cpp\<close> side by
  side, the operations that involve several of them (the first output, which saves the
  session and sends the headers; the pages of \<open>cache_interface.cpp\<close>), and what surrounds the
  application's \<open>main\<close> in \<open>context::dispatch\<close>.
\<close>

section \<open>State\<close>

record web =
  rsp :: response
  ses :: "mem_storage session"
  cch :: cache_if

text \<open>
  What does not change while a request is handled: the clock, the settings, the request
  itself. \<open>header\<close> is the CGI variable of a name; \<open>gz\<close>, \<open>http_time\<close> and \<open>translate\<close> stand for
  zlib, the C library's date formatting and the message catalogues; \<open>text_valid\<close> is
  \<open>encoding::valid\<close> for the locale of the request, with the number of code points;
  \<open>regex_match\<close> is \<open>booster::regex_match\<close> (over PCRE), pattern first; \<open>uri_valid\<close> is the URI
  validator of \<open>xss.cpp\<close>.
\<close>

record env =
  now :: int
  scfg :: session_config
  gz :: "string \<Rightarrow> string"
  http_time :: "int \<Rightarrow> string"
  translate :: "string \<Rightarrow> string"
  text_valid :: "string \<Rightarrow> nat option"
  regex_match :: "string \<Rightarrow> string \<Rightarrow> bool"
  uri_valid :: "string \<Rightarrow> bool"
  request_method :: string
  get_params :: "(string \<times> string) list"
  post_params :: "(string \<times> string) list"
  uploads :: "string list"
  header :: "string \<Rightarrow> string"

definition on_response :: "(response \<Rightarrow> response) \<Rightarrow> ('z web_scheme, unit) action" where
  "on_response f = changes (\<lambda>w. w\<lparr>rsp := f (rsp w)\<rparr>)"

definition on_session :: "(mem_storage session \<Rightarrow> mem_storage session) \<Rightarrow> ('z web_scheme, unit) action" where
  "on_session f = changes (\<lambda>w. w\<lparr>ses := f (ses w)\<rparr>)"

definition on_cache :: "(cache_if \<Rightarrow> cache_if) \<Rightarrow> ('z web_scheme, unit) action" where
  "on_cache f = changes (\<lambda>w. w\<lparr>cch := f (cch w)\<rparr>)"

definition in_session :: "(mem_storage session, 'a) action \<Rightarrow> ('z web_scheme, 'a) action" where
  "in_session m w = (case m (ses w) of (r, s) \<Rightarrow> (r, w\<lparr>ses := s\<rparr>))"

definition in_cache :: "(cache_if, 'a) action \<Rightarrow> ('z web_scheme, 'a) action" where
  "in_cache m w = (case m (cch w) of (r, c) \<Rightarrow> (r, w\<lparr>cch := c\<rparr>))"

section \<open>The request\<close>

text \<open>
  \<open>request::get(name)\<close> and \<open>request::post(name)\<close>: the value when there is exactly one, else the
  empty string.
\<close>

definition only_value :: "string \<Rightarrow> (string \<times> string) list \<Rightarrow> string" where
  "only_value name ps = (case filter (\<lambda>(k, v). k = name) ps of [(_, v)] \<Rightarrow> v | _ \<Rightarrow> [])"

definition request_get :: "env \<Rightarrow> string \<Rightarrow> string" where
  "request_get e name = only_value name (get_params e)"

definition request_post :: "env \<Rightarrow> string \<Rightarrow> string" where
  "request_post e name = only_value name (post_params e)"

definition post_or_get_form :: "env \<Rightarrow> (string \<times> string) list" where
  "post_or_get_form e = (if request_method e = ''POST'' then post_params e else get_params e)"

section \<open>Output\<close>

definition out :: "env \<Rightarrow> ('z web_scheme, unit) action" where
  "out e w =
     (if ostream_requested (rsp w) then (Inr (), w)
      else if finalized (rsp w)
      then (Inl (Cppcms_error ''Request for output stream for finalized request is illegal''), w)
      else andThen (on_response out_prepare) (\<lambda>_.
           andThen (in_session (save memory_ops (scfg e) (now e))) (\<lambda>_.
           on_response out_send)) w)"

definition put_out :: "env \<Rightarrow> string \<Rightarrow> ('z web_scheme, unit) action" where
  "put_out e s = andThen (out e) (\<lambda>_. on_response (write_out s))"

definition finalize :: "env \<Rightarrow> ('z web_scheme, unit) action" where
  "finalize e w =
     (if finalized (rsp w) then (Inr (), w)
      else andThen (out e) (\<lambda>_. on_response (\<lambda>r. r\<lparr>finalized := True\<rparr>)) w)"

definition make_error_response :: "env \<Rightarrow> int \<Rightarrow> string \<Rightarrow> ('z web_scheme, unit) action" where
  "make_error_response e stat msg =
     andThen (on_response (status stat)) (\<lambda>_. put_out e (error_page stat msg))"

definition error_response :: "env \<Rightarrow> int \<Rightarrow> ('z web_scheme, unit) action" where
  "error_response e stat = make_error_response e stat []"

section \<open>Cached pages\<close>

definition page_key :: "bool \<Rightarrow> string \<Rightarrow> string" where
  "page_key gzip key = (if gzip then ''_Z:'' else ''_U:'') @ key"

definition fetch_page :: "env \<Rightarrow> string \<Rightarrow> ('z web_scheme, bool) action" where
  "fetch_page e key w =
     (if nocache (cch w) then (Inr False, w)
      else
        let gzip = need_gzip (rsp w);
            c = (cch w)\<lparr>page_compression_used := gzip\<rparr>
        in case ci_fetch (now e) (page_key gzip key) True c of
             (Some tmp, c') \<Rightarrow>
               andThen (on_response (if gzip then content_encoding ''gzip'' else id)) (\<lambda>_.
               andThen (put_out e tmp) (\<lambda>_. ret True)) (w\<lparr>cch := c'\<rparr>)
           | (None, c') \<Rightarrow> andThen (on_response copy_to_cache) (\<lambda>_. ret False) (w\<lparr>cch := c'\<rparr>))"

definition put_page :: "env \<Rightarrow> string \<Rightarrow> ('z web_scheme, unit) action" where
  "put_page e key w =
     (case deadtime (now e) (- 1) of
        Inl x \<Rightarrow> (Inl x, w)
      | Inr t \<Rightarrow>
          (Inr (), w\<lparr>cch := (cch w)\<lparr>module :=
             map_option (store (now e) (page_key (page_compression_used (cch w)) key)
                           (copied_data (gz e) (rsp w)) (page_triggers (cch w)) t None)
               (module (cch w))\<rparr>\<rparr>))"

definition store_page :: "env \<Rightarrow> string \<Rightarrow> ('z web_scheme, unit) action" where
  "store_page e key w =
     (if nocache (cch w) then (Inr (), w)
      else
        andThen (finalize e) (\<lambda>_.
        andThen (on_cache (ci_add_trigger key)) (\<lambda>_. put_page e key)) w)"

definition fetch_frame :: "env \<Rightarrow> string \<Rightarrow> ('z web_scheme, string option) action" where
  "fetch_frame e key = in_cache (\<lambda>c. (case ci_fetch (now e) key False c of (r, c') \<Rightarrow> (Inr r, c')))"

definition store_frame :: "env \<Rightarrow> string \<Rightarrow> string \<Rightarrow> string set \<Rightarrow> ('z web_scheme, unit) action" where
  "store_frame e key frame ts = in_cache (ci_store (now e) key frame ts (- 1) False)"

definition fetch_data :: "env \<Rightarrow> 'a loader \<Rightarrow> string \<Rightarrow> ('z web_scheme, 'a option) action" where
  "fetch_data e ld key = in_cache (ci_fetch_data ld (now e) key False)"

definition store_data :: "env \<Rightarrow> 'a saver \<Rightarrow> string \<Rightarrow> 'a \<Rightarrow> string set \<Rightarrow> ('z web_scheme, unit) action" where
  "store_data e sv key v ts = in_cache (ci_store_data sv (now e) key v ts (- 1) False)"

section \<open>Around the application\<close>

text \<open>
  \<open>context::dispatch\<close> for a synchronous application: load the session, run \<open>main\<close>, turn an
  exception into an error page unless output has started, and complete the response. The
  second call of \<open>load\<close> finds the session loaded and does nothing.
\<close>

definition make_error_message :: "env \<Rightarrow> ('z web_scheme, unit) action" where
  "make_error_message e w = (if ostream_requested (rsp w) then (Inr (), w) else error_response e 500 w)"

definition translate_exception :: "env \<Rightarrow> exn \<Rightarrow> ('z web_scheme, unit) action" where
  "translate_exception e x w =
     (if x = Request_forgery_error
      then (if ostream_requested (rsp w) then (Inr (), w) else error_response e 403 w)
      else make_error_message e w)"

definition dispatch_request :: "env \<Rightarrow> ('z web_scheme, unit) action \<Rightarrow> ('z web_scheme, unit) action" where
  "dispatch_request e main w =
     (case andThen (in_session (load memory_ops (scfg e) (now e))) (\<lambda>_.
           andThen (in_session (load memory_ops (scfg e) (now e))) (\<lambda>_. main)) w of
        (Inr (), w') \<Rightarrow> finalize e w'
      | (Inl x, w') \<Rightarrow> andThen (translate_exception e x) (\<lambda>_. finalize e) w')"

section \<open>What every request keeps\<close>

definition web_ok :: "'z web_scheme \<Rightarrow> bool" where
  "web_ok w \<longleftrightarrow> cif_ok (cch w) \<and> storage_ok (sstore (ses w))"

lemma web_ok_rsp [simp]: "web_ok (w\<lparr>rsp := r\<rparr>) \<longleftrightarrow> web_ok w"
  by (simp add: web_ok_def)

lemma keeps_on_response [keeps_intros]: "keeps web_ok (on_response f)"
  by (simp add: on_response_def keeps_def)

lemma keeps_on_session [keeps_intros]:
  "(\<And>s. sstore (f s) = sstore s) \<Longrightarrow> keeps web_ok (on_session f)"
  by (simp add: on_session_def keeps_def web_ok_def)

lemma keeps_on_cache [keeps_intros]: "(\<And>c. cif_ok c \<Longrightarrow> cif_ok (f c)) \<Longrightarrow> keeps web_ok (on_cache f)"
  by (simp add: on_cache_def keeps_def web_ok_def)

lemma keeps_in_cache [keeps_intros]: "(\<And>c. cif_ok c \<Longrightarrow> cif_ok (snd (m c))) \<Longrightarrow> keeps web_ok (in_cache m)"
  by (simp add: in_cache_def keeps_def web_ok_def split_beta)

lemma keeps_in_session:
  "(\<And>s. storage_ok (sstore s) \<Longrightarrow> storage_ok (sstore (snd (m s)))) \<Longrightarrow> keeps web_ok (in_session m)"
  by (simp add: in_session_def keeps_def web_ok_def split_beta)

lemma keeps_out [keeps_intros]: "keeps web_ok (out e)"
proof -
  have "keeps web_ok (andThen (on_response out_prepare) (\<lambda>_.
      andThen (in_session (save memory_ops (scfg e) (now e))) (\<lambda>_. on_response out_send)) :: ('z web_scheme, unit) action)"
    by (intro keeps_intros keeps_in_session mem_store.save_ok)
  then show ?thesis by (auto simp: keeps_def out_def)
qed

lemma keeps_put_out [keeps_intros]: "keeps web_ok (put_out e s)"
  unfolding put_out_def by (intro keeps_intros)

lemma keeps_finalize [keeps_intros]: "keeps web_ok (finalize e)"
proof -
  have "keeps web_ok (andThen (out e) (\<lambda>_. on_response (\<lambda>r. r\<lparr>finalized := True\<rparr>)) :: ('z web_scheme, unit) action)"
    by (intro keeps_intros)
  then show ?thesis by (auto simp: keeps_def finalize_def)
qed

lemma keeps_error_response [keeps_intros]: "keeps web_ok (error_response e stat)"
  unfolding error_response_def make_error_response_def by (intro keeps_intros)

lemma keeps_fetch_page [keeps_intros]: "keeps web_ok (fetch_page e key)"
proof
  fix w :: "'z web_scheme"
  assume w: "web_ok w"
  let ?g = "need_gzip (rsp w)"
  let ?c = "(cch w)\<lparr>page_compression_used := ?g\<rparr>"
  obtain r c' where f: "ci_fetch (now e) (page_key ?g key) True ?c = (r, c')"
    by (cases "ci_fetch (now e) (page_key ?g key) True ?c")
  have "cif_ok ?c" using w by (simp add: web_ok_def cif_ok_def)
  then have w': "web_ok (w\<lparr>cch := c'\<rparr>)" using w ci_fetch_ok[of ?c "now e" "page_key ?g key" True] f by (simp add: web_ok_def)
  have k1: "keeps web_ok (andThen (on_response h) (\<lambda>_. andThen (put_out e t) (\<lambda>_. ret True))
      :: ('z web_scheme, bool) action)" for h t
    by (intro keeps_intros)
  have k2: "keeps web_ok (andThen (on_response copy_to_cache) (\<lambda>_. ret False) :: ('z web_scheme, bool) action)"
    by (intro keeps_intros)
  show "web_ok (snd (fetch_page e key w))"
    using w f keepsD[OF k1 w'] keepsD[OF k2 w'] by (auto simp: fetch_page_def Let_def split: option.split)
qed

lemma keeps_put_page [keeps_intros]: "keeps web_ok (put_page e key)"
proof
  fix w :: "'z web_scheme"
  assume w: "web_ok w"
  then have c: "cif_ok (cch w)" "finite (page_triggers (cch w))" by (simp_all add: web_ok_def cif_ok_def)
  have "cif_ok ((cch w)\<lparr>module :=
                  map_option (store (now e) (page_key (page_compression_used (cch w)) key)
                                (copied_data (gz e) (rsp w)) (page_triggers (cch w)) t None)
                    (module (cch w))\<rparr>)" for t
    by (rule cif_ok_module[OF c(1)]) (auto intro!: store_cache_ok[OF cif_okD[OF c(1)] c(2)])
  then show "web_ok (snd (put_page e key w))"
    using w by (auto simp: put_page_def web_ok_def split: sum.split)
qed

lemma keeps_store_page [keeps_intros]: "keeps web_ok (store_page e key)"
proof -
  have "keeps web_ok (andThen (finalize e) (\<lambda>_.
        andThen (on_cache (ci_add_trigger key)) (\<lambda>_. put_page e key)) :: ('z web_scheme, unit) action)"
    by (intro keeps_intros ci_add_trigger_ok)
  then show ?thesis by (auto simp: keeps_def store_page_def)
qed

lemma keeps_fetch_frame [keeps_intros]: "keeps web_ok (fetch_frame e key)"
  unfolding fetch_frame_def by (intro keeps_in_cache) (simp add: split_beta ci_fetch_ok)

lemma keeps_store_frame [keeps_intros]: "finite ts \<Longrightarrow> keeps web_ok (store_frame e key frame ts)"
  unfolding store_frame_def by (intro keeps_in_cache ci_store_ok)

lemma keeps_fetch_data [keeps_intros]: "keeps web_ok (fetch_data e ld key)"
  unfolding fetch_data_def by (intro keeps_in_cache ci_fetch_data_ok)

lemma keeps_store_data [keeps_intros]: "finite ts \<Longrightarrow> keeps web_ok (store_data e sv key v ts)"
  unfolding store_data_def by (intro keeps_in_cache ci_store_data_ok)

section \<open>What lies beside the request stays\<close>

text \<open>Whatever a state has beyond the fields of \<open>web\<close> is not touched by the operations above.\<close>

definition rest_is :: "'z \<Rightarrow> 'z web_scheme \<Rightarrow> bool" where
  "rest_is c w \<longleftrightarrow> web.more w = c"

lemma rest_prims [keeps_intros]:
  "keeps (rest_is c) (on_response f)" "keeps (rest_is c) (on_session g)" "keeps (rest_is c) (on_cache h)"
  "keeps (rest_is c) (in_session m)" "keeps (rest_is c) (in_cache n)"
  by (simp_all add: keeps_def rest_is_def on_response_def on_session_def on_cache_def in_session_def
      in_cache_def split_beta)

lemma rest_out [keeps_intros]: "keeps (rest_is c) (out e)"
proof -
  have "keeps (rest_is c) (andThen (on_response out_prepare) (\<lambda>_.
      andThen (in_session (save memory_ops (scfg e) (now e))) (\<lambda>_. on_response out_send)))"
    by (intro keeps_intros)
  then show ?thesis by (auto simp: keeps_def out_def)
qed

lemma rest_put_out [keeps_intros]: "keeps (rest_is c) (put_out e s)"
  unfolding put_out_def by (intro keeps_intros)

lemma rest_finalize [keeps_intros]: "keeps (rest_is c) (finalize e)"
proof -
  have "keeps (rest_is c) (andThen (out e) (\<lambda>_. on_response (\<lambda>r. r\<lparr>finalized := True\<rparr>)))"
    by (intro keeps_intros)
  then show ?thesis by (auto simp: keeps_def finalize_def)
qed

lemma rest_error_response [keeps_intros]: "keeps (rest_is c) (error_response e stat)"
  unfolding error_response_def make_error_response_def by (intro keeps_intros)

lemma rest_cch [simp]: "rest_is c (w\<lparr>cch := x\<rparr>) \<longleftrightarrow> rest_is c w"
  by (simp add: rest_is_def)

lemma rest_fetch_page [keeps_intros]: "keeps (rest_is c) (fetch_page e key)"
proof
  fix w assume w: "rest_is c w"
  have k1: "keeps (rest_is c) (andThen (on_response h) (\<lambda>_. andThen (put_out e t) (\<lambda>_. ret True)))" for h t
    by (intro keeps_intros)
  have k2: "keeps (rest_is c) (andThen (on_response copy_to_cache) (\<lambda>_. ret False))"
    by (intro keeps_intros)
  show "rest_is c (snd (fetch_page e key w))"
    using w by (auto simp: fetch_page_def Let_def intro!: keepsD[OF k1] keepsD[OF k2] split: option.split prod.split)
qed

lemma rest_put_page [keeps_intros]: "keeps (rest_is c) (put_page e key)"
  by (simp add: keeps_def put_page_def split: sum.split)

lemma rest_store_page [keeps_intros]: "keeps (rest_is c) (store_page e key)"
proof -
  have "keeps (rest_is c) (andThen (finalize e) (\<lambda>_.
        andThen (on_cache (ci_add_trigger key)) (\<lambda>_. put_page e key)))"
    by (intro keeps_intros)
  then show ?thesis by (auto simp: keeps_def store_page_def)
qed

lemma rest_frames [keeps_intros]:
  "keeps (rest_is c) (fetch_frame e key)" "keeps (rest_is c) (store_frame e key frame ts)"
  "keeps (rest_is c) (fetch_data e ld key)" "keeps (rest_is c) (store_data e sv key v ts)"
  unfolding fetch_frame_def store_frame_def fetch_data_def store_data_def by (intro keeps_intros)+

section \<open>A request to try things with\<close>

definition example_env :: "string \<Rightarrow> (string \<times> string) list \<Rightarrow> env" where
  "example_env method ps = \<lparr>now = 5, scfg = example_config, gz = rev, http_time = dec, translate = id,
     text_valid = (\<lambda>s. Some (length s)), regex_match = (\<lambda>p s. s = [] \<or> CHR ''@'' \<in> set s),
     uri_valid = (\<lambda>u. starts_with ''http:'' u), request_method = method, get_params = [],
     post_params = ps, uploads = [], header = (\<lambda>_. [])\<rparr>"

definition example_response :: response where
  "example_response = \<lparr>headers = Map.empty, added_headers = [], charset = Some ''UTF-8'',
     client_gzip = True, io_mode_normal = True, disable_compression = False,
     ostream_requested = False, copy_to_cache_flag = False, finalized = False, zbuf_open = False,
     cached_open = False, sent = None, body = []\<rparr>"

definition example_web :: "mem_storage session \<Rightarrow> web" where
  "example_web s = \<lparr>rsp = example_response, ses = s, cch = new_cache_if (Some (new_cache 8))\<rparr>"

lemma example_web_ok: "storage_ok (sstore s) \<Longrightarrow> web_ok (example_web s)"
  by (auto simp: web_ok_def example_web_def intro!: new_cache_if_ok new_cache_ok)

section \<open>A cached page is the page\<close>

lemma need_gzip_encoded: "\<not> need_gzip (content_encoding ''gzip'' r)"
  by (simp add: need_gzip_def content_encoding_def get_set_header compare_nocase_eq_0)

lemma out_saves:
  assumes "\<not> ostream_requested (rsp w)" "\<not> finalized (rsp w)"
    and "fst (save memory_ops (scfg e) (now e) (ses w)) = Inr ()"
  shows "out e w = (Inr (), w\<lparr>rsp := out_send (out_prepare (rsp w)),
     ses := snd (save memory_ops (scfg e) (now e) (ses w))\<rparr>)"
  using assms by (cases "save memory_ops (scfg e) (now e) (ses w)")
    (simp add: out_def on_response_def changes_apply andThen_def in_session_def)

lemma store_page_module:
  assumes "module (cch w) = Some m" "ostream_requested (rsp w)"
  shows "store_page e key w = (Inr (), snd (store_page e key w)) \<and>
     module (cch (snd (store_page e key w))) =
       Some (store (now e) (page_key (page_compression_used (cch w)) key)
               (copied_data (gz e) (rsp w)) (insert key (page_triggers (cch w))) infty None m) \<and>
     wire_body (gz e) (rsp (snd (store_page e key w))) = wire_body (gz e) (rsp w)"
  using assms
  by (simp add: store_page_def nocache_def finalize_def out_def andThen_def on_response_def on_cache_def
      changes_apply ci_add_trigger_def put_page_def deadtime_def copied_data_def wire_body_def)

text \<open>
  Property C15. A page that was stored is replayed byte for byte: the next request with the same
  key and the same need for compression, before the page is evicted or a trigger raised, gets
  from the cache exactly the bytes the first client got.
\<close>

theorem cached_page_is_replayed:
  assumes "cif_ok (cch w)" "module (cch w) = Some m"
    and "ostream_requested (rsp w)" "copy_to_cache_flag (rsp w)" "cached_open (rsp w)"
    and "module (cch w2) = module (cch (snd (store_page e key w)))"
    and "need_gzip (rsp w2) = page_compression_used (cch w)"
    and "\<not> ostream_requested (rsp w2)" "\<not> finalized (rsp w2)" "\<not> zbuf_open (rsp w2)" "body (rsp w2) = []"
    and "fst (save memory_ops (scfg e2) (now e2) (ses w2)) = Inr ()" "now e2 \<le> infty"
  shows "fst (store_page e key w) = Inr () \<and> fst (fetch_page e2 key w2) = Inr True \<and>
     wire_body (gz e2) (rsp (snd (fetch_page e2 key w2))) =
       wire_body (gz e) (rsp (snd (store_page e key w)))"
proof -
  let ?g = "page_compression_used (cch w)" and ?d = "copied_data (gz e) (rsp w)"
  let ?m = "store (now e) (page_key ?g key) ?d (insert key (page_triggers (cch w))) infty None m"
  have s: "fst (store_page e key w) = Inr ()" "module (cch w2) = Some ?m"
    "wire_body (gz e) (rsp (snd (store_page e key w))) = ?d"
    using store_page_module[OF assms(2,3), of e key] assms(3-6) copied_is_wire[of "rsp w" "gz e"]
    by (simp_all add: prod_eq_iff)
  have fin: "finite (insert key (page_triggers (cch w)))" using assms(1) by (simp add: cif_ok_def)
  obtain M g where "cache_abs ?m = M(page_key ?g key \<mapsto>
      (?d, insert (page_key ?g key) (insert key (page_triggers (cch w))), infty, g))"
    using cache_abs_store[OF cif_okD[OF assms(1,2)] fin] by blast
  then have "fst (fetch (now e2) (page_key ?g key) ?m) =
      Some (?d, insert (page_key ?g key) (insert key (page_triggers (cch w))), infty, g)"
    using assms(13) by (simp add: cache_abs_fetch)
  then obtain c' where f: "ci_fetch (now e2) (page_key ?g key) True
      ((cch w2)\<lparr>page_compression_used := ?g\<rparr>) = (Some ?d, c')"
    using s(2) by (cases "fetch (now e2) (page_key ?g key) ?m") (auto simp: ci_fetch_def)
  let ?r = "(if ?g then content_encoding ''gzip'' else id) (rsp w2)"
  let ?w = "w2\<lparr>cch := c', rsp := ?r\<rparr>"
  have r: "\<not> need_gzip ?r" "\<not> ostream_requested ?r" "\<not> finalized ?r" "\<not> zbuf_open ?r" "body ?r = []"
    using assms(7-11) need_gzip_encoded by (simp_all add: content_encoding_def)
  have "fetch_page e2 key w2 = andThen (put_out e2 ?d) (\<lambda>_. ret True) ?w"
    using s(2) f assms(7)
    by (simp add: fetch_page_def nocache_def Let_def andThen_def on_response_def changes_apply)
  also have "\<dots> = (Inr True, ?w\<lparr>rsp := write_out ?d (out_send (out_prepare ?r)),
     ses := snd (save memory_ops (scfg e2) (now e2) (ses w2))\<rparr>)"
    using out_saves[of ?w e2] r assms(12) by (simp add: put_out_def andThen_def on_response_def changes_apply)
  finally have "fetch_page e2 key w2 = \<dots>" .
  then show ?thesis
    using s r by (simp add: wire_body_def write_out_def out_send_def out_prepare_def)
qed

theorem cached_page_is_replayed_witness:
  "let w = (example_web example_session)\<lparr>rsp := example_response\<lparr>ostream_requested := True,
             copy_to_cache_flag := True, cached_open := True, body := ''html''\<rparr>\<rparr>;
       e = example_env ''GET'' [];
       w2 = (example_web (example_session\<lparr>loaded := False\<rparr>))\<lparr>cch := cch (snd (store_page e ''post_1'' w))\<rparr>
   in wire_body rev (rsp (snd (fetch_page e ''post_1'' w2))) = ''html''"
proof -
  let ?w = "(example_web example_session)\<lparr>rsp := example_response\<lparr>ostream_requested := True,
             copy_to_cache_flag := True, cached_open := True, body := ''html''\<rparr>\<rparr>"
  let ?e = "example_env ''GET'' []"
  let ?w2 = "(example_web (example_session\<lparr>loaded := False\<rparr>))\<lparr>cch := cch (snd (store_page ?e ''post_1'' ?w))\<rparr>"
  have c: "cif_ok (cch ?w)" using example_web_ok[of example_session] by (simp add: web_ok_def)
  have m: "module (cch ?w) = Some (new_cache 8)" by (simp add: example_web_def new_cache_if_def)
  have g: "\<not> need_gzip (rsp ?w2)"
    by (simp add: example_web_def example_response_def need_gzip_def get_header_def is_prefix_of_def)
  have s: "fst (save memory_ops (scfg ?e) (now ?e) (ses ?w2)) = Inr ()"
    by (simp add: save_def example_web_def)
  have "wire_body rev (rsp (snd (store_page ?e ''post_1'' ?w))) = ''html''"
    using store_page_module[OF m, of ?e "''post_1''"]
    by (simp add: example_env_def example_response_def wire_body_def)
  then show ?thesis
    using cached_page_is_replayed[OF c m, of ?w2 ?e "''post_1''" ?e] g s
    by (simp add: example_web_def example_response_def example_env_def new_cache_if_def infty_def Let_def)
qed

end
