(* ===== verification/Forms.thy ===== *)
theory Forms
  imports Context
begin

text \<open>
  The forms of the blog (\<open>data/blog/post.h\<close>, \<open>data/admin/*.h\<close>, \<open>data/config.h\<close>, the form in
  \<open>apps/admin/categories.cpp\<close>, and \<open>comment_form::validate\<close> in \<open>apps/blog/post.cpp\<close>) over the
  widgets of \<open>lib/cppcms/src/form.cpp\<close>. A widget without a name of its own gets one from its
  position in the form (\<open>_1\<close>, \<open>_2\<close>, ...). Only loading and validation are modelled, not HTML.
\<close>

section \<open>Widgets\<close>

record text_field =
  tf_value :: string
  tf_set :: bool
  tf_valid :: bool
  tf_points :: nat

definition blank_field :: text_field where
  "blank_field = \<lparr>tf_value = [], tf_set = False, tf_valid = True, tf_points = 0\<rparr>"

definition set_value :: "string \<Rightarrow> text_field \<Rightarrow> text_field" where
  "set_value v f = f\<lparr>tf_set := True, tf_value := v\<rparr>"

definition load_text :: "env \<Rightarrow> string \<Rightarrow> text_field" where
  "load_text e name =
     (case map_of (post_or_get_form e) name of
        None \<Rightarrow> \<lparr>tf_value = [], tf_set = True, tf_valid = True, tf_points = 0\<rparr>
      | Some v \<Rightarrow>
          (case text_valid e v of
             Some n \<Rightarrow> \<lparr>tf_value = v, tf_set = True, tf_valid = True, tf_points = n\<rparr>
           | None \<Rightarrow> \<lparr>tf_value = v, tf_set = True, tf_valid = False, tf_points = 0\<rparr>))"

definition validate_text :: "int \<Rightarrow> int \<Rightarrow> text_field \<Rightarrow> bool \<times> text_field" where
  "validate_text low high f =
     (if \<not> tf_valid f then (False, f)
      else if \<not> tf_set f \<and> low = 0 \<and> high = - 1 then (True, f\<lparr>tf_valid := True\<rparr>)
      else if tf_points f < nat low \<or> high \<ge> 0 \<and> tf_points f > nat high
      then (False, f\<lparr>tf_valid := False\<rparr>)
      else (True, f))"

definition validate_regex :: "env \<Rightarrow> string \<Rightarrow> int \<Rightarrow> int \<Rightarrow> text_field \<Rightarrow> bool \<times> text_field" where
  "validate_regex e expr low high f =
     (case validate_text low high f of
        (False, f) \<Rightarrow> (False, f)
      | (True, f) \<Rightarrow> (let v = tf_set f \<and> regex_match e expr (tf_value f) in (v, f\<lparr>tf_valid := v\<rparr>)))"

text \<open>\<open>password::validate\<close>; the second widget is the one given to \<open>check_equal\<close>.\<close>

definition validate_password ::
    "int \<Rightarrow> int \<Rightarrow> text_field \<Rightarrow> text_field option \<Rightarrow> bool \<times> text_field \<times> text_field option" where
  "validate_password low high f other =
     (case validate_text low high f of
        (False, f) \<Rightarrow> (False, set_value [] f, other)
      | (True, f) \<Rightarrow>
          (case other of
             None \<Rightarrow> (True, f, None)
           | Some p2 \<Rightarrow>
               if \<not> tf_set p2 \<or> \<not> tf_set f \<or> tf_value p2 \<noteq> tf_value f
               then (False, set_value [] (f\<lparr>tf_valid := False\<rparr>), Some (set_value [] p2))
               else (True, f, Some p2)))"

definition load_submit :: "env \<Rightarrow> string \<Rightarrow> bool" where
  "load_submit e name \<longleftrightarrow> map_of (post_or_get_form e) name \<noteq> None"

definition load_checkbox :: "env \<Rightarrow> string \<Rightarrow> string \<Rightarrow> bool" where
  "load_checkbox e name ident \<longleftrightarrow> (name, ident) \<in> set (post_or_get_form e)"

text \<open>The name \<open>base_widget::generate\<close> gives to the widget at a position.\<close>

definition auto_name :: "nat \<Rightarrow> string" where
  "auto_name position = ''_'' @ dec (int position)"

text \<open>
  \<open>pre_load\<close> of the first widget checks the origin of the request; the following ones find it
  checked. So a form with at least one widget is loaded after exactly one check.
\<close>

definition check_origin :: "env \<Rightarrow> ('z web_scheme, unit) action" where
  "check_origin e = in_session (validate_request_origin (scfg e) (request_method e) (post_params e)
     (header e ''HTTP_X_CSRFTOKEN''))"

definition load_form :: "env \<Rightarrow> (env \<Rightarrow> 'f) \<Rightarrow> ('z web_scheme, 'f) action" where
  "load_form e ld = andThen (check_origin e) (\<lambda>_. ret (ld e))"

section \<open>The comment form of a post\<close>

record comment_form =
  cf_author :: text_field
  cf_mail :: text_field
  cf_url :: text_field
  cf_content :: text_field
  cf_captcha :: text_field
  cf_send :: bool
  cf_preview :: bool

definition load_comment_form :: "env \<Rightarrow> comment_form" where
  "load_comment_form e =
     \<lparr>cf_author = load_text e (auto_name 1), cf_mail = load_text e (auto_name 2),
      cf_url = load_text e (auto_name 3), cf_content = load_text e (auto_name 4),
      cf_captcha = load_text e ''captcha'', cf_send = load_submit e (auto_name 5),
      cf_preview = load_submit e (auto_name 6)\<rparr>"

definition mail_regex :: string where
  "mail_regex = ''([^@]+@[^@]+)?''"

definition comment_widgets_valid :: "env \<Rightarrow> comment_form \<Rightarrow> bool \<times> comment_form" where
  "comment_widgets_valid e f =
     (let (a, author) = validate_text 0 256 (cf_author f);
          (m, mail) = validate_regex e mail_regex 0 256 (cf_mail f);
          (u, url) = validate_text 0 (- 1) (cf_url f);
          (t, content) = validate_text 1 32768 (cf_content f);
          (c, captcha) = validate_text 0 (- 1) (cf_captcha f)
      in (a \<and> m \<and> u \<and> t \<and> c,
          f\<lparr>cf_author := author, cf_mail := mail, cf_url := url, cf_content := content,
            cf_captcha := captcha\<rparr>))"

definition ascii_lower :: "char \<Rightarrow> char" where
  "ascii_lower c = (if is_upper c then chr (byte c + 32) else c)"

definition equal_ci :: "string \<Rightarrow> string \<Rightarrow> bool" where
  "equal_ci l r \<longleftrightarrow> length l = length r \<and> list_all2 (\<lambda>a b. ascii_lower a = ascii_lower b) l r"

text \<open>The captcha: a right answer makes the session a visitor's, a wrong one clears it.\<close>

definition check_captcha :: "string \<Rightarrow> ('s, 'z) session_scheme \<Rightarrow> bool \<times> ('s, 'z) session_scheme" where
  "check_captcha answer s =
     (case sget ''captcha'' s of
        Inr code \<Rightarrow>
          if equal_ci code answer
          then (True, set_age (3600 * 24 * 7) (expiration fixed (on_server False
                  (expose ''visitor'' True (sset ''visitor'' ''1'' s)))))
          else (False, sclear s)
      | Inl _ \<Rightarrow> (False, sclear s))"

definition visitor_fields_valid :: "env \<Rightarrow> comment_form \<Rightarrow> bool \<times> comment_form" where
  "visitor_fields_valid e f =
     (let a = (tf_value (cf_author f) \<noteq> []);
          m = (tf_value (cf_mail f) \<noteq> []);
          u = (tf_value (cf_url f) = [] \<or> uri_valid e (escape (tf_value (cf_url f))))
      in (a \<and> m \<and> u,
          f\<lparr>cf_author := (cf_author f)\<lparr>tf_valid := a \<and> tf_valid (cf_author f)\<rparr>,
            cf_mail := (cf_mail f)\<lparr>tf_valid := m \<and> tf_valid (cf_mail f)\<rparr>,
            cf_url := (cf_url f)\<lparr>tf_valid := u \<and> tf_valid (cf_url f)\<rparr>\<rparr>))"

definition comment_form_validate ::
    "env \<Rightarrow> comment_form \<Rightarrow> ('s, 'z) session_scheme \<Rightarrow> (bool \<times> comment_form) \<times> ('s, 'z) session_scheme" where
  "comment_form_validate e f s =
     (case comment_widgets_valid e f of
        (False, f) \<Rightarrow> ((False, f), s)
      | (True, f) \<Rightarrow>
          if is_set ''user'' s then ((True, f), s)
          else if is_set ''visitor'' s then ((True, f), s)
          else
            let (c, s) = check_captcha (tf_value (cf_captcha f)) s;
                f = f\<lparr>cf_captcha := (cf_captcha f)\<lparr>tf_valid := c \<and> tf_valid (cf_captcha f)\<rparr>\<rparr>;
                (v, f) = visitor_fields_valid e f
            in ((c \<and> v, f), s))"

section \<open>The forms of the administration\<close>

record login_form =
  lf_username :: text_field
  lf_password :: text_field
  lf_login :: bool

definition load_login_form :: "env \<Rightarrow> login_form" where
  "load_login_form e =
     \<lparr>lf_username = load_text e (auto_name 1), lf_password = load_text e (auto_name 2),
      lf_login = load_submit e (auto_name 3)\<rparr>"

definition login_form_validate :: "login_form \<Rightarrow> bool \<times> login_form" where
  "login_form_validate f =
     (let (u, username) = validate_text 1 (- 1) (lf_username f);
          (p, password, _) = validate_password 1 (- 1) (lf_password f) None
      in (u \<and> p, f\<lparr>lf_username := username, lf_password := password\<rparr>))"

record user_form =
  uf_username :: text_field
  uf_password :: text_field
  uf_save :: bool

definition load_user_form :: "env \<Rightarrow> user_form" where
  "load_user_form e =
     \<lparr>uf_username = load_text e (auto_name 1), uf_password = load_text e (auto_name 2),
      uf_save = load_submit e (auto_name 3)\<rparr>"

definition user_form_validate :: "user_form \<Rightarrow> bool \<times> user_form" where
  "user_form_validate f =
     (let (u, username) = validate_text 1 (- 1) (uf_username f);
          (p, password) = validate_text 1 (- 1) (uf_password f)
      in (u \<and> p, f\<lparr>uf_username := username, uf_password := password\<rparr>))"

record options_form =
  of_title :: text_field
  of_subtitle :: text_field
  of_contact :: text_field
  of_copyright :: text_field

definition load_options_form :: "env \<Rightarrow> options_form" where
  "load_options_form e =
     \<lparr>of_title = load_text e (auto_name 1), of_subtitle = load_text e (auto_name 2),
      of_contact = load_text e (auto_name 3), of_copyright = load_text e (auto_name 4)\<rparr>"

definition options_form_validate :: "options_form \<Rightarrow> bool \<times> options_form" where
  "options_form_validate f =
     (let (a, t) = validate_text 1 (- 1) (of_title f);
          (b, s) = validate_text 1 (- 1) (of_subtitle f);
          (c, k) = validate_text 0 (- 1) (of_contact f);
          (d, r) = validate_text 0 (- 1) (of_copyright f)
      in (a \<and> b \<and> c \<and> d, \<lparr>of_title = t, of_subtitle = s, of_contact = k, of_copyright = r\<rparr>))"

record config_form =
  gf_title :: text_field
  gf_subtitle :: text_field
  gf_contact :: text_field
  gf_username :: text_field
  gf_p1 :: text_field
  gf_p2 :: text_field

definition load_config_form :: "env \<Rightarrow> config_form" where
  "load_config_form e =
     \<lparr>gf_title = load_text e (auto_name 1), gf_subtitle = load_text e (auto_name 2),
      gf_contact = load_text e (auto_name 3), gf_username = load_text e (auto_name 4),
      gf_p1 = load_text e (auto_name 5), gf_p2 = load_text e (auto_name 6)\<rparr>"

definition config_form_validate :: "config_form \<Rightarrow> bool \<times> config_form" where
  "config_form_validate f =
     (let (a, t) = validate_text 1 (- 1) (gf_title f);
          (b, s) = validate_text 1 (- 1) (gf_subtitle f);
          (c, k) = validate_text 0 (- 1) (gf_contact f);
          (d, u) = validate_text 1 (- 1) (gf_username f);
          (p, p1, q) = validate_password 1 (- 1) (gf_p1 f) (Some (gf_p2 f));
          (r, p2, _) = validate_password 1 (- 1) (the q) None
      in (a \<and> b \<and> c \<and> d \<and> p \<and> r,
          \<lparr>gf_title = t, gf_subtitle = s, gf_contact = k, gf_username = u, gf_p1 = p1, gf_p2 = p2\<rparr>))"

record edit_comment_form =
  ef_author :: text_field
  ef_url :: text_field
  ef_mail :: text_field
  ef_content :: text_field
  ef_erase :: bool
  ef_confirm :: bool

definition load_edit_comment_form :: "env \<Rightarrow> edit_comment_form" where
  "load_edit_comment_form e =
     \<lparr>ef_author = load_text e (auto_name 1), ef_url = load_text e (auto_name 2),
      ef_mail = load_text e (auto_name 3), ef_content = load_text e (auto_name 4),
      ef_erase = load_submit e (auto_name 6), ef_confirm = load_checkbox e (auto_name 7) ''y''\<rparr>"

definition edit_comment_form_validate :: "edit_comment_form \<Rightarrow> bool \<times> edit_comment_form" where
  "edit_comment_form_validate f =
     (let (a, author) = validate_text 1 256 (ef_author f);
          (u, url) = validate_text 0 (- 1) (ef_url f);
          (m, mail) = validate_text 0 (- 1) (ef_mail f);
          (c, content) = validate_text 1 32768 (ef_content f);
          f' = f\<lparr>ef_author := author, ef_url := url, ef_mail := mail, ef_content := content\<rparr>
      in if \<not> (a \<and> u \<and> m \<and> c) then (False, f')
         else (\<not> (ef_erase f \<and> \<not> ef_confirm f), f'))"

text \<open>The buttons shared by the forms of a page and of a post.\<close>

record edit_buttons =
  eb_save :: bool
  eb_save_and_continue :: bool
  eb_change_status :: bool
  eb_remove :: bool
  eb_really_remove :: bool

definition load_edit_buttons :: "env \<Rightarrow> nat \<Rightarrow> edit_buttons" where
  "load_edit_buttons e i =
     \<lparr>eb_save = load_submit e (auto_name i), eb_save_and_continue = load_submit e (auto_name (i + 1)),
      eb_change_status = load_submit e (auto_name (i + 2)), eb_remove = load_submit e (auto_name (i + 3)),
      eb_really_remove = load_checkbox e (auto_name (i + 4)) ''y''\<rparr>"

record page_form =
  pg_title :: text_field
  pg_content :: text_field
  pg_buttons :: edit_buttons

definition load_page_form :: "env \<Rightarrow> page_form" where
  "load_page_form e =
     \<lparr>pg_title = load_text e (auto_name 1), pg_content = load_text e (auto_name 2),
      pg_buttons = load_edit_buttons e 3\<rparr>"

definition page_form_validate :: "page_form \<Rightarrow> bool \<times> page_form" where
  "page_form_validate f =
     (let (a, t) = validate_text 1 (- 1) (pg_title f);
          (b, c) = validate_text 1 (- 1) (pg_content f);
          f' = f\<lparr>pg_title := t, pg_content := c\<rparr>
      in if \<not> (a \<and> b) then (False, f')
         else (\<not> (eb_remove (pg_buttons f) \<and> \<not> eb_really_remove (pg_buttons f)), f'))"

text \<open>
  The form of a post ends with one checkbox per category: first those the post can be added
  to, then those it is in. A checkbox is the identification of its category and its value.
\<close>

record post_form =
  pf_title :: text_field
  pf_abstract :: text_field
  pf_content :: text_field
  pf_buttons :: edit_buttons
  pf_backurl :: text_field
  pf_add :: "(int \<times> bool) list"
  pf_del :: "(int \<times> bool) list"

fun load_checkboxes :: "env \<Rightarrow> nat \<Rightarrow> int list \<Rightarrow> (int \<times> bool) list" where
  "load_checkboxes e i [] = []"
| "load_checkboxes e i (c # cs) = (c, load_checkbox e (auto_name i) (dec c)) # load_checkboxes e (i + 1) cs"

definition load_post_form :: "int list \<Rightarrow> int list \<Rightarrow> env \<Rightarrow> post_form" where
  "load_post_form add_cats del_cats e =
     \<lparr>pf_title = load_text e (auto_name 1), pf_abstract = load_text e (auto_name 2),
      pf_content = load_text e (auto_name 3), pf_buttons = load_edit_buttons e 4,
      pf_backurl = load_text e (auto_name 9), pf_add = load_checkboxes e 10 add_cats,
      pf_del = load_checkboxes e (10 + length add_cats) del_cats\<rparr>"

definition post_form_validate :: "post_form \<Rightarrow> bool \<times> post_form" where
  "post_form_validate f =
     (let (a, t) = validate_text 1 (- 1) (pf_title f);
          (b, s) = validate_text 1 (- 1) (pf_abstract f);
          (c, k) = validate_text 0 (- 1) (pf_content f);
          (d, u) = validate_text 0 (- 1) (pf_backurl f);
          f' = f\<lparr>pf_title := t, pf_abstract := s, pf_content := k, pf_backurl := u\<rparr>
      in if \<not> (a \<and> b \<and> c \<and> d) then (False, f')
         else (\<not> (eb_remove (pf_buttons f) \<and> \<not> eb_really_remove (pf_buttons f)), f'))"

record cats_form =
  kf_id :: text_field
  kf_cat :: text_field
  kf_save :: bool
  kf_remove :: bool
  kf_cascade :: bool

definition load_cats_form :: "env \<Rightarrow> cats_form" where
  "load_cats_form e =
     \<lparr>kf_id = load_text e ''id'', kf_cat = load_text e ''cat'', kf_save = load_submit e ''save'',
      kf_remove = load_submit e ''remove'', kf_cascade = load_checkbox e ''cascade'' ''1''\<rparr>"

definition cats_form_validate :: "cats_form \<Rightarrow> bool \<times> cats_form" where
  "cats_form_validate f =
     (let (a, i) = validate_text 0 (- 1) (kf_id f);
          (b, c) = validate_text 1 (- 1) (kf_cat f)
      in (a \<and> b, f\<lparr>kf_id := i, kf_cat := c\<rparr>))"

section \<open>What the forms promise\<close>


definition example_token_session :: "mem_storage session" where
  "example_token_session = sset ''_csrf'' ''tok'' example_session"


text \<open>
  Property C16. An anonymous comment is accepted only with the answer to the captcha of the
  session, an author, a mail address and an empty or valid URL, and makes the session a
  visitor's; a wrong answer empties the session, so the captcha can not be tried again.
\<close>

theorem anonymous_comment_needs_captcha:
  assumes "comment_form_validate e f s = ((ok, f'), s')"
    and "\<not> is_set ''user'' s" "\<not> is_set ''visitor'' s"
  shows "(ok \<longrightarrow>
      (\<exists>code. sget ''captcha'' s = Inr code \<and> equal_ci code (tf_value (cf_captcha f))) \<and>
      tf_value (cf_author f) \<noteq> [] \<and> tf_value (cf_mail f) \<noteq> [] \<and>
      (tf_value (cf_url f) = [] \<or> uri_valid e (escape (tf_value (cf_url f)))) \<and> is_set ''visitor'' s') \<and>
    (fst (comment_widgets_valid e f) \<and>
      (\<forall>code. sget ''captcha'' s = Inr code \<longrightarrow> \<not> equal_ci code (tf_value (cf_captcha f))) \<longrightarrow>
      \<not> ok \<and> s' = sclear s)"
proof -
  obtain b f1 where w: "comment_widgets_valid e f = (b, f1)" by (cases "comment_widgets_valid e f")
  have same: "tf_value (cf_author f1) = tf_value (cf_author f)" "tf_value (cf_mail f1) = tf_value (cf_mail f)"
    "tf_value (cf_url f1) = tf_value (cf_url f)" "tf_value (cf_captcha f1) = tf_value (cf_captcha f)"
    if b using w that
    by (auto simp: comment_widgets_valid_def validate_regex_def validate_text_def Let_def split: if_splits prod.splits)
  obtain c s1 where c: "check_captcha (tf_value (cf_captcha f1)) s = (c, s1)"
    by (cases "check_captcha (tf_value (cf_captcha f1)) s")
  have cc: "if c then (\<exists>code. sget ''captcha'' s = Inr code \<and> equal_ci code (tf_value (cf_captcha f1))) \<and> is_set ''visitor'' s1
      else s1 = sclear s"
    using c by (auto simp: check_captcha_def set_age_def expiration_def on_server_def sset_int_def is_set_def
        split: sum.splits if_splits)
  show ?thesis
  proof (cases b)
    case True
    then show ?thesis
      using assms w c cc same by (auto simp: comment_form_validate_def visitor_fields_valid_def Let_def split: if_splits)
  qed (use assms w in \<open>auto simp: comment_form_validate_def\<close>)
qed

definition example_comment :: "string \<Rightarrow> string \<Rightarrow> comment_form" where
  "example_comment author code =
     load_comment_form (example_env ''POST'' [(''_1'', author), (''_2'', ''a@b''), (''_3'', ''javascript:x''),
       (''_4'', ''text''), (''_5'', ''Send''), (''captcha'', code)])"

theorem anonymous_comment_needs_captcha_witness:
  "snd (comment_form_validate (example_env ''POST'' []) (example_comment ''me'' ''wrong'')
      (sset ''captcha'' ''abc123'' (sclear example_session))) = sclear example_session"
proof -
  let ?s = "sset ''captcha'' ''abc123'' (sclear example_session)"
  let ?v = "comment_form_validate (example_env ''POST'' []) (example_comment ''me'' ''wrong'') ?s"
  have n: "\<not> is_set ''user'' ?s" "\<not> is_set ''visitor'' ?s" by (simp_all add: is_set_def sclear_def)
  have w: "fst (comment_widgets_valid (example_env ''POST'' []) (example_comment ''me'' ''wrong''))"
    by code_simp
  have c: "\<not> equal_ci ''abc123'' (tf_value (cf_captcha (example_comment ''me'' ''wrong'')))"
    by code_simp
  have "?v = ((fst (fst ?v), snd (fst ?v)), snd ?v)" by simp
  from anonymous_comment_needs_captcha[OF this n] w c have "snd ?v = sclear ?s" by simp
  then show ?thesis by (simp add: sclear_def sset_def)
qed

text \<open>
  Once a session is a visitor's or a user's, the checks of author, mail address and
  URL are skipped: only the limits of the widgets count, so a comment without an author and with
  a URL the validator refuses is accepted.
\<close>

theorem known_sessions_skip_the_checks:
  assumes "is_set ''user'' s \<or> is_set ''visitor'' s"
  shows "comment_form_validate e f s = (comment_widgets_valid e f, s)"
  using assms by (auto simp: comment_form_validate_def split: prod.split bool.split)

theorem known_sessions_skip_the_checks_witness:
  "fst (fst (comment_form_validate (example_env ''POST'' []) (example_comment [] [])
      (sset ''visitor'' ''1'' example_session)))"
proof -
  have "is_set ''visitor'' (sset ''visitor'' ''1'' example_session)" by simp
  moreover have "fst (comment_widgets_valid (example_env ''POST'' []) (example_comment [] []))"
    by code_simp
  ultimately show ?thesis
    using known_sessions_skip_the_checks[of "sset ''visitor'' ''1'' example_session"
      "example_env ''POST'' []" "example_comment [] []"] by simp
qed

end
