(* ===== verification/Database.thy ===== *)
theory Database
  imports Prelude
begin

text \<open>
  The tables of \<open>sql/sqlite3.sql\<close> and the SQL statements of the handlers, one definition per
  statement. A table is the list of its rows in the order of their keys, which is the order a
  \<open>SELECT\<close> without \<open>ORDER BY\<close> delivers them in; \<open>ORDER BY\<close> is a stable sort. A column
  declared \<open>autoincrement\<close> takes numbers that were never used before. Dates are seconds.
  A statement that breaks a \<open>unique\<close> constraint throws \<open>cppdb_error\<close> and changes nothing.
  How the engine matches \<open>LIKE\<close> patterns, and an integer column with a string, is the
  parameter record \<open>sql_engine\<close>.
\<close>

section \<open>Tables\<close>

record user_row =
  u_id :: int
  u_name :: string
  u_pass :: string

record post_row =
  p_id :: int
  p_author :: int
  p_title :: string
  p_abstract :: string
  p_content :: string
  p_publish :: int
  p_comments :: int
  p_open :: int

record comment_row =
  c_id :: int
  c_post :: int
  c_author :: string
  c_email :: string
  c_url :: string
  c_time :: int
  c_content :: string

record post2cat_row =
  pc_post :: int
  pc_cat :: int
  pc_publish :: int
  pc_open :: int

record cat_row =
  k_id :: int
  k_name :: string

record page_row =
  g_id :: int
  g_author :: int
  g_title :: string
  g_content :: string
  g_open :: int

record database =
  users :: "user_row list"
  posts :: "post_row list"
  comments :: "comment_row list"
  post2cats :: "post2cat_row list"
  cats :: "cat_row list"
  pages :: "page_row list"
  options :: "(string \<times> string) list"
  next_user :: int
  next_post :: int
  next_comment :: int
  next_cat :: int
  next_page :: int

record sql_engine =
  like :: "string \<Rightarrow> string \<Rightarrow> bool"
  int_is_text :: "int \<Rightarrow> string \<Rightarrow> bool"

definition empty_database :: database where
  "empty_database = \<lparr>users = [], posts = [], comments = [], post2cats = [], cats = [], pages = [],
     options = [(''dbversion'', ''3'')], next_user = 1, next_post = 1, next_comment = 1,
     next_cat = 1, next_page = 1\<rparr>"

definition limit_offset :: "int \<Rightarrow> int \<Rightarrow> 'r list \<Rightarrow> 'r list" where
  "limit_offset n off rs = take (nat n) (drop (nat off) rs)"

definition order_desc :: "('r \<Rightarrow> int) \<Rightarrow> 'r list \<Rightarrow> 'r list" where
  "order_desc key rs = sort_key (\<lambda>r. - key r) rs"

section \<open>Options\<close>

definition option_value :: "string \<Rightarrow> database \<Rightarrow> string option" where
  "option_value k d = map_of (options d) k"

definition delete_options :: "string list \<Rightarrow> database \<Rightarrow> database" where
  "delete_options ks d = d\<lparr>options := filter (\<lambda>(k, _). k \<notin> set ks) (options d)\<rparr>"

definition insert_option :: "string \<Rightarrow> string \<Rightarrow> (database, unit) action" where
  "insert_option k v d =
     (if k \<in> fst ` set (options d) then (Inl (Cppdb_error ''unique''), d)
      else (Inr (), d\<lparr>options := options d @ [(k, v)]\<rparr>))"

definition update_option :: "string \<Rightarrow> string \<Rightarrow> database \<Rightarrow> database" where
  "update_option k v d = d\<lparr>options := map (\<lambda>(a, w). if a = k then (a, v) else (a, w)) (options d)\<rparr>"

section \<open>Users\<close>

definition user_by_name :: "string \<Rightarrow> database \<Rightarrow> user_row option" where
  "user_by_name n d = find (\<lambda>u. u_name u = n) (users d)"

definition user_by_id :: "int \<Rightarrow> database \<Rightarrow> user_row option" where
  "user_by_id i d = find (\<lambda>u. u_id u = i) (users d)"

definition insert_user :: "string \<Rightarrow> string \<Rightarrow> (database, unit) action" where
  "insert_user n pw d =
     (if n \<in> u_name ` set (users d) then (Inl (Cppdb_error ''unique''), d)
      else (Inr (), d\<lparr>users := users d @ [\<lparr>u_id = next_user d, u_name = n, u_pass = pw\<rparr>],
                     next_user := next_user d + 1\<rparr>))"

definition update_user :: "string \<Rightarrow> string \<Rightarrow> int \<Rightarrow> (database, unit) action" where
  "update_user n pw i d =
     (if i \<in> u_id ` set (users d) \<and> (\<exists>u \<in> set (users d). u_id u \<noteq> i \<and> u_name u = n)
      then (Inl (Cppdb_error ''unique''), d)
      else (Inr (), d\<lparr>users := map (\<lambda>u. if u_id u = i then u\<lparr>u_name := n, u_pass := pw\<rparr> else u) (users d)\<rparr>))"

definition delete_user :: "int \<Rightarrow> database \<Rightarrow> database" where
  "delete_user i d = d\<lparr>users := filter (\<lambda>u. u_id u \<noteq> i) (users d)\<rparr>"

definition users_matching :: "sql_engine \<Rightarrow> string \<Rightarrow> string \<Rightarrow> database \<Rightarrow> user_row list" where
  "users_matching sql idtext q d =
     filter (\<lambda>u. int_is_text sql (u_id u) idtext \<or> like sql q (u_name u)) (users d)"

section \<open>Posts\<close>

definition post_by_id :: "int \<Rightarrow> database \<Rightarrow> post_row option" where
  "post_by_id i d = find (\<lambda>p. p_id p = i) (posts d)"

definition insert_post :: "int \<Rightarrow> string \<Rightarrow> string \<Rightarrow> string \<Rightarrow> int \<Rightarrow> int \<Rightarrow> database \<Rightarrow> int \<times> database" where
  "insert_post author title abstract content publish is_open d =
     (next_post d,
      d\<lparr>posts := posts d @ [\<lparr>p_id = next_post d, p_author = author, p_title = title,
           p_abstract = abstract, p_content = content, p_publish = publish, p_comments = 0,
           p_open = is_open\<rparr>],
        next_post := next_post d + 1\<rparr>)"

definition update_posts :: "int \<Rightarrow> (post_row \<Rightarrow> post_row) \<Rightarrow> database \<Rightarrow> database" where
  "update_posts i f d = d\<lparr>posts := map (\<lambda>p. if p_id p = i then f p else p) (posts d)\<rparr>"

text \<open>The two \<open>UPDATE posts\<close> of the editor: with and without a new date of publication.\<close>

definition update_post_published ::
    "string \<Rightarrow> string \<Rightarrow> string \<Rightarrow> int \<Rightarrow> int \<Rightarrow> int \<Rightarrow> database \<Rightarrow> database" where
  "update_post_published title abstract content publish is_open i =
     update_posts i (\<lambda>p. p\<lparr>p_title := title, p_abstract := abstract, p_content := content,
                           p_publish := publish, p_open := is_open\<rparr>)"

definition update_post_text :: "string \<Rightarrow> string \<Rightarrow> string \<Rightarrow> int \<Rightarrow> int \<Rightarrow> database \<Rightarrow> database" where
  "update_post_text title abstract content is_open i =
     update_posts i (\<lambda>p. p\<lparr>p_title := title, p_abstract := abstract, p_content := content, p_open := is_open\<rparr>)"

definition delete_post :: "int \<Rightarrow> database \<Rightarrow> database" where
  "delete_post i d = d\<lparr>posts := filter (\<lambda>p. p_id p \<noteq> i) (posts d)\<rparr>"

definition post_matches :: "sql_engine \<Rightarrow> string \<Rightarrow> post_row \<Rightarrow> bool" where
  "post_matches sql q p \<longleftrightarrow> like sql q (p_title p) \<or> like sql q (p_abstract p) \<or> like sql q (p_content p)"

section \<open>Comments\<close>

definition comment_by_id :: "int \<Rightarrow> database \<Rightarrow> comment_row option" where
  "comment_by_id i d = find (\<lambda>c. c_id c = i) (comments d)"

definition comments_of :: "int \<Rightarrow> database \<Rightarrow> comment_row list" where
  "comments_of i d = filter (\<lambda>c. c_post c = i) (comments d)"

definition insert_comment ::
    "int \<Rightarrow> string \<Rightarrow> string \<Rightarrow> string \<Rightarrow> int \<Rightarrow> string \<Rightarrow> database \<Rightarrow> database" where
  "insert_comment post author email url time content d =
     d\<lparr>comments := comments d @ [\<lparr>c_id = next_comment d, c_post = post, c_author = author,
          c_email = email, c_url = url, c_time = time, c_content = content\<rparr>],
       next_comment := next_comment d + 1\<rparr>"

definition update_comment :: "string \<Rightarrow> string \<Rightarrow> string \<Rightarrow> string \<Rightarrow> int \<Rightarrow> database \<Rightarrow> database" where
  "update_comment author email url content i d =
     d\<lparr>comments := map (\<lambda>c. if c_id c = i
          then c\<lparr>c_author := author, c_email := email, c_url := url, c_content := content\<rparr> else c)
        (comments d)\<rparr>"

definition delete_comment :: "int \<Rightarrow> database \<Rightarrow> database" where
  "delete_comment i d = d\<lparr>comments := filter (\<lambda>c. c_id c \<noteq> i) (comments d)\<rparr>"

definition delete_comments_of :: "int \<Rightarrow> database \<Rightarrow> database" where
  "delete_comments_of i d = d\<lparr>comments := filter (\<lambda>c. c_post c \<noteq> i) (comments d)\<rparr>"

definition update_comment_count :: "int \<Rightarrow> database \<Rightarrow> database" where
  "update_comment_count i d =
     update_posts i (\<lambda>p. p\<lparr>p_comments := int (length (comments_of i d))\<rparr>) d"

section \<open>Categories\<close>

definition cat_by_id :: "int \<Rightarrow> database \<Rightarrow> cat_row option" where
  "cat_by_id i d = find (\<lambda>k. k_id k = i) (cats d)"

definition insert_cat :: "string \<Rightarrow> database \<Rightarrow> database" where
  "insert_cat n d = d\<lparr>cats := cats d @ [\<lparr>k_id = next_cat d, k_name = n\<rparr>], next_cat := next_cat d + 1\<rparr>"

definition update_cat :: "string \<Rightarrow> int \<Rightarrow> database \<Rightarrow> database" where
  "update_cat n i d = d\<lparr>cats := map (\<lambda>k. if k_id k = i then k\<lparr>k_name := n\<rparr> else k) (cats d)\<rparr>"

definition delete_cat :: "int \<Rightarrow> database \<Rightarrow> database" where
  "delete_cat i d = d\<lparr>cats := filter (\<lambda>k. k_id k \<noteq> i) (cats d)\<rparr>"

definition max_cat_id :: "database \<Rightarrow> int option" where
  "max_cat_id d = (if cats d = [] then None else Some (Max (set (map k_id (cats d)))))"

definition insert_post2cat :: "int \<Rightarrow> int \<Rightarrow> int \<Rightarrow> int \<Rightarrow> (database, unit) action" where
  "insert_post2cat post cat publish is_open d =
     (if (post, cat) \<in> (\<lambda>r. (pc_post r, pc_cat r)) ` set (post2cats d)
      then (Inl (Cppdb_error ''unique''), d)
      else (Inr (), d\<lparr>post2cats := post2cats d @
              [\<lparr>pc_post = post, pc_cat = cat, pc_publish = publish, pc_open = is_open\<rparr>]\<rparr>))"

definition update_post2cats :: "int \<Rightarrow> (post2cat_row \<Rightarrow> post2cat_row) \<Rightarrow> database \<Rightarrow> database" where
  "update_post2cats post f d =
     d\<lparr>post2cats := map (\<lambda>r. if pc_post r = post then f r else r) (post2cats d)\<rparr>"

definition delete_post2cats :: "(post2cat_row \<Rightarrow> bool) \<Rightarrow> database \<Rightarrow> database" where
  "delete_post2cats P d = d\<lparr>post2cats := filter (\<lambda>r. \<not> P r) (post2cats d)\<rparr>"

text \<open>\<open>post2cat JOIN cats ON cats.id = post2cat.cat_id\<close> for one post.\<close>

definition cats_of_post :: "int \<Rightarrow> database \<Rightarrow> (int \<times> string) list" where
  "cats_of_post post d =
     concat (map (\<lambda>r. map (\<lambda>k. (k_id k, k_name k)) (filter (\<lambda>k. k_id k = pc_cat r) (cats d)))
       (filter (\<lambda>r. pc_post r = post) (post2cats d)))"

definition open_in_cat :: "int \<Rightarrow> database \<Rightarrow> post2cat_row list" where
  "open_in_cat cat d = filter (\<lambda>r. pc_cat r = cat \<and> pc_open r = 1) (post2cats d)"

text \<open>\<open>cats a LEFT JOIN post2cat b ... GROUP BY a.id\<close> of the sidebar.\<close>

definition cats_with_counts :: "database \<Rightarrow> (int \<times> string \<times> int) list" where
  "cats_with_counts d = map (\<lambda>k. (k_id k, k_name k, int (length (open_in_cat (k_id k) d)))) (cats d)"

section \<open>Pages\<close>

definition page_by_id :: "int \<Rightarrow> database \<Rightarrow> page_row option" where
  "page_by_id i d = find (\<lambda>g. g_id g = i) (pages d)"

definition insert_page :: "int \<Rightarrow> string \<Rightarrow> string \<Rightarrow> int \<Rightarrow> database \<Rightarrow> int \<times> database" where
  "insert_page author title content is_open d =
     (next_page d,
      d\<lparr>pages := pages d @ [\<lparr>g_id = next_page d, g_author = author, g_title = title,
           g_content = content, g_open = is_open\<rparr>],
        next_page := next_page d + 1\<rparr>)"

definition update_page :: "string \<Rightarrow> string \<Rightarrow> int \<Rightarrow> int \<Rightarrow> database \<Rightarrow> database" where
  "update_page title content is_open i d =
     d\<lparr>pages := map (\<lambda>g. if g_id g = i then g\<lparr>g_title := title, g_content := content, g_open := is_open\<rparr> else g)
        (pages d)\<rparr>"

definition delete_page :: "int \<Rightarrow> database \<Rightarrow> database" where
  "delete_page i d = d\<lparr>pages := filter (\<lambda>g. g_id g \<noteq> i) (pages d)\<rparr>"

section \<open>Listings\<close>

text \<open>
  A row of a listing of posts. The posts come from a \<open>LEFT JOIN\<close>: without a post the columns are
  NULL, and reading NULL leaves the field as it was made, the date a \<open>std::tm\<close> of zeros (the
  last day of 1899; times are UTC). Without an author the name stays empty.
\<close>

record listed =
  l_id :: int
  l_author :: string
  l_title :: string
  l_abstract :: string
  l_size :: nat
  l_publish :: int
  l_comments :: int

definition no_post :: listed where
  "no_post = \<lparr>l_id = 0, l_author = [], l_title = [], l_abstract = [], l_size = 0,
     l_publish = - 2209075200, l_comments = 0\<rparr>"

definition listed_post :: "database \<Rightarrow> post_row \<Rightarrow> listed" where
  "listed_post d p = \<lparr>l_id = p_id p,
     l_author = (case user_by_id (p_author p) d of Some u \<Rightarrow> u_name u | None \<Rightarrow> []),
     l_title = p_title p, l_abstract = p_abstract p, l_size = length (p_content p),
     l_publish = p_publish p, l_comments = p_comments p\<rparr>"

definition listed_entry :: "database \<Rightarrow> post2cat_row \<Rightarrow> listed" where
  "listed_entry d r = (case post_by_id (pc_post r) d of Some p \<Rightarrow> listed_post d p | None \<Rightarrow> no_post)"

text \<open>The condition on the text; an empty pattern stands for a query without it.\<close>

definition entry_matches :: "sql_engine \<Rightarrow> string \<Rightarrow> database \<Rightarrow> post2cat_row \<Rightarrow> bool" where
  "entry_matches sql q d r \<longleftrightarrow>
     q = [] \<or> (case post_by_id (pc_post r) d of Some p \<Rightarrow> post_matches sql q p | None \<Rightarrow> False)"

definition open_posts :: "sql_engine \<Rightarrow> string \<Rightarrow> database \<Rightarrow> post_row list" where
  "open_posts sql q d = filter (\<lambda>p. p_open p = 1 \<and> (q = [] \<or> post_matches sql q p)) (posts d)"

definition open_entries :: "sql_engine \<Rightarrow> int \<Rightarrow> string \<Rightarrow> database \<Rightarrow> post2cat_row list" where
  "open_entries sql cat q d = filter (entry_matches sql q d) (open_in_cat cat d)"

definition count_open :: "sql_engine \<Rightarrow> int \<Rightarrow> string \<Rightarrow> database \<Rightarrow> int" where
  "count_open sql cat q d =
     int (if cat = 0 then length (open_posts sql q d) else length (open_entries sql cat q d))"

definition list_open :: "sql_engine \<Rightarrow> int \<Rightarrow> string \<Rightarrow> int \<Rightarrow> int \<Rightarrow> database \<Rightarrow> listed list" where
  "list_open sql cat q n off d =
     (if cat = 0
      then map (listed_post d) (limit_offset n off (order_desc p_publish (open_posts sql q d)))
      else map (listed_entry d) (limit_offset n off (order_desc pc_publish (open_entries sql cat q d))))"

section \<open>The invariant\<close>

definition keys_ok :: "('r \<Rightarrow> int) \<Rightarrow> int \<Rightarrow> 'r list \<Rightarrow> bool" where
  "keys_ok key nxt rs \<longleftrightarrow> distinct (map key rs) \<and> (\<forall>r \<in> set rs. 0 < key r \<and> key r < nxt) \<and> 0 < nxt"

text \<open>
  Beside the declared keys: every comment and every entry of \<open>post2cat\<close> belongs to a post (and
  a category) that exists; a post's stored comment count is the number of its comments; the
  copies of a post's date and state in \<open>post2cat\<close> agree with the post; a post is open (1) or
  not (0).
\<close>

definition comments_ok :: "database \<Rightarrow> bool" where
  "comments_ok d \<longleftrightarrow> (\<forall>c \<in> set (comments d). \<exists>p \<in> set (posts d). p_id p = c_post c)"

definition counts_ok :: "database \<Rightarrow> bool" where
  "counts_ok d \<longleftrightarrow> (\<forall>p \<in> set (posts d). p_comments p = int (length (comments_of (p_id p) d)))"

definition post2cats_ok :: "database \<Rightarrow> bool" where
  "post2cats_ok d \<longleftrightarrow>
     distinct (map (\<lambda>r. (pc_post r, pc_cat r)) (post2cats d)) \<and>
     (\<forall>r \<in> set (post2cats d).
        (\<exists>k \<in> set (cats d). k_id k = pc_cat r) \<and>
        (\<exists>p \<in> set (posts d). p_id p = pc_post r \<and> p_publish p = pc_publish r \<and> p_open p = pc_open r))"

definition states_ok :: "database \<Rightarrow> bool" where
  "states_ok d \<longleftrightarrow> (\<forall>p \<in> set (posts d). p_open p = 0 \<or> p_open p = 1)"

definition db_ok :: "database \<Rightarrow> bool" where
  "db_ok d \<longleftrightarrow> keys_ok u_id (next_user d) (users d) \<and> distinct (map u_name (users d)) \<and>
     keys_ok p_id (next_post d) (posts d) \<and> keys_ok c_id (next_comment d) (comments d) \<and>
     keys_ok k_id (next_cat d) (cats d) \<and> keys_ok g_id (next_page d) (pages d) \<and>
     distinct (map fst (options d)) \<and>
     comments_ok d \<and> counts_ok d \<and> post2cats_ok d \<and> states_ok d"

lemma empty_database_ok: "db_ok empty_database"
  by (simp add: db_ok_def keys_ok_def empty_database_def comments_ok_def counts_ok_def post2cats_ok_def
      states_ok_def)

section \<open>What the statements keep\<close>

text \<open>Statements on one table leave what is said about the others.\<close>

lemma db_ok_options:
  "db_ok d \<Longrightarrow> distinct (map fst os) \<Longrightarrow> db_ok (d\<lparr>options := os\<rparr>)"
  by (simp add: db_ok_def comments_ok_def counts_ok_def comments_of_def post2cats_ok_def states_ok_def)

lemma db_ok_users:
  "db_ok d \<Longrightarrow> keys_ok u_id n us \<Longrightarrow> distinct (map u_name us) \<Longrightarrow>
     db_ok (d\<lparr>users := us, next_user := n\<rparr>)"
  by (simp add: db_ok_def comments_ok_def counts_ok_def comments_of_def post2cats_ok_def states_ok_def)

lemma db_ok_pages:
  "db_ok d \<Longrightarrow> keys_ok g_id n gs \<Longrightarrow> db_ok (d\<lparr>pages := gs, next_page := n\<rparr>)"
  by (simp add: db_ok_def comments_ok_def counts_ok_def comments_of_def post2cats_ok_def states_ok_def)

lemma bex_map: "(\<exists>y \<in> set (map f xs). P y) \<longleftrightarrow> (\<exists>x \<in> set xs. P (f x))"
  by auto

lemma keys_ok_append:
  "keys_ok key n rs \<Longrightarrow> key r = n \<Longrightarrow> keys_ok key (n + 1) (rs @ [r])"
  by (force simp: keys_ok_def)

lemma keys_ok_filter: "keys_ok key n rs \<Longrightarrow> keys_ok key n (filter P rs)"
  by (auto simp: keys_ok_def distinct_map_filter)

lemma keys_ok_map: "keys_ok key n rs \<Longrightarrow> (\<And>r. key (f r) = key r) \<Longrightarrow> keys_ok key n (map f rs)"
  by (auto simp: keys_ok_def o_def)

lemma keys_okD: "keys_ok key n rs \<Longrightarrow> r \<in> set rs \<Longrightarrow> 0 < key r \<and> key r < n"
  by (simp add: keys_ok_def)

lemma keys_ok_inj: "keys_ok key n rs \<Longrightarrow> r \<in> set rs \<Longrightarrow> r' \<in> set rs \<Longrightarrow> key r = key r' \<Longrightarrow> r = r'"
  by (auto simp: keys_ok_def distinct_map dest: inj_onD)

lemma db_okD:
  assumes "db_ok d"
  shows "keys_ok u_id (next_user d) (users d)" "distinct (map u_name (users d))"
    "keys_ok p_id (next_post d) (posts d)" "keys_ok c_id (next_comment d) (comments d)"
    "keys_ok k_id (next_cat d) (cats d)" "keys_ok g_id (next_page d) (pages d)"
    "distinct (map fst (options d))" "comments_ok d" "counts_ok d" "post2cats_ok d" "states_ok d"
  using assms by (simp_all add: db_ok_def)

text \<open>Options.\<close>

lemma delete_options_ok: "db_ok d \<Longrightarrow> db_ok (delete_options ks d)"
  unfolding delete_options_def by (rule db_ok_options) (simp_all add: db_okD distinct_map_filter)

lemma insert_option_ok: "db_ok d \<Longrightarrow> db_ok (snd (insert_option k v d))"
  by (auto simp: insert_option_def db_okD intro!: db_ok_options)

lemma update_option_ok: "db_ok d \<Longrightarrow> db_ok (update_option k v d)"
proof -
  assume d: "db_ok d"
  have "map fst (map (\<lambda>(a, w). if a = k then (a, v) else (a, w)) os) = map fst os" for os :: "(string \<times> string) list"
    by (induction os) auto
  then have "distinct (map fst (map (\<lambda>(a, w). if a = k then (a, v) else (a, w)) (options d)))"
    by (metis db_okD(7)[OF d])
  then show ?thesis unfolding update_option_def by (rule db_ok_options[OF d])
qed

text \<open>Users.\<close>

lemma insert_user_ok: "db_ok d \<Longrightarrow> db_ok (snd (insert_user n pw d))"
  by (auto simp: insert_user_def db_okD intro!: db_ok_users keys_ok_append)

lemma update_user_ok:
  assumes d: "db_ok d"
  shows "db_ok (snd (update_user n pw i d))"
proof (cases "i \<in> u_id ` set (users d) \<and> (\<exists>u \<in> set (users d). u_id u \<noteq> i \<and> u_name u = n)")
  case False
  let ?f = "\<lambda>u. if u_id u = i then u\<lparr>u_name := n, u_pass := pw\<rparr> else u"
  have k: "keys_ok u_id (next_user d) (users d)" and u: "distinct (map u_name (users d))"
    using d by (simp_all add: db_ok_def)
  have k': "keys_ok u_id (next_user d) (map ?f (users d))" by (rule keys_ok_map[OF k]) simp
  have "inj_on u_name (set (map ?f (users d)))"
  proof (rule inj_onI)
    fix a b assume ab: "a \<in> set (map ?f (users d))" "b \<in> set (map ?f (users d))" "u_name a = u_name b"
    obtain a' b' where *: "a' \<in> set (users d)" "a = ?f a'" "b' \<in> set (users d)" "b = ?f b'" using ab by auto
    have "u_id a' = u_id b'"
    proof (rule ccontr)
      assume ne: "u_id a' \<noteq> u_id b'"
      then have "u_name a' \<noteq> u_name b'" using u *(1,3) by (auto simp: distinct_map dest: inj_onD)
      then show False using False * ab(3) ne by (auto split: if_splits)
    qed
    then show "a = b" using keys_ok_inj[OF k *(1,3)] * by simp
  qed
  moreover have "distinct (map ?f (users d))"
    using k' distinct_map[of u_id "map ?f (users d)"] unfolding keys_ok_def by blast
  ultimately have "distinct (map u_name (map ?f (users d)))" by (simp only: distinct_map)
  then have "db_ok (d\<lparr>users := map ?f (users d), next_user := next_user d\<rparr>)"
    using d k' by (intro db_ok_users)
  then show ?thesis using False unfolding update_user_def by (simp only: if_False snd_conv) simp
qed (simp add: update_user_def d)

lemma delete_user_ok: "db_ok d \<Longrightarrow> db_ok (delete_user i d)"
  using db_ok_users[of d "next_user d" "filter (\<lambda>u. u_id u \<noteq> i) (users d)"]
  by (simp add: delete_user_def db_okD keys_ok_filter distinct_map_filter)

text \<open>Pages.\<close>

lemma insert_page_ok: "db_ok d \<Longrightarrow> db_ok (snd (insert_page a t c op d))"
  by (auto simp: insert_page_def db_okD intro!: db_ok_pages keys_ok_append)

lemma update_page_ok: "db_ok d \<Longrightarrow> db_ok (update_page t c op i d)"
  using db_ok_pages[of d "next_page d"] by (simp add: update_page_def db_okD keys_ok_map)

lemma delete_page_ok: "db_ok d \<Longrightarrow> db_ok (delete_page i d)"
  using db_ok_pages[of d "next_page d"] by (simp add: delete_page_def db_okD keys_ok_filter)

text \<open>Posts. A new post has no comments and no categories, because its number is new.\<close>

lemma post_by_id_iff:
  "db_ok d \<Longrightarrow> post_by_id i d = Some p \<longleftrightarrow> p \<in> set (posts d) \<and> p_id p = i"
proof -
  assume d: "db_ok d"
  have "find (\<lambda>p. p_id p = i) ps = Some p \<Longrightarrow> p \<in> set ps \<and> p_id p = i" for ps
    by (induction ps) (auto split: if_splits)
  moreover have "distinct (map p_id ps) \<Longrightarrow> p \<in> set ps \<Longrightarrow> p_id p = i \<Longrightarrow>
      find (\<lambda>p. p_id p = i) ps = Some p" for ps
    by (induction ps) auto
  ultimately show ?thesis
    using db_okD(3)[OF d] by (auto simp: post_by_id_def keys_ok_def)
qed

lemma post_by_id_None: "post_by_id i d = None \<longleftrightarrow> (\<forall>p \<in> set (posts d). p_id p \<noteq> i)"
  by (auto simp: post_by_id_def find_None_iff)

lemma comments_of_new: "db_ok d \<Longrightarrow> comments_of (next_post d) d = []"
  using db_okD(3,8)[of d] by (fastforce simp: comments_of_def comments_ok_def keys_ok_def filter_empty_conv)

lemma insert_post_ok:
  assumes d: "db_ok d" and op: "op = 0 \<or> op = 1"
  shows "db_ok (snd (insert_post a t ab c pub op d))"
proof -
  have "keys_ok p_id (next_post d + 1) (posts d @ [\<lparr>p_id = next_post d, p_author = a, p_title = t,
      p_abstract = ab, p_content = c, p_publish = pub, p_comments = 0, p_open = op\<rparr>])"
    by (rule keys_ok_append[OF db_okD(3)[OF d]]) simp
  moreover have "comments_of (next_post d) d = []" by (rule comments_of_new[OF d])
  ultimately show ?thesis
    using d op
    by (auto simp: db_ok_def insert_post_def comments_ok_def counts_ok_def comments_of_def
        post2cats_ok_def states_ok_def)
qed

text \<open>
  A post is updated together with its entries in \<open>post2cat\<close>: what has to agree is the date and
  the state.
\<close>

lemma update_both_ok:
  assumes d: "db_ok d"
    and f: "\<And>p. p_id (f p) = p_id p" "\<And>p. p_comments (f p) = p_comments p"
    and g: "\<And>r. pc_post (g r) = pc_post r" "\<And>r. pc_cat (g r) = pc_cat r"
    and open_f: "\<And>p. p \<in> set (posts d) \<Longrightarrow> p_id p = i \<Longrightarrow> p_open (f p) = 0 \<or> p_open (f p) = 1"
    and same: "\<And>p r. p \<in> set (posts d) \<Longrightarrow> p_id p = i \<Longrightarrow> r \<in> set (post2cats d) \<Longrightarrow> pc_post r = i \<Longrightarrow>
        p_publish p = pc_publish r \<Longrightarrow> p_open p = pc_open r \<Longrightarrow>
        p_publish (f p) = pc_publish (g r) \<and> p_open (f p) = pc_open (g r)"
  shows "db_ok (update_post2cats i g (update_posts i f d))" (is "db_ok ?d")
proof -
  let ?f = "\<lambda>p. if p_id p = i then f p else p" and ?g = "\<lambda>r. if pc_post r = i then g r else r"
  have fields: "posts ?d = map ?f (posts d)" "post2cats ?d = map ?g (post2cats d)"
    "comments ?d = comments d" "cats ?d = cats d"
    by (simp_all add: update_post2cats_def update_posts_def)
  have s: "p_id (?f p) = p_id p" "p_comments (?f p) = p_comments p"
    "pc_post (?g r) = pc_post r" "pc_cat (?g r) = pc_cat r" for p r
    using f g by auto
  have k: "keys_ok p_id (next_post d) (map ?f (posts d))"
    using db_okD(3)[OF d] by (rule keys_ok_map) (rule s(1))
  have "comments_ok ?d"
    unfolding comments_ok_def fields
  proof
    fix c assume "c \<in> set (comments d)"
    then obtain p where "p \<in> set (posts d)" "p_id p = c_post c"
      using db_okD(8)[OF d] by (auto simp: comments_ok_def)
    then show "\<exists>p \<in> set (map ?f (posts d)). p_id p = c_post c"
      using s(1)[of p] by (intro bexI[of _ "?f p"]) auto
  qed
  moreover have "counts_ok ?d"
    unfolding counts_ok_def comments_of_def fields
    using db_okD(9)[OF d] s(1,2) by (auto simp: counts_ok_def comments_of_def f)
  moreover have "post2cats_ok ?d"
    unfolding post2cats_ok_def fields
  proof (intro conjI ballI)
    have "map (\<lambda>r. (pc_post r, pc_cat r)) (map ?g (post2cats d)) = map (\<lambda>r. (pc_post r, pc_cat r)) (post2cats d)"
      by (simp add: g)
    then show "distinct (map (\<lambda>r. (pc_post r, pc_cat r)) (map ?g (post2cats d)))"
      using db_okD(10)[OF d] by (simp only: post2cats_ok_def)
    fix r' assume "r' \<in> set (map ?g (post2cats d))"
    then obtain r where r: "r \<in> set (post2cats d)" "r' = ?g r" by auto
    show "\<exists>k \<in> set (cats d). k_id k = pc_cat r'"
      using db_okD(10)[OF d] r s(4)[of r] by (auto simp: post2cats_ok_def)
    obtain p where p: "p \<in> set (posts d)" "p_id p = pc_post r" "p_publish p = pc_publish r" "p_open p = pc_open r"
      using db_okD(10)[OF d] r(1) by (auto simp: post2cats_ok_def)
    have "p_id (?f p) = pc_post r' \<and> p_publish (?f p) = pc_publish r' \<and> p_open (?f p) = pc_open r'"
      using p r same[OF p(1) _ r(1)] f g by auto
    then show "\<exists>p \<in> set (map ?f (posts d)). p_id p = pc_post r' \<and> p_publish p = pc_publish r' \<and> p_open p = pc_open r'"
      using p(1) by (intro bexI[of _ "?f p"]) auto
  qed
  moreover have "states_ok ?d"
    unfolding states_ok_def fields
    using db_okD(11)[OF d] open_f by (auto simp: states_ok_def)
  ultimately show ?thesis
    using d k by (simp add: db_ok_def update_post2cats_def update_posts_def)
qed

lemma update_posts_ok:
  assumes "db_ok d" "\<And>p. p_id (f p) = p_id p" "\<And>p. p_comments (f p) = p_comments p"
    and same: "\<And>p. p \<in> set (posts d) \<Longrightarrow> p_id p = i \<Longrightarrow> p_publish (f p) = p_publish p \<and> p_open (f p) = p_open p"
  shows "db_ok (update_posts i f d)"
proof -
  have "db_ok (update_post2cats i (\<lambda>r. r) (update_posts i f d))"
    using assms(1-3) same db_okD(11)[OF assms(1)] by (intro update_both_ok) (auto simp: states_ok_def)
  then show ?thesis by (simp add: update_post2cats_def)
qed

lemma publish_ok:
  "db_ok d \<Longrightarrow> op = 0 \<or> op = 1 \<Longrightarrow>
     db_ok (update_post2cats i (\<lambda>r. r\<lparr>pc_publish := t, pc_open := op\<rparr>)
       (update_post_published ti ab c t op i d))"
  unfolding update_post_published_def by (rule update_both_ok) auto

lemma set_open_ok:
  "db_ok d \<Longrightarrow> op = 0 \<or> op = 1 \<Longrightarrow>
     db_ok (update_post2cats i (\<lambda>r. r\<lparr>pc_open := op\<rparr>) (update_post_text ti ab c op i d))"
  unfolding update_post_text_def by (rule update_both_ok) auto

lemma update_text_ok:
  "db_ok d \<Longrightarrow> (\<And>p. post_by_id i d = Some p \<Longrightarrow> p_open p = op) \<Longrightarrow> db_ok (update_post_text ti ab c op i d)"
  unfolding update_post_text_def by (rule update_posts_ok) (auto simp: post_by_id_iff)

text \<open>Comments: after each change of the comments of a post the count is made right again.\<close>

lemma update_comment_count_ok:
  assumes d: "db_ok (d\<lparr>comments := cs, next_comment := n\<rparr>)"
    and k: "keys_ok c_id n' cs'"
    and own: "\<And>c. c \<in> set cs' \<Longrightarrow> \<exists>p \<in> set (posts d). p_id p = c_post c"
    and others: "\<And>j. j \<noteq> i \<Longrightarrow> filter (\<lambda>c. c_post c = j) cs' = filter (\<lambda>c. c_post c = j) cs"
  shows "db_ok (update_comment_count i (d\<lparr>comments := cs', next_comment := n'\<rparr>))" (is "db_ok ?d")
proof -
  define m where "m = int (length (filter (\<lambda>c. c_post c = i) cs'))"
  let ?f = "\<lambda>p. if p_id p = i then p\<lparr>p_comments := m\<rparr> else p"
  have D: "?d = d\<lparr>posts := map ?f (posts d), comments := cs', next_comment := n'\<rparr>"
    by (simp add: update_comment_count_def update_posts_def comments_of_def m_def)
  have k': "keys_ok p_id (next_post d) (map ?f (posts d))"
    using db_okD(3)[OF d] by (intro keys_ok_map) simp_all
  have c: "\<exists>p \<in> set (map ?f (posts d)). p_id p = j" if "\<exists>p \<in> set (posts d). p_id p = j" for j
    unfolding bex_map using that by auto
  have "comments_ok ?d" unfolding comments_ok_def D using own c by simp
  moreover have "counts_ok ?d"
    using db_okD(9)[OF d] others by (auto simp: counts_ok_def D comments_of_def m_def)
  moreover have "post2cats_ok ?d"
  proof -
    have "\<exists>p \<in> set (posts d). p_id (?f p) = pc_post r \<and> p_publish (?f p) = pc_publish r \<and> p_open (?f p) = pc_open r"
      if "r \<in> set (post2cats d)" for r
      using db_okD(10)[OF d] that by (force simp: post2cats_ok_def)
    then show ?thesis
      using db_okD(10)[OF d] unfolding post2cats_ok_def D by (simp add: bex_map del: set_map)
  qed
  moreover have "states_ok ?d" using db_okD(11)[OF d] by (auto simp: states_ok_def D)
  ultimately show ?thesis using d k k' by (simp add: db_ok_def D)
qed

lemma insert_comment_ok:
  assumes d: "db_ok d" and p: "post_by_id i d = Some p"
  shows "db_ok (update_comment_count i (insert_comment i a m u t c d))"
proof -
  let ?c = "\<lparr>c_id = next_comment d, c_post = i, c_author = a, c_email = m, c_url = u, c_time = t, c_content = c\<rparr>"
  have "db_ok (update_comment_count i (d\<lparr>comments := comments d @ [?c], next_comment := next_comment d + 1\<rparr>))"
  proof (rule update_comment_count_ok)
    show "db_ok (d\<lparr>comments := comments d, next_comment := next_comment d\<rparr>)" using d by simp
    show "keys_ok c_id (next_comment d + 1) (comments d @ [?c])"
      by (rule keys_ok_append[OF db_okD(4)[OF d]]) simp
    show "\<exists>p \<in> set (posts d). p_id p = c_post x" if "x \<in> set (comments d @ [?c])" for x
      using that db_okD(8)[OF d] p post_by_id_iff[OF d] by (auto simp: comments_ok_def)
  qed simp
  then show ?thesis by (simp add: insert_comment_def)
qed

lemma delete_comment_ok:
  assumes d: "db_ok d" and c: "c \<in> set (comments d)" "c_post c = i"
  shows "db_ok (update_comment_count i (delete_comment (c_id c) d))"
proof -
  have "db_ok (update_comment_count i
      (d\<lparr>comments := filter (\<lambda>x. c_id x \<noteq> c_id c) (comments d), next_comment := next_comment d\<rparr>))"
  proof (rule update_comment_count_ok)
    show "db_ok (d\<lparr>comments := comments d, next_comment := next_comment d\<rparr>)" using d by simp
    show "keys_ok c_id (next_comment d) (filter (\<lambda>x. c_id x \<noteq> c_id c) (comments d))"
      by (rule keys_ok_filter[OF db_okD(4)[OF d]])
    show "\<exists>p \<in> set (posts d). p_id p = c_post x" if "x \<in> set (filter (\<lambda>x. c_id x \<noteq> c_id c) (comments d))" for x
      using that db_okD(8)[OF d] by (auto simp: comments_ok_def)
    show "filter (\<lambda>x. c_post x = j) (filter (\<lambda>x. c_id x \<noteq> c_id c) (comments d)) =
        filter (\<lambda>x. c_post x = j) (comments d)" if "j \<noteq> i" for j
      using that c keys_ok_inj[OF db_okD(4)[OF d] _ c(1)] by (auto intro!: filter_cong)
  qed
  then show ?thesis by (simp add: delete_comment_def)
qed

lemma update_comment_ok:
  assumes d: "db_ok d"
  shows "db_ok (update_comment a m u c i d)"
proof -
  let ?f = "\<lambda>x. if c_id x = i then x\<lparr>c_author := a, c_email := m, c_url := u, c_content := c\<rparr> else x"
  have "keys_ok c_id (next_comment d) (map ?f (comments d))"
    by (rule keys_ok_map[OF db_okD(4)[OF d]]) simp
  moreover have "length (filter (\<lambda>x. c_post x = j) (map ?f (comments d))) =
      length (filter (\<lambda>x. c_post x = j) (comments d))" for j
    by (induction "comments d") (auto simp: filter_map o_def intro!: arg_cong[of _ _ length] filter_cong)
  ultimately show ?thesis
    using d by (auto simp: db_ok_def update_comment_def comments_ok_def counts_ok_def comments_of_def
        post2cats_ok_def states_ok_def)
qed

text \<open>A post goes with its comments and its entries in \<open>post2cat\<close>.\<close>

lemma delete_post_ok:
  assumes d: "db_ok d"
  shows "db_ok (delete_post i (delete_post2cats (\<lambda>r. pc_post r = i) (delete_comments_of i d)))"
proof -
  have "filter (\<lambda>c. c_post c = j) (filter (\<lambda>c. c_post c \<noteq> i) (comments d)) =
      filter (\<lambda>c. c_post c = j) (comments d)" if "j \<noteq> i" for j
    using that by (auto intro!: filter_cong)
  then show ?thesis
    using d by (fastforce simp: db_ok_def delete_post_def delete_post2cats_def delete_comments_of_def
        keys_ok_filter comments_ok_def counts_ok_def comments_of_def post2cats_ok_def states_ok_def
        distinct_map_filter)
qed

text \<open>Categories.\<close>

lemma insert_cat_ok:
  assumes d: "db_ok d"
  shows "db_ok (insert_cat n d)"
proof -
  have "keys_ok k_id (next_cat d + 1) (cats d @ [\<lparr>k_id = next_cat d, k_name = n\<rparr>])"
    by (rule keys_ok_append[OF db_okD(5)[OF d]]) simp
  then show ?thesis
    using d by (auto simp: db_ok_def insert_cat_def comments_ok_def counts_ok_def comments_of_def
        post2cats_ok_def states_ok_def)
qed

lemma update_cat_ok:
  assumes d: "db_ok d"
  shows "db_ok (update_cat n i d)"
proof -
  let ?f = "\<lambda>k. if k_id k = i then k\<lparr>k_name := n\<rparr> else k"
  have "keys_ok k_id (next_cat d) (map ?f (cats d))"
    by (rule keys_ok_map[OF db_okD(5)[OF d]]) simp
  moreover have "\<exists>k \<in> set (map ?f (cats d)). k_id k = j" if "\<exists>k \<in> set (cats d). k_id k = j" for j
    unfolding bex_map using that by auto
  ultimately show ?thesis
    using d by (simp add: db_ok_def update_cat_def comments_ok_def counts_ok_def comments_of_def
        post2cats_ok_def states_ok_def)
qed

lemma delete_cat_ok:
  assumes d: "db_ok d"
  shows "db_ok (delete_cat i (delete_post2cats (\<lambda>r. pc_cat r = i) d))"
  using d by (fastforce simp: db_ok_def delete_cat_def delete_post2cats_def keys_ok_filter
      comments_ok_def counts_ok_def comments_of_def post2cats_ok_def states_ok_def distinct_map_filter)

lemma delete_post2cats_ok: "db_ok d \<Longrightarrow> db_ok (delete_post2cats P d)"
  by (simp add: db_ok_def delete_post2cats_def comments_ok_def counts_ok_def comments_of_def
      post2cats_ok_def states_ok_def distinct_map_filter)

lemma insert_post2cat_ok:
  assumes d: "db_ok d" and k: "k \<in> set (cats d)"
    and p: "post_by_id i d = Some p" "p_publish p = t" "p_open p = op"
  shows "db_ok (snd (insert_post2cat i (k_id k) t op d))"
  using d k p post_by_id_iff[OF d, of i p]
  by (auto simp: db_ok_def insert_post2cat_def comments_ok_def counts_ok_def comments_of_def
      post2cats_ok_def states_ok_def)

lemma insert_post2cat_posts [simp]:
  "posts (snd (insert_post2cat i c t op d)) = posts d"
  "cats (snd (insert_post2cat i c t op d)) = cats d"
  by (simp_all add: insert_post2cat_def)

end
