(* ===== verification/Url_Mapper.thy ===== *)
theory Url_Mapper
  imports Prelude
begin

text \<open>
  \<open>url_mapper.cpp\<close>: how applications are mounted below each other and how a key with its
  parameters becomes a URL. An application is named by its path of names below the topmost
  one, so \<open>this_name\<close> is the last name of the path and \<open>parent\<close> what is left without it. A
  parameter is what writing it gives: its text, or the exception writing it raises (the URL of
  a child is a parameter of its parent's and is written when the parent's URL is).
\<close>

section \<open>State\<close>

record url_entry =
  parts :: "string list"
  indexes :: "int list"
  keys :: "string list"
  child :: bool

type_synonym app_path = "string list"

record url_mapper =
  by_key :: "app_path \<Rightarrow> (string \<times> (nat \<times> url_entry) list) list"
  helpers :: "(string \<times> string) list"
  url_root :: string
  url_throws :: bool

definition new_mapper :: "string \<Rightarrow> bool \<Rightarrow> url_mapper" where
  "new_mapper root t = \<lparr>by_key = (\<lambda>_. []), helpers = [], url_root = root, url_throws = t\<rparr>"

section \<open>Assigning URLs to keys\<close>

text \<open>What stands between braces: a name (index 0), or the index of a parameter.\<close>

definition placeholder :: "string \<Rightarrow> exn + (int \<times> string)" where
  "placeholder hkey =
     (if hkey = [] then Inl (Cppcms_error ''cppcms::url_mapper: empty index between {}'')
      else if \<not> list_all is_digit hkey then Inr (0, hkey)
      else if atoi hkey = 0 then Inl (Cppcms_error ''cppcms::url_mapper: index 0 is invalid'')
      else Inr (atoi hkey, []))"

definition add_part :: "string \<Rightarrow> url_entry \<Rightarrow> url_entry" where
  "add_part p e = e\<lparr>parts := p # parts e\<rparr>"

definition add_index :: "int \<times> string \<Rightarrow> url_entry \<Rightarrow> url_entry" where
  "add_index ik e = e\<lparr>indexes := fst ik # indexes e, keys := snd ik # keys e\<rparr>"

text \<open>The loop of \<open>real_assign\<close>; the flag says whether a brace is open, \<open>acc\<close> is the text since.\<close>

fun parse_url :: "bool \<Rightarrow> string \<Rightarrow> string \<Rightarrow> exn + url_entry" where
  "parse_url False acc [] = Inr \<lparr>parts = [acc], indexes = [], keys = [], child = False\<rparr>"
| "parse_url True acc [] = Inl (Cppcms_error ''cppcms::url_mapper: '{' in url without '}' '')"
| "parse_url False acc (c # s) =
     (if c = CHR ''{'' then map_sum id (add_part acc) (parse_url True [] s)
      else if c = CHR ''}'' then Inl (Cppcms_error ''cppcms::url_mapper: '}' in url without '{' '')
      else parse_url False (acc @ [c]) s)"
| "parse_url True acc (c # s) =
     (if c = CHR ''}''
      then (case placeholder acc of
              Inl x \<Rightarrow> Inl x
            | Inr ik \<Rightarrow> map_sum id (add_index ik) (parse_url False [] s))
      else parse_url True (acc @ [c]) s)"

definition max_index :: "url_entry \<Rightarrow> int" where
  "max_index e = fold max (indexes e) 0"

definition is_child_key :: "(nat \<times> url_entry) list option \<Rightarrow> bool" where
  "is_child_key sizes \<longleftrightarrow>
     (case sizes of None \<Rightarrow> False
      | Some m \<Rightarrow> (case map_of m 1 of None \<Rightarrow> False | Some e \<Rightarrow> child e))"

definition put_entry :: "app_path \<Rightarrow> string \<Rightarrow> nat \<Rightarrow> url_entry \<Rightarrow> url_mapper \<Rightarrow> url_mapper" where
  "put_entry app key n e m =
     (let sizes = (case map_of (by_key m app) key of None \<Rightarrow> [] | Some s \<Rightarrow> s)
      in m\<lparr>by_key := (by_key m)(app := omap_set key (omap_set n e sizes) (by_key m app))\<rparr>)"

definition real_assign :: "app_path \<Rightarrow> string \<Rightarrow> string \<Rightarrow> bool \<Rightarrow> (url_mapper, unit) action" where
  "real_assign app key url is_mount m =
     (case parse_url False [] url of
        Inl x \<Rightarrow> (Inl x, m)
      | Inr e \<Rightarrow>
          if is_mount \<and> max_index e \<noteq> 1
          then (Inl (Cppcms_error ''cppcms::url_mapper the application mapping should use only 1 parameter''), m)
          else if is_mount \<and> map_of (by_key m app) key \<noteq> None
          then (Inl (Cppcms_error ''cppcms::url_mapper: mounted application key can't be shared with ordinary url key''), m)
          else if \<not> is_mount \<and> is_child_key (map_of (by_key m app) key)
          then (Inl (Cppcms_error ''cppcms::url_mapper: ordinary url key can't be shared with mounted application key''), m)
          else (Inr (), put_entry app key (nat (max_index e)) (e\<lparr>child := is_mount\<rparr>) m))"

definition assign_default :: "app_path \<Rightarrow> string \<Rightarrow> (url_mapper, unit) action" where
  "assign_default app url = real_assign app [] url False"

definition assign :: "app_path \<Rightarrow> string \<Rightarrow> string \<Rightarrow> (url_mapper, unit) action" where
  "assign app key url =
     (if key = [] \<or> CHR ''/'' \<in> set key \<or> CHR '';'' \<in> set key \<or> CHR '','' \<in> set key \<or>
         key = ''..'' \<or> key = ''.''
      then throw (Cppcms_error ''cppcms::url_mapper: key may not be empty, '.' or '..' and must not include '/' in it'')
      else real_assign app key url False)"

text \<open>\<open>mount\<close>: the named values of all applications are kept by the topmost one.\<close>

definition mount :: "app_path \<Rightarrow> string \<Rightarrow> string \<Rightarrow> (url_mapper, unit) action" where
  "mount app name url = real_assign app name url True"

definition set_value_of :: "string \<Rightarrow> string \<Rightarrow> url_mapper \<Rightarrow> url_mapper" where
  "set_value_of key v m = m\<lparr>helpers := omap_set key v (helpers m)\<rparr>"

definition clear_value_of :: "string \<Rightarrow> url_mapper \<Rightarrow> url_mapper" where
  "clear_value_of key m = m\<lparr>helpers := omap_erase key (helpers m)\<rparr>"

section \<open>From a key to a URL\<close>

definition get_entry :: "url_mapper \<Rightarrow> app_path \<Rightarrow> string \<Rightarrow> nat \<Rightarrow> string \<Rightarrow> exn + url_entry" where
  "get_entry m app key n full =
     (case map_of (by_key m app) key of
        None \<Rightarrow> Inl (Cppcms_error (''url_mapper: key `'' @ key @ '' not found for url `'' @ full))
      | Some sizes \<Rightarrow>
          (case map_of sizes n of
             None \<Rightarrow> Inl (Cppcms_error (''url_mapper: invalid number of parameters for '' @ key @ ''in url `'' @ full))
           | Some e \<Rightarrow> Inr e))"

text \<open>One placeholder: a named value (an override before a default, else nothing) or a parameter.\<close>

definition fill :: "(string \<times> string) list \<Rightarrow> (string \<times> string) list \<Rightarrow> (exn + string) list \<Rightarrow>
    int \<Rightarrow> string \<Rightarrow> exn + string" where
  "fill override dflt ps i key =
     (if i = 0
      then Inr (case map_of override key of
                  Some v \<Rightarrow> v
                | None \<Rightarrow> (case map_of dflt key of Some v \<Rightarrow> v | None \<Rightarrow> []))
      else if nat (i - 1) \<ge> length ps then Inl (Cppcms_error ''url_mapper: Index of parameter out of range'')
      else ps ! nat (i - 1))"

fun write_parts :: "(int \<Rightarrow> string \<Rightarrow> exn + string) \<Rightarrow> string list \<Rightarrow> int list \<Rightarrow> string list \<Rightarrow> exn + string" where
  "write_parts fl [] is ks = Inr []"
| "write_parts fl (p # ps) (i # is) (k # ks) =
     (case fl i k of
        Inl x \<Rightarrow> Inl x
      | Inr v \<Rightarrow> map_sum id (\<lambda>r. p @ v @ r) (write_parts fl ps is ks))"
| "write_parts fl (p # ps) is ks = map_sum id (\<lambda>r. p @ r) (write_parts fl ps is ks)"

definition write_entry ::
    "url_mapper \<Rightarrow> (string \<times> string) list \<Rightarrow> (exn + string) list \<Rightarrow> url_entry \<Rightarrow> exn + string" where
  "write_entry m override ps e = write_parts (fill override (helpers m) ps) (parts e) (indexes e) (keys e)"

function map_up :: "url_mapper \<Rightarrow> app_path \<Rightarrow> string \<Rightarrow> string \<Rightarrow> (string \<times> string) list \<Rightarrow>
    (exn + string) list \<Rightarrow> exn + string" where
  "map_up m app key full override ps =
     (case get_entry m app key (length ps) full of
        Inl x \<Rightarrow> Inl x
      | Inr e \<Rightarrow>
          if app = [] then map_sum id (\<lambda>s. url_root m @ s) (write_entry m override ps e)
          else map_up m (butlast app) (last app) full override [write_entry m override ps e])"
  by pat_completeness auto
termination
  by (relation "measure (\<lambda>(m, app, _). length app)") auto

declare map_up.simps [simp del]

section \<open>Finding the application a key is of\<close>

definition parent :: "app_path \<Rightarrow> exn + app_path" where
  "parent app = (if app = [] then Inl (Cppcms_error ''url_mapper: no parent found'') else Inr (butlast app))"

definition child_app :: "url_mapper \<Rightarrow> app_path \<Rightarrow> string \<Rightarrow> string \<Rightarrow> exn + app_path" where
  "child_app m app name full =
     (case get_entry m app name 1 full of
        Inl x \<Rightarrow> Inl x
      | Inr e \<Rightarrow>
          if child e then Inr (app @ [name])
          else Inl (Cppcms_error (''url_mapper: the key '' @ name @ '' is not child application key in url `'' @ full)))"

definition is_app :: "url_mapper \<Rightarrow> app_path \<Rightarrow> string \<Rightarrow> bool" where
  "is_app m app key \<longleftrightarrow>
     (case map_of (by_key m app) key of None \<Rightarrow> False | Some [] \<Rightarrow> False | Some ((_, e) # _) \<Rightarrow> child e)"

fun split_commas :: "string \<Rightarrow> string \<Rightarrow> string list" where
  "split_commas acc [] = [acc]"
| "split_commas acc (c # s) = (if c = CHR '','' then acc # split_commas [] s else split_commas (acc @ [c]) s)"

definition last_key :: "string \<Rightarrow> string \<times> string list" where
  "last_key s =
     (case find_str '';'' s of
        None \<Rightarrow> (s, [])
      | Some p \<Rightarrow> (take p s, split_commas [] (drop (p + 1) s)))"

definition enter_app :: "url_mapper \<Rightarrow> app_path \<Rightarrow> string \<Rightarrow> app_path \<times> string" where
  "enter_app m app key = (if is_app m app key then (app @ [key], []) else (app, key))"

definition final_app :: "url_mapper \<Rightarrow> app_path \<Rightarrow> string \<Rightarrow> exn + (app_path \<times> string \<times> string list)" where
  "final_app m app s =
     (let (key, keywords) = last_key s
      in if key = ''..''
         then (case parent app of
                 Inl x \<Rightarrow> Inl x
               | Inr up \<Rightarrow> (let (a, k) = enter_app m up [] in Inr (a, k, keywords)))
         else (let (a, k) = enter_app m app (if key = ''.'' then [] else key) in Inr (a, k, keywords)))"

function walk :: "url_mapper \<Rightarrow> string \<Rightarrow> app_path \<Rightarrow> string \<Rightarrow> exn + (app_path \<times> string \<times> string list)" where
  "walk m full app s =
     (case find_str ''/'' s of
        None \<Rightarrow> final_app m app s
      | Some p \<Rightarrow>
          (let sub = take p s; rest = drop (p + 1) s
           in if sub = ''.'' then walk m full app rest
              else (case (if sub = ''..'' then parent app else child_app m app sub full) of
                      Inl x \<Rightarrow> Inl x
                    | Inr app' \<Rightarrow> walk m full app' rest)))"
  by pat_completeness auto
termination
  by (relation "measure (\<lambda>(_, _, _, s). length s)") (auto dest!: find_str_SomeD)

declare walk.simps [simp del]

definition get_mapper_for_key :: "url_mapper \<Rightarrow> app_path \<Rightarrow> string \<Rightarrow> exn + (app_path \<times> string \<times> string list)" where
  "get_mapper_for_key m app key =
     (case key of
        [] \<Rightarrow> Inr (app, [], [])
      | c # s \<Rightarrow> if c = CHR ''/'' then walk m key [] s else walk m key app key)"

section \<open>\<open>real_map\<close>\<close>

definition checked_map :: "url_mapper \<Rightarrow> app_path \<Rightarrow> string \<Rightarrow> string list \<Rightarrow> exn + string" where
  "checked_map m app key ps =
     (case get_mapper_for_key m app key of
        Inl x \<Rightarrow> Inl x
      | Inr (app', real_key, direct) \<Rightarrow>
          if length ps < length direct
          then Inl (Cppcms_error ''url_mapper: number of keywords is larger then number of actual parameters'')
          else map_up m app' real_key key (rev (zip direct ps)) (map Inr (drop (length direct) ps)))"

definition url :: "url_mapper \<Rightarrow> app_path \<Rightarrow> string \<Rightarrow> string list \<Rightarrow> exn + string" where
  "url m app key ps =
     (case checked_map m app key ps of
        Inl x \<Rightarrow> if url_throws m then Inl x else Inr ''/this_is_an_invalid_url_generated_by_url_mapper''
      | Inr s \<Rightarrow> Inr s)"

section \<open>The applications of the blog\<close>

text \<open>
  What the constructors under \<open>apps/\<close> assign and mount, the topmost application last. (In the
  program an application is mounted after its own constructor ran; the entries are the same.)
\<close>

definition run_all :: "(url_mapper, unit) action list \<Rightarrow> (url_mapper, unit) action" where
  "run_all = for_each (\<lambda>op. op)"

definition blog_master_urls :: "app_path \<Rightarrow> (url_mapper, unit) action" where
  "blog_master_urls b = run_all [
     assign_default (b @ [''page'']) ''/{1}'', assign (b @ [''page'']) ''preview'' ''/{1}/preview'',
     mount b ''page'' ''/page{1}'',
     assign_default (b @ [''post'']) ''/{1}'', assign (b @ [''post'']) ''preview'' ''/{1}/preview'',
     assign (b @ [''post'']) ''postback'' ''/{1}/postback'',
     mount b ''post'' ''/post{1}'',
     assign_default (b @ [''download'']) ''/{1}/{2}/{3}'', mount b ''download'' ''/download{1}'',
     assign_default (b @ [''summary'']) ''/'', assign (b @ [''summary'']) ''from'' ''/'',
     assign (b @ [''summary'']) ''from'' ''/from/{1}'',
     assign (b @ [''summary'']) ''category'' ''/cat/{1}'',
     assign (b @ [''summary'']) ''category'' ''/cat/{1}/from/{2}'',
     mount b ''summary'' ''{1}'']"

definition admin_master_urls :: "app_path \<Rightarrow> (url_mapper, unit) action" where
  "admin_master_urls a = run_all [
     assign_default (a @ [''caching'']) [], mount a ''caching'' ''/cache{1}'',
     assign_default (a @ [''categories'']) ''/'', mount a ''categories'' ''/categories{1}'',
     assign_default (a @ [''options'']) ''/'', mount a ''options'' ''/options{1}'',
     assign_default (a @ [''comment'']) ''/{1}'', mount a ''comment'' ''/comment{1}'',
     assign_default (a @ [''post'']) ''/{1}'', assign_default (a @ [''post'']) ''/'',
     mount a ''post'' ''/post{1}'',
     assign_default (a @ [''page'']) ''/{1}'', assign_default (a @ [''page'']) ''/'',
     mount a ''page'' ''/page{1}'',
     assign (a @ [''users'']) ''list'' ''/list'', assign (a @ [''users'']) ''list'' ''/list/{1}'',
     assign (a @ [''users'']) ''add'' ''/add'', assign (a @ [''users'']) ''del'' ''/del/{1}'',
     assign_default (a @ [''users'']) ''/{1}'', assign_default (a @ [''users'']) [],
     mount a ''users'' ''/users{1}'',
     assign_default (a @ [''upload'']) [], mount a ''upload'' ''/upload{1}'',
     assign_default (a @ [''summary'']) ''/{1}'', assign_default (a @ [''summary'']) [],
     mount a ''summary'' ''{1}'']"

definition feed_urls :: "app_path \<Rightarrow> (url_mapper, unit) action" where
  "feed_urls f = run_all [
     assign f ''posts'' [], assign f ''posts'' ''/cat/{1}/'', assign f ''comments'' ''/comments'']"

definition blog_urls :: "bool \<Rightarrow> (url_mapper, unit) action" where
  "blog_urls with_media = run_all
     ([assign_default [''captcha''] [], mount [] ''captcha'' ''/captcha{1}'',
       assign_default [''config''] [], assign [''config''] ''version'' ''/version'',
       mount [] ''config'' ''/config{1}'',
       admin_master_urls [''admin''], mount [] ''admin'' ''/admin{1}'',
       feed_urls [''feed''], mount [] ''feed'' ''/rss{1}''] @
      (if with_media then [assign_default [''media''] ''/{1}'', mount [] ''media'' ''/media{1}''] else []) @
      [blog_master_urls [''blog''], mount [] ''blog'' ''{1}''])"

definition blog_mapper :: "string \<Rightarrow> bool \<Rightarrow> bool \<Rightarrow> url_mapper" where
  "blog_mapper root strict with_media = snd (blog_urls with_media (new_mapper root strict))"

text \<open>Every assignment of the constructors succeeds, and links come out as expected.\<close>

lemma blog_urls_succeed: "fst (blog_urls b (new_mapper root strict)) = Inr ()"
  by (induction b) code_simp+

lemma link_to_post: "url (blog_mapper root strict b) app ''/blog/post'' [s] = Inr (root @ ''/post/'' @ s)"
  by (induction b; code_simp; simp)

lemma link_to_login: "url (blog_mapper root strict b) app ''/admin/users'' [] = Inr (root @ ''/admin/users'')"
  by (induction b; code_simp; simp)

lemma link_to_category:
  "url (blog_mapper root strict b) [''blog'', ''summary''] ''category'' [c, p] =
     Inr (root @ ''/cat/'' @ c @ ''/from/'' @ p)"
  by (induction b; code_simp; simp)

end
