(* ===== verification/File_System.thy ===== *)
theory File_System
  imports Prelude
begin

text \<open>
  The files of the server as the program sees them through the C library: a tree of directories and
  regular files, without symbolic links, whose names are resolved component by component.
  \<open>mkdir\<close> is \<open>basic_master::mkdir\<close>.
\<close>

section \<open>Names\<close>

text \<open>
  A place is the list of its components below the root, or below the working directory when it
  starts with \<open>.\<close>, which no component is otherwise.
\<close>

type_synonym place = "string list"

datatype node = File string int | Dir int int

type_synonym fs = "place \<Rightarrow> node option"

fun components :: "string \<Rightarrow> string \<Rightarrow> string list" where
  "components part [] = [part]"
| "components part (c # s) = (if c = CHR ''/'' then part # components [] s else components (part @ [c]) s)"

definition is_dir :: "fs \<Rightarrow> place \<Rightarrow> bool" where
  "is_dir fs p \<longleftrightarrow> p = [] \<or> p = [''.''] \<or> (case fs p of Some (Dir _ _) \<Rightarrow> True | _ \<Rightarrow> False)"

text \<open>\<open>..\<close> of the root is the root; above the working directory nothing is known (\<open>None\<close>).\<close>

definition parent_of :: "place \<Rightarrow> place option" where
  "parent_of p = (if p = [''.''] then None else Some (butlast p))"

fun walk :: "fs \<Rightarrow> place \<Rightarrow> string list \<Rightarrow> place option" where
  "walk fs cur [] = Some cur"
| "walk fs cur (c # cs) =
     (if \<not> is_dir fs cur then None
      else if c = [] \<or> c = ''.'' then walk fs cur cs
      else if c = ''..'' then (case parent_of cur of None \<Rightarrow> None | Some p \<Rightarrow> walk fs p cs)
      else walk fs (cur @ [c]) cs)"

text \<open>What a C string shows of a name; the empty name is no name.\<close>

definition resolve :: "fs \<Rightarrow> string \<Rightarrow> place option" where
  "resolve fs name =
     (let s = takeWhile (\<lambda>c. c \<noteq> CHR 0x00) name
      in if s = [] then None
         else walk fs (if hd s = CHR ''/'' then [] else [''.'']) (components [] s))"

definition node_at :: "fs \<Rightarrow> place \<Rightarrow> node option" where
  "node_at fs p = (if p = [] \<or> p = [''.''] then Some (Dir 4096 0) else fs p)"

section \<open>Calls\<close>

definition lstat :: "fs \<Rightarrow> string \<Rightarrow> node option" where
  "lstat fs name = Option.bind (resolve fs name) (node_at fs)"

definition access :: "fs \<Rightarrow> string \<Rightarrow> bool" where
  "access fs name \<longleftrightarrow> lstat fs name \<noteq> None"

definition st_size :: "node \<Rightarrow> int" where
  "st_size n = (case n of File s _ \<Rightarrow> int (length s) | Dir k _ \<Rightarrow> k)"

definition st_mtime :: "node \<Rightarrow> int" where
  "st_mtime n = (case n of File _ t \<Rightarrow> t | Dir _ t \<Rightarrow> t)"

text \<open>What a stream reads from a file; nothing can be read from a directory.\<close>

definition content_of :: "node \<Rightarrow> string" where
  "content_of n = (case n of File s _ \<Rightarrow> s | Dir _ _ \<Rightarrow> [])"

text \<open>
  Opening a file for writing: it is emptied or made, in a directory that exists. The result is
  whether it could be opened.
\<close>

definition write_file :: "int \<Rightarrow> string \<Rightarrow> string \<Rightarrow> fs \<Rightarrow> bool \<times> fs" where
  "write_file now name s fs =
     (case resolve fs name of
        None \<Rightarrow> (False, fs)
      | Some p \<Rightarrow>
          if is_dir fs p \<or> \<not> is_dir fs (butlast p) then (False, fs)
          else (True, fs(p \<mapsto> File s now)))"

definition unlink_file :: "string \<Rightarrow> fs \<Rightarrow> fs" where
  "unlink_file name fs =
     (case resolve fs name of
        None \<Rightarrow> fs
      | Some p \<Rightarrow> (case node_at fs p of Some (File _ _) \<Rightarrow> fs(p := None) | _ \<Rightarrow> fs))"

definition rename_file :: "string \<Rightarrow> string \<Rightarrow> fs \<Rightarrow> fs" where
  "rename_file from_name to_name fs =
     (case (resolve fs from_name, resolve fs to_name) of
        (Some p, Some q) \<Rightarrow>
          (case node_at fs p of
             Some (File s t) \<Rightarrow>
               if is_dir fs q \<or> \<not> is_dir fs (butlast q) then fs else (fs(p := None))(q \<mapsto> File s t)
           | _ \<Rightarrow> fs)
      | _ \<Rightarrow> fs)"

definition make_dir :: "int \<Rightarrow> string \<Rightarrow> fs \<Rightarrow> bool \<times> fs" where
  "make_dir now name fs =
     (case resolve fs name of
        None \<Rightarrow> (False, fs)
      | Some p \<Rightarrow>
          if fs p \<noteq> None \<or> is_dir fs p \<or> \<not> is_dir fs (butlast p) then (False, fs)
          else (True, fs(p \<mapsto> Dir 4096 now)))"

section \<open>\<open>basic_master::mkdir\<close>\<close>

text \<open>
  Makes the directories above a file. \<open>None\<close>: the call does not return, as it calls itself with
  the same path for ever.
\<close>

definition above :: "string \<Rightarrow> string" where
  "above path = (case rfind_char path (CHR ''/'') of None \<Rightarrow> path | Some i \<Rightarrow> take i path)"

partial_function (option) mkdir :: "int \<Rightarrow> string \<Rightarrow> bool \<Rightarrow> fs \<Rightarrow> (bool \<times> fs) option" where
  "mkdir now path isfile fs =
     (if access fs path then Some (True, fs)
      else
        Option.bind (mkdir now (above path) False fs) (\<lambda>(ok, fs).
        if \<not> ok then Some (False, fs)
        else if isfile then Some (True, fs)
        else Some (make_dir now path fs)))"

declare mkdir.simps [code]

section \<open>Names that stay below a directory\<close>

lemma components_append: "components part (a @ CHR ''/'' # b) = components part a @ components [] b"
  by (induction part a rule: components.induct) auto

lemma components_infix:
  "c \<in> set (components part s) \<Longrightarrow> \<exists>x y. part @ s = x @ c @ y"
proof (induction part s rule: components.induct)
  case (2 part a s)
  show ?case
  proof (cases "a = CHR ''/''")
    case True
    then consider "c = part" | "c \<in> set (components [] s)" using 2(3) by auto
    then show ?thesis
    proof cases
      case 1
      then show ?thesis by (metis append_Nil)
    next
      case 2
      then obtain x y where "s = x @ c @ y" using \<open>a = _ \<Longrightarrow> _ \<Longrightarrow> \<exists>x y. [] @ s = x @ c @ y\<close>[OF True] by auto
      then have "part @ a # s = (part @ a # x) @ c @ y" by simp
      then show ?thesis by blast
    qed
  next
    case False
    then show ?thesis using 2 by auto
  qed
qed (metis append_Nil append_Nil2 components.simps(1) empty_iff insert_iff list.set)

lemma walk_append:
  "ys \<noteq> [] \<Longrightarrow> walk fs cur (xs @ ys) = Option.bind (walk fs cur xs) (\<lambda>p. walk fs p ys)"
  by (induction fs cur xs rule: walk.induct) (auto split: option.split)

definition below :: "place \<Rightarrow> place \<Rightarrow> bool" where
  "below q p \<longleftrightarrow> take (length q) p = q"

lemma below_refl [simp]: "below q q"
  by (simp add: below_def)

lemma below_iff: "below q p \<longleftrightarrow> (\<exists>r. p = q @ r)"
  unfolding below_def by (metis append_eq_conv_conj)

lemma below_step: "below (q @ r) p \<Longrightarrow> below q p"
  unfolding below_iff by auto

lemma walk_below: "''..'' \<notin> set cs \<Longrightarrow> walk fs cur cs = Some p \<Longrightarrow> below cur p"
proof (induction fs cur cs rule: walk.induct)
  case (2 fs cur c cs)
  then show ?case by (auto split: if_splits dest: below_step)
qed simp

text \<open>
  A name under a directory, without dots that lead out of it, is a place below the place of the
  directory.
\<close>

lemma resolve_below:
  assumes "resolve fs (dir @ CHR ''/'' # rest) = Some p" "CHR 0x00 \<notin> set dir" "dir \<noteq> []"
    and "''..'' \<notin> set (components [] (takeWhile (\<lambda>c. c \<noteq> CHR 0x00) rest))"
  shows "\<exists>q. resolve fs dir = Some q \<and> below q p"
proof -
  have t: "takeWhile (\<lambda>c. c \<noteq> CHR 0x00) (dir @ CHR ''/'' # rest) =
      dir @ CHR ''/'' # takeWhile (\<lambda>c. c \<noteq> CHR 0x00) rest"
    "takeWhile (\<lambda>c. c \<noteq> CHR 0x00) dir = dir"
    using assms(2) by (simp_all add: takeWhile_append takeWhile_eq_all_conv) fastforce+
  have ne: "components q s \<noteq> []" for q s by (induction q s rule: components.induct) auto
  show ?thesis
    using assms(1,3,4) unfolding resolve_def t Let_def
    by (auto simp: components_append walk_append[OF ne] bind_eq_Some_conv dest: walk_below)
qed

section \<open>When \<open>mkdir\<close> returns\<close>

lemma mkdir_exists: "access fs path \<Longrightarrow> mkdir now path isfile fs = Some (True, fs)"
  by (subst mkdir.simps) simp

lemma mkdir_recursion:
  assumes "access fs ((above ^^ n) path)"
  shows "\<exists>r. mkdir now path isfile fs = Some r"
  using assms
proof (induction n arbitrary: path isfile)
  case (Suc n)
  have "access fs ((above ^^ n) (above path))" using Suc(2) by (simp add: funpow_swap1)
  then obtain r where "mkdir now (above path) False fs = Some r" using Suc(1) by blast
  then show ?case by (subst mkdir.simps) (auto simp: split_beta)
qed (use mkdir_exists in auto)

lemma mkdir_needs: "mkdir now path isfile fs = Some r \<Longrightarrow> \<exists>n. access fs ((above ^^ n) path)"
proof (erule mkdir.raw_induct[rotated], goal_cases)
  case (1 mkdir' now path isfile fs r)
  show ?case
  proof (cases "access fs path")
    case True
    then show ?thesis by (intro exI[of _ 0]) simp
  next
    case False
    then obtain q where "mkdir' now (above path) False fs = Some q"
      using 1(2) by (auto simp: bind_eq_Some_conv split: if_splits)
    then obtain n where "access fs ((above ^^ n) (above path))" using 1(1) by blast
    then show ?thesis by (intro exI[of _ "Suc n"]) (simp add: funpow_swap1)
  qed
qed

text \<open>Files stay as they are; directories are added.\<close>

definition dirs_added :: "fs \<Rightarrow> fs \<Rightarrow> bool" where
  "dirs_added fs fs' \<longleftrightarrow> (\<forall>p. fs' p = fs p \<or> fs p = None \<and> is_dir fs' p)"

lemma dirs_added_refl [simp]: "dirs_added fs fs"
  by (simp add: dirs_added_def)

lemma dirs_added_is_dir: "dirs_added fs fs' \<Longrightarrow> is_dir fs p \<Longrightarrow> is_dir fs' p"
  unfolding dirs_added_def is_dir_def by (metis option.simps(4))

lemma dirs_added_trans: "dirs_added a b \<Longrightarrow> dirs_added b c \<Longrightarrow> dirs_added a c"
  unfolding dirs_added_def is_dir_def by metis

lemma make_dir_adds: "make_dir now name fs = (b, fs') \<Longrightarrow> dirs_added fs fs'"
  by (auto simp: make_dir_def dirs_added_def is_dir_def split: option.splits if_splits)

lemma walk_mono: "dirs_added fs fs' \<Longrightarrow> walk fs cur cs = Some p \<Longrightarrow> walk fs' cur cs = Some p"
  by (induction fs cur cs rule: walk.induct) (auto dest: dirs_added_is_dir split: if_splits option.splits)

lemma resolve_mono: "dirs_added fs fs' \<Longrightarrow> resolve fs name = Some p \<Longrightarrow> resolve fs' name = Some p"
  using walk_mono by (auto simp: resolve_def Let_def split: if_splits)

lemma make_dir_done: "make_dir now name fs = (True, fs') \<Longrightarrow> \<exists>p. resolve fs' name = Some p \<and> is_dir fs' p"
proof -
  assume m: "make_dir now name fs = (True, fs')"
  then obtain p where p: "resolve fs name = Some p" "fs' = fs(p \<mapsto> Dir 4096 now)"
    by (auto simp: make_dir_def split: option.splits if_splits)
  then show ?thesis using resolve_mono[OF make_dir_adds[OF m] p(1)] by (auto simp: is_dir_def)
qed

lemma mkdir_adds: "mkdir now path isfile fs = Some r \<Longrightarrow> dirs_added fs (snd r)"
proof (erule mkdir.raw_induct[rotated], goal_cases)
  case (1 mkdir' now path isfile fs r)
  show ?case
  proof (cases "access fs path")
    case False
    then obtain ok fs1 where m: "mkdir' now (above path) False fs = Some (ok, fs1)"
      using 1(2) by (auto simp: bind_eq_Some_conv split: if_splits)
    then have "dirs_added fs fs1" using 1(1) by fastforce
    moreover obtain d fs2 where d: "make_dir now path fs1 = (d, fs2)" by (cases "make_dir now path fs1")
    ultimately show ?thesis
      using 1(2) False m dirs_added_trans[OF _ make_dir_adds[OF d], of fs]
      by (auto simp: d split: if_splits)
  qed (use 1(2) in auto)
qed

lemma access_dir: "resolve fs name = Some p \<Longrightarrow> is_dir fs p \<Longrightarrow> access fs name"
  by (auto simp: access_def lstat_def node_at_def is_dir_def split: option.splits)

lemma mkdir_done: "mkdir now path False fs = Some (True, fs') \<Longrightarrow> access fs' path"
  by (subst (asm) mkdir.simps)
    (auto simp: bind_eq_Some_conv split: if_splits dest!: make_dir_done intro: access_dir)



end
