(* ===== verification/Site.thy ===== *)
theory Site
  imports Blog_Data Forms Database Url_Mapper File_System
begin

text \<open>
  What every handler of the blog stands on: the configuration and the request
  (\<open>site\<close>), the state (\<open>world\<close>: the state of the request, the database, and the files under
  their paths with their contents and modification times), transactions, the
  parameters of a request, \<open>basic_master::prepare\<close> with the upgrade of the database, the
  sidebar of \<open>blog/master.cpp\<close>, and rendering.
\<close>

section \<open>What is shown\<close>

text \<open>The contents under \<open>data/\<close>, without what all of them have in common.\<close>

record post_item =
  pi_id :: int
  pi_author :: string
  pi_title :: string
  pi_abstract :: string
  pi_content :: string
  pi_has_content :: bool
  pi_comment_count :: int
  pi_published :: int
  pi_categories :: "(int \<times> string) list"

definition blank_post :: post_item where
  "blank_post = \<lparr>pi_id = 0, pi_author = [], pi_title = [], pi_abstract = [], pi_content = [],
     pi_has_content = False, pi_comment_count = 0, pi_published = 0, pi_categories = []\<rparr>"

record comment_item =
  ci_id :: int
  ci_username :: string
  ci_url :: string
  ci_content :: string
  ci_date :: int

record feed_comment =
  fc_id :: int
  fc_post :: int
  fc_author :: string
  fc_content :: string

datatype content =
    Page_content int string string
  | Post_content post_item "comment_item list" string comment_form
  | Summary_content int string string pager "post_item list"
  | Feed_posts int string "post_item list"
  | Feed_comments "feed_comment list"
  | Config_content config_form
  | Config_version string string
  | Admin_summary "(int \<times> string) list" "(int \<times> string) list" pager "(int \<times> string \<times> int) list" "(int \<times> int \<times> string) list"
  | Admin_caching nat bool
  | Admin_options options_form
  | Admin_categories string "(int \<times> string) list"
  | Admin_login login_form
  | Admin_useradd user_form
  | Admin_user int user_form
  | Admin_userlist string pager "user_row list"
  | Admin_comment int int edit_comment_form
  | Admin_page int bool page_form
  | Admin_post int bool post_form

section \<open>Configuration, request and state\<close>

text \<open>
  \<open>markup\<close> and \<open>sidebar_markup\<close> stand for the compiled templates of \<open>views/\<close>: the text of a
  page before and after its sidebar (feeds and administration pages have none and use the
  first part), and of the sidebar. A page knows the token against forgery, the general
  information and, in the administration, who is logged in. \<open>document_root\<close> is the setting
  \<open>file_server.document_root\<close>; \<open>garbage\<close> what a new digest finds in its buffer, \<open>number_text\<close> how a
  double made of an integer is printed, \<open>rotated\<close> the image library: an image turned by some degrees
  and written in a format, or an exception.
\<close>

record site =
  req :: env
  media_url :: string
  document_root :: string
  garbage :: string
  number_text :: "int \<Rightarrow> string"
  rotated :: "int \<Rightarrow> string \<Rightarrow> string \<Rightarrow> string option"
  blog_host :: string
  cookie_name :: string
  urls :: url_mapper
  query_string :: string
  engine :: sql_engine
  markup :: "string \<Rightarrow> general_info \<Rightarrow> int \<times> string \<Rightarrow> content \<Rightarrow> string \<times> string"
  sidebar_markup :: "general_info \<Rightarrow> sidebar_info \<Rightarrow> string"

record world = web +
  db :: database
  disk :: fs

type_synonym 'a handler = "(world, 'a) action"

definition sql :: "(database \<Rightarrow> 'a) \<Rightarrow> 'a handler" where
  "sql f = reads (\<lambda>w. f (db w))"

definition sql_exec :: "(database \<Rightarrow> database) \<Rightarrow> unit handler" where
  "sql_exec f = changes (\<lambda>w. w\<lparr>db := f (db w)\<rparr>)"

definition sql_try :: "(database, 'a) action \<Rightarrow> 'a handler" where
  "sql_try m w = (case m (db w) of (r, d) \<Rightarrow> (r, w\<lparr>db := d\<rparr>))"

text \<open>
  \<open>cppdb::transaction\<close>: what runs up to \<open>commit\<close>, or up to where the block is left, returns
  whether it committed. Without a commit, and when an exception passes, the destructor rolls
  the database back; the response, the session and the cache keep their changes.
\<close>

definition transaction :: "('a \<times> bool) handler \<Rightarrow> 'a handler" where
  "transaction m w =
     (case m w of
        (Inr (x, committed), w') \<Rightarrow> (Inr x, if committed then w' else w'\<lparr>db := db w\<rparr>)
      | (Inl e, w') \<Rightarrow> (Inl e, w'\<lparr>db := db w\<rparr>))"

definition commit :: "'a \<Rightarrow> ('a \<times> bool) handler" where
  "commit x = ret (x, True)"

definition leave :: "'a \<Rightarrow> ('a \<times> bool) handler" where
  "leave x = ret (x, False)"

definition catch_sql :: "'a handler \<Rightarrow> 'a handler \<Rightarrow> 'a handler" where
  "catch_sql m h w =
     (case m w of
        (Inl (Cppdb_error s), w') \<Rightarrow> h w'
      | r \<Rightarrow> r)"

section \<open>Parameters of a request\<close>

definition get_str :: "site \<Rightarrow> string \<Rightarrow> string \<Rightarrow> string" where
  "get_str st key dflt = (let v = request_get (req st) key in if v = [] then dflt else v)"

definition get_int :: "site \<Rightarrow> string \<Rightarrow> int \<Rightarrow> int" where
  "get_int st key dflt = (let v = request_get (req st) key in if v = [] then dflt else atoi v)"

definition get_long :: "site \<Rightarrow> string \<Rightarrow> int \<Rightarrow> int" where
  "get_long st key dflt = (let v = request_get (req st) key in if v = [] then dflt else atol v)"

definition post_str :: "site \<Rightarrow> string \<Rightarrow> string \<Rightarrow> string" where
  "post_str st key dflt = (let v = request_post (req st) key in if v = [] then dflt else v)"

definition post_int :: "site \<Rightarrow> string \<Rightarrow> int \<Rightarrow> int" where
  "post_int st key dflt = (let v = request_post (req st) key in if v = [] then dflt else atoi v)"

definition post_long :: "site \<Rightarrow> string \<Rightarrow> int \<Rightarrow> int" where
  "post_long st key dflt = (let v = request_post (req st) key in if v = [] then dflt else atol v)"

definition post_or_get :: "site \<Rightarrow> string \<Rightarrow> string" where
  "post_or_get st key = (let v = request_post (req st) key in if v = [] then request_get (req st) key else v)"

definition post_or_get_str :: "site \<Rightarrow> string \<Rightarrow> string \<Rightarrow> string" where
  "post_or_get_str st key dflt = (let v = post_or_get st key in if v = [] then dflt else v)"

definition post_or_get_int :: "site \<Rightarrow> string \<Rightarrow> int \<Rightarrow> int" where
  "post_or_get_int st key dflt = (let v = post_or_get st key in if v = [] then dflt else atoi v)"

definition post_or_get_long :: "site \<Rightarrow> string \<Rightarrow> int \<Rightarrow> int" where
  "post_or_get_long st key dflt = (let v = post_or_get st key in if v = [] then dflt else atol v)"

definition is_post :: "site \<Rightarrow> bool" where
  "is_post st \<longleftrightarrow> request_method (req st) = ''POST''"

section \<open>Links and errors\<close>

definition link :: "site \<Rightarrow> app_path \<Rightarrow> string \<Rightarrow> string list \<Rightarrow> string handler" where
  "link st app key ps = (case url (urls st) app key ps of Inl x \<Rightarrow> throw x | Inr u \<Rightarrow> ret u)"

definition redirect :: "site \<Rightarrow> app_path \<Rightarrow> string \<Rightarrow> string list \<Rightarrow> string \<Rightarrow> unit handler" where
  "redirect st app key ps suffix =
     andThen (link st app key ps) (\<lambda>u. on_response (set_redirect_header (u @ suffix)))"

definition http_error :: "site \<Rightarrow> int \<Rightarrow> unit handler" where
  "http_error st code = error_response (req st) code"

definition raise_trigger :: "string \<Rightarrow> unit handler" where
  "raise_trigger t = on_cache (ci_rise t)"

definition add_trigger_to_page :: "string \<Rightarrow> unit handler" where
  "add_trigger_to_page t = on_cache (ci_add_trigger t)"

definition session_set :: "string \<Rightarrow> bool handler" where
  "session_set k = reads (\<lambda>w. is_set k (ses w))"

definition session_get :: "string \<Rightarrow> string handler" where
  "session_get k w = (sget k (ses w), w)"

definition session_get_int :: "string \<Rightarrow> int handler" where
  "session_get_int k w = (sget_int k (ses w), w)"

text \<open>\<open>blog::master::init\<close>, which the dispatcher calls before a handler of the blog.\<close>

definition user_of :: "string handler" where
  "user_of = reads (\<lambda>w. case sget ''user'' (ses w) of Inr u \<Rightarrow> u | Inl _ \<Rightarrow> [])"

section \<open>\<open>basic_master::prepare\<close>\<close>

definition database_version :: string where
  "database_version = ''3''"

text \<open>
  A row of \<open>post2cat\<close> without a post would get NULL, which its column does not allow.
\<close>

definition upgrade_2_3 :: "(database, unit) action" where
  "upgrade_2_3 d =
     (if \<exists>r \<in> set (post2cats d). post_by_id (pc_post r) d = None
      then (Inl (Cppdb_error ''not null''), d)
      else (Inr (), update_option ''dbversion'' ''3''
        (d\<lparr>post2cats := map (\<lambda>r. r\<lparr>pc_open := p_open (the (post_by_id (pc_post r) d))\<rparr>) (post2cats d)\<rparr>)))"

fun upgrade_steps :: "nat \<Rightarrow> int \<Rightarrow> (world, bool \<times> bool) action" where
  "upgrade_steps 0 ver = commit True"
| "upgrade_steps (Suc n) ver =
     andThen (if ver = 2 then sql_try upgrade_2_3 else throw Database_version_error) (\<lambda>_.
     upgrade_steps n (ver + 1))"

definition upgrade :: "string \<Rightarrow> bool handler" where
  "upgrade current_ver =
     (let ver = atoi current_ver; final_ver = atoi database_version
      in if ver > final_ver \<or> ver < 2 then ret False
         else transaction (upgrade_steps (nat (final_ver - ver)) ver))"

definition option_or :: "string \<Rightarrow> database \<Rightarrow> string" where
  "option_or k d = (case option_value k d of None \<Rightarrow> [] | Some v \<Rightarrow> v)"

definition read_info :: "database \<Rightarrow> general_info" where
  "read_info d = \<lparr>blog_title = option_or ''blog_title'' d,
     blog_description = option_or ''blog_description'' d, contact = option_or ''contact'' d,
     copyright_string = option_or ''copyright'' d\<rparr>"

definition check_version :: "string \<Rightarrow> unit handler" where
  "check_version dbversion =
     (if dbversion \<noteq> database_version
      then andThen (upgrade dbversion) (\<lambda>ok. if ok then ret () else throw Database_version_error)
      else ret ())"

definition prepare :: "site \<Rightarrow> general_info handler" where
  "prepare st =
     andThen (fetch_data (req st) load_general_info ''options'') (\<lambda>cached.
     case cached of
       Some info \<Rightarrow> ret info
     | None \<Rightarrow>
         andThen (sql (\<lambda>d. d)) (\<lambda>d.
         andThen (check_version (option_or ''dbversion'' d)) (\<lambda>_.
         if option_or ''is_configured'' d \<noteq> ''yes'' then throw Database_is_not_configured_error
         else andThen (store_data (req st) save_general_info ''options'' (read_info d) {})
                (\<lambda>_. ret (read_info d)))))"

section \<open>The sidebar\<close>

text \<open>
  A \<open>triggers_recorder\<close> around a computation: what it recorded is passed on; when the
  computation throws, its destructor takes it off the list.
\<close>

definition with_recorder :: "('a \<Rightarrow> string set \<Rightarrow> 'b handler) \<Rightarrow> 'a handler \<Rightarrow> 'b handler" where
  "with_recorder f m w =
     (let (i, c) = new_recorder (cch w)
      in case m (w\<lparr>cch := c\<rparr>) of
           (Inl e, w') \<Rightarrow> (Inl e, w'\<lparr>cch := remove_triggers_recorder i (cch w')\<rparr>)
         | (Inr x, w') \<Rightarrow>
             (case detach i (cch w') of
                (Inl e, c') \<Rightarrow> (Inl e, w'\<lparr>cch := remove_triggers_recorder i c'\<rparr>)
              | (Inr ts, c') \<Rightarrow> f x ts (w'\<lparr>cch := c'\<rparr>)))"

definition read_sidebar :: "database \<Rightarrow> sidebar_info" where
  "read_sidebar d =
     \<lparr>si_pages = map (\<lambda>g. \<lparr>sp_id = g_id g, sp_title = g_title g\<rparr>) (filter (\<lambda>g. g_open g = 1) (pages d)),
      si_cats = map (\<lambda>(i, n, k). \<lparr>sc_id = i, sc_name = n, sc_posts = k\<rparr>) (cats_with_counts d)\<rparr>"

definition cat_trigger :: "int \<Rightarrow> string" where
  "cat_trigger i = ''cat_'' @ dec i"

definition post_trigger :: "int \<Rightarrow> string" where
  "post_trigger i = ''post_'' @ dec i"

definition sidebar_triggers :: "sidebar_info \<Rightarrow> string list" where
  "sidebar_triggers s = ''pages'' # map (\<lambda>c. cat_trigger (sc_id c)) (si_cats s) @ [''cats'', ''general_info'']"

definition query_sidebar :: "sidebar_info handler" where
  "query_sidebar =
     andThen (sql read_sidebar) (\<lambda>s.
     andThen (for_each add_trigger_to_page (sidebar_triggers s)) (\<lambda>_. ret s))"

definition load_sidebar :: "site \<Rightarrow> sidebar_info handler" where
  "load_sidebar st =
     andThen (fetch_data (req st) load_sidebar_info ''sidebar_info'') (\<lambda>cached.
     case cached of
       Some s \<Rightarrow> ret s
     | None \<Rightarrow>
         with_recorder (\<lambda>s ts.
             andThen (store_data (req st) save_sidebar ''sidebar_info'' s ts) (\<lambda>_. ret s))
           query_sidebar)"

section \<open>Rendering\<close>

text \<open>
  The frame around the sidebar in the skins of \<open>views/blog/skins\<close>: its text is cached under
  \<open>sidebar\<close>, with the triggers added while it was made.
\<close>

definition make_sidebar :: "site \<Rightarrow> general_info \<Rightarrow> string handler" where
  "make_sidebar st info =
     andThen (load_sidebar st) (\<lambda>s.
     andThen (add_trigger_to_page ''options'') (\<lambda>_. ret (sidebar_markup st info s)))"

definition sidebar :: "site \<Rightarrow> general_info \<Rightarrow> unit handler" where
  "sidebar st info =
     andThen (fetch_frame (req st) ''sidebar'') (\<lambda>cached.
     case cached of
       Some text \<Rightarrow> put_out (req st) text
     | None \<Rightarrow>
         with_recorder (\<lambda>text ts.
             andThen (put_out (req st) text) (\<lambda>_. store_frame (req st) ''sidebar'' text ts))
           (make_sidebar st info))"

definition csrf_token :: "string handler" where
  "csrf_token = reads (\<lambda>w. get_csrf_token (ses w))"

definition render_blog :: "site \<Rightarrow> general_info \<Rightarrow> content \<Rightarrow> unit handler" where
  "render_blog st info c =
     andThen (out (req st)) (\<lambda>_.
     andThen csrf_token (\<lambda>tok.
     andThen (put_out (req st) (fst (markup st tok info (0, []) c))) (\<lambda>_.
     andThen (sidebar st info) (\<lambda>_.
     put_out (req st) (snd (markup st tok info (0, []) c))))))"

definition render_plain :: "site \<Rightarrow> general_info \<Rightarrow> int \<times> string \<Rightarrow> content \<Rightarrow> unit handler" where
  "render_plain st info who c =
     andThen (out (req st)) (\<lambda>_.
     andThen csrf_token (\<lambda>tok. put_out (req st) (fst (markup st tok info who c))))"

section \<open>What every handler keeps\<close>

definition world_ok :: "world \<Rightarrow> bool" where
  "world_ok w \<longleftrightarrow> web_ok w \<and> db_ok (db w)"

lemma rest_is_db: "rest_is (web.more w) w' \<Longrightarrow> db w' = db w"
  for w w' :: world
  by (cases w; cases w') (simp add: rest_is_def)

lemma keeps_world:
  fixes m :: "'a handler"
  assumes "keeps web_ok m" "\<And>c. keeps (rest_is c) m"
  shows "keeps world_ok m"
proof
  fix w assume w: "world_ok w"
  have "rest_is (web.more w) (snd (m w))" by (rule keepsD[OF assms(2)]) (simp add: rest_is_def)
  then show "world_ok (snd (m w))"
    using w keepsD[OF assms(1), of w] rest_is_db by (simp add: world_ok_def)
qed

lemma keeps_db:
  fixes m :: "'a handler"
  assumes "\<And>c. keeps (rest_is c) m"
  shows "keeps (\<lambda>w. D (db w)) m"
proof
  fix w :: world assume w: "D (db w)"
  have "rest_is (web.more w) (snd (m w))" by (rule keepsD[OF assms]) (simp add: rest_is_def)
  then show "D (db (snd (m w)))" using w rest_is_db by simp
qed

lemma web_ok_db [simp]: "web_ok (w\<lparr>db := d\<rparr>) \<longleftrightarrow> web_ok w"
  by (simp add: web_ok_def)

lemma rest_world_simps [simp]: "db (w\<lparr>rsp := r\<rparr>) = db w" "db (w\<lparr>ses := s\<rparr>) = db w" "db (w\<lparr>cch := c\<rparr>) = db w"
  by simp_all

text \<open>The primitives.\<close>

lemma keeps_sql [keeps_intros]: "keeps P (sql f)"
  by (simp add: sql_def keeps_reads)

lemma sql_exec_world: "(\<And>d. db_ok d \<Longrightarrow> db_ok (f d)) \<Longrightarrow> keeps world_ok (sql_exec f)"
  by (simp add: sql_exec_def keeps_def world_ok_def)

lemma sql_exec_web [keeps_intros]: "keeps web_ok (sql_exec f)"
  by (simp add: sql_exec_def keeps_def)

lemma sql_try_world: "(\<And>d. db_ok d \<Longrightarrow> db_ok (snd (f d))) \<Longrightarrow> keeps world_ok (sql_try f)"
  by (simp add: sql_try_def keeps_def world_ok_def split_beta)

lemma sql_try_web [keeps_intros]: "keeps web_ok (sql_try f)"
  by (simp add: sql_try_def keeps_def split_beta)

lemma keeps_commit [keeps_intros]: "keeps P (commit x)" "keeps P (leave x)"
  by (simp_all add: commit_def leave_def keeps_ret)

lemma link_keeps [keeps_intros]: "keeps P (link st app key ps)"
  by (auto simp: link_def keeps_def split: sum.split)

lemma session_reads [keeps_intros]:
  "keeps P (session_set k)" "keeps P (session_get k)" "keeps P (session_get_int k)" "keeps P user_of"
  "keeps P csrf_token"
  by (simp_all add: keeps_def session_set_def session_get_def session_get_int_def user_of_def csrf_token_def)

text \<open>What a transaction leaves is its start or its committed end.\<close>

lemma transaction_web [keeps_intros]:
  assumes "keeps web_ok m"
  shows "keeps web_ok (transaction m)"
proof
  fix w :: world
  assume "web_ok w"
  then have "web_ok (snd (m w))" by (rule keepsD[OF assms])
  then show "web_ok (snd (transaction m w))"
    by (simp add: transaction_def split_beta split: sum.split)
qed

definition gives :: "('s \<Rightarrow> bool) \<Rightarrow> ('s, 'a) action \<Rightarrow> ('a \<Rightarrow> 's \<Rightarrow> bool) \<Rightarrow> bool" where
  "gives P m Q \<longleftrightarrow> (\<forall>w. P w \<longrightarrow> (case m w of (Inr x, w') \<Rightarrow> Q x w' | (Inl e, w') \<Rightarrow> True))"

lemma transaction_world:
  assumes "keeps web_ok m"
    and "gives (\<lambda>w. db_ok (db w)) m (\<lambda>(x, c) w. c \<longrightarrow> db_ok (db w))"
  shows "keeps world_ok (transaction m)"
proof
  fix w assume w: "world_ok w"
  then have "web_ok (snd (m w))" using keepsD[OF assms(1)] by (simp add: world_ok_def)
  moreover have "case m w of (Inr x, w') \<Rightarrow> (case x of (x, c) \<Rightarrow> \<lambda>w. c \<longrightarrow> db_ok (db w)) w' | (Inl e, w') \<Rightarrow> True"
    using assms(2) w by (simp add: gives_def world_ok_def)
  ultimately show "world_ok (snd (transaction m w))"
    using w by (auto simp: transaction_def world_ok_def split: prod.splits sum.splits)
qed

lemma catch_sql_keeps [keeps_intros]: "keeps P m \<Longrightarrow> keeps P h \<Longrightarrow> keeps P (catch_sql m h)"
  by (auto simp: keeps_def catch_sql_def split: prod.splits sum.splits exn.splits)

text \<open>The operations on the request alone, for the state with the database.\<close>

lemma world_request [keeps_intros]:
  fixes e :: env
  shows "keeps world_ok (on_response f)" "keeps world_ok (out e)" "keeps world_ok (put_out e s)"
    "keeps world_ok (finalize e)" "keeps world_ok (error_response e stat)" "keeps world_ok (fetch_page e key)"
    "keeps world_ok (store_page e key)" "keeps world_ok (fetch_frame e key)"
    "keeps world_ok (fetch_data e ld key)"
  by (intro keeps_world keeps_intros)+

lemma world_stores [keeps_intros]:
  "finite ts \<Longrightarrow> keeps world_ok (store_frame e key frame ts)"
  "finite ts \<Longrightarrow> keeps world_ok (store_data e sv key v ts)"
  by (intro keeps_world keeps_intros; assumption)+

lemma world_on_session [keeps_intros]:
  "(\<And>s. sstore (f s) = sstore s) \<Longrightarrow> keeps world_ok (on_session f)"
  by (intro keeps_world keeps_on_session keeps_intros)

lemma world_on_cache [keeps_intros]: "(\<And>c. cif_ok c \<Longrightarrow> cif_ok (f c)) \<Longrightarrow> keeps world_ok (on_cache f)"
  by (intro keeps_world keeps_on_cache keeps_intros)

lemma web_shorthands [keeps_intros]:
  "keeps web_ok (http_error st code)" "keeps web_ok (redirect st app key ps sfx)"
  "keeps web_ok (raise_trigger t)" "keeps web_ok (add_trigger_to_page t)"
  unfolding http_error_def redirect_def raise_trigger_def add_trigger_to_page_def
  by (intro keeps_intros ci_rise_ok ci_add_trigger_ok; assumption?)+

lemma rest_shorthands [keeps_intros]:
  "keeps (rest_is c) (http_error st code)" "keeps (rest_is c) (redirect st app key ps sfx)"
  "keeps (rest_is c) (raise_trigger t)" "keeps (rest_is c) (add_trigger_to_page t)"
  unfolding http_error_def redirect_def raise_trigger_def add_trigger_to_page_def by (intro keeps_intros)+

lemma world_shorthands [keeps_intros]:
  "keeps world_ok (http_error st code)" "keeps world_ok (redirect st app key ps sfx)"
  "keeps world_ok (raise_trigger t)" "keeps world_ok (add_trigger_to_page t)"
  by (intro keeps_world keeps_intros)+

lemma web_check_origin [keeps_intros]: "keeps web_ok (check_origin e)"
proof -
  have "sstore (snd (validate_request_origin cfg rm pp hd s)) = sstore s" for cfg rm pp hd and s :: "mem_storage session"
    by (simp add: validate_request_origin_def Let_def)
  then show ?thesis unfolding check_origin_def by (intro keeps_in_session) simp
qed

lemma load_form_keeps [keeps_intros]:
  "keeps web_ok (load_form e ld)" "keeps (rest_is c) (load_form e ld)"
  unfolding load_form_def check_origin_def[of e, symmetric]
  by (intro keeps_intros, simp add: check_origin_def, intro keeps_intros)

lemma world_load_form [keeps_intros]: "keeps world_ok (load_form e ld)"
  by (intro keeps_world keeps_intros)

lemma transaction_simple:
  assumes "keeps world_ok m"
  shows "keeps world_ok (transaction m)"
proof
  fix w assume w: "world_ok w"
  then have "world_ok (snd (m w))" by (rule keepsD[OF assms])
  then show "world_ok (snd (transaction m w))"
    using w by (simp add: transaction_def world_ok_def split_beta split: sum.split)
qed

text \<open>The upgrade, and what every page starts with.\<close>

lemma upgrade_2_3_ok:
  assumes d: "db_ok d"
  shows "db_ok (snd (upgrade_2_3 d))"
proof -
  have "pc_open r = p_open (the (post_by_id (pc_post r) d))" if "r \<in> set (post2cats d)" for r
    using db_okD(10)[OF d] that by (auto simp: post2cats_ok_def post_by_id_iff[OF d, THEN iffD2])
  then have "map (\<lambda>r. r\<lparr>pc_open := p_open (the (post_by_id (pc_post r) d))\<rparr>) (post2cats d) = post2cats d"
    by (intro map_idI) simp
  then show ?thesis using d update_option_ok[OF d] by (simp add: upgrade_2_3_def)
qed

lemma upgrade_steps_ok: "keeps world_ok (upgrade_steps n ver)"
  by (induction n arbitrary: ver) (auto intro!: keeps_intros sql_try_world upgrade_2_3_ok)

lemma prepare_ok [keeps_intros]: "keeps world_ok (prepare st)"
  unfolding prepare_def check_version_def upgrade_def
  by (intro keeps_intros transaction_simple upgrade_steps_ok) simp_all

text \<open>The sidebar and the pages.\<close>

lemma with_recorder_ok:
  assumes m: "keeps world_ok m" and f: "\<And>x ts. finite ts \<Longrightarrow> keeps world_ok (f x ts)"
  shows "keeps world_ok (with_recorder f m)"
proof
  fix w assume w: "world_ok w"
  obtain i c where r: "new_recorder (cch w) = (i, c)" by (cases "new_recorder (cch w)")
  have c: "cif_ok c" using w new_recorder_ok[of "cch w"] r by (simp add: world_ok_def web_ok_def)
  have put: "world_ok (w'\<lparr>cch := c'\<rparr>)" if "world_ok w'" "cif_ok c'" for w' c'
    using that by (simp add: world_ok_def web_ok_def)
  obtain x w1 where m1: "m (w\<lparr>cch := c\<rparr>) = (x, w1)" by (cases "m (w\<lparr>cch := c\<rparr>)")
  have w1: "world_ok w1" using keepsD[OF m put[OF w c]] m1 by simp
  then have c1: "cif_ok (cch w1)" by (simp add: world_ok_def web_ok_def)
  obtain y c2 where d: "detach i (cch w1) = (y, c2)" by (cases "detach i (cch w1)")
  have c2: "cif_ok c2" using detach_ok[OF c1, of i] d by simp
  have ts: "finite ts" if "y = Inr ts" for ts
    using c1 d that by (auto simp: detach_def cif_ok_def split: option.splits dest!: map_of_SomeD)
  show "world_ok (snd (with_recorder f m w))"
    using put[OF w1 remove_triggers_recorder_ok[OF c1]] put[OF w1 remove_triggers_recorder_ok[OF c2]]
      keepsD[OF f[OF ts] put[OF w1 c2]]
    by (auto simp: with_recorder_def r m1 d split: sum.split)
qed

lemma load_sidebar_ok [keeps_intros]: "keeps world_ok (load_sidebar st)"
  unfolding load_sidebar_def query_sidebar_def by (intro keeps_intros with_recorder_ok)

lemma sidebar_ok_step [keeps_intros]: "keeps world_ok (sidebar st info)"
  unfolding sidebar_def make_sidebar_def by (intro keeps_intros with_recorder_ok)

lemma render_ok [keeps_intros]:
  "keeps world_ok (render_blog st info c)" "keeps world_ok (render_plain st info who c)"
  unfolding render_blog_def render_plain_def by (intro keeps_intros)+

section \<open>What a body of a transaction commits\<close>

named_theorems gives_intros

lemma gives_andThen [gives_intros]:
  "gives P m R \<Longrightarrow> (\<And>x. gives (R x) (f x) Q) \<Longrightarrow> gives P (andThen m f) Q"
  by (fastforce simp: gives_def andThen_def split: prod.splits sum.splits)

lemma gives_if [gives_intros]:
  "(b \<Longrightarrow> gives P m Q) \<Longrightarrow> (\<not> b \<Longrightarrow> gives P n Q) \<Longrightarrow> gives P (if b then m else n) Q"
  by simp

lemma gives_ret: "(\<And>w. P w \<Longrightarrow> Q x w) \<Longrightarrow> gives P (ret x) Q"
  by (simp add: gives_def)

lemma gives_commit [gives_intros]:
  "gives (\<lambda>w. db_ok (db w)) (commit x) (\<lambda>(x, c) w. c \<longrightarrow> db_ok (db w))"
  "gives P (leave x) (\<lambda>(x, c) w. c \<longrightarrow> db_ok (db w))"
  by (simp_all add: commit_def leave_def gives_def)

text \<open>A request operation leaves whatever is said of the database.\<close>

lemma gives_prod [gives_intros]:
  "(\<And>a b. gives P (f a b) Q) \<Longrightarrow> gives P (case x of (a, b) \<Rightarrow> f a b) Q"
  by (cases x) simp

lemma gives_request:
  fixes m :: "'a handler"
  assumes "\<And>c. keeps (rest_is c) m"
  shows "gives (\<lambda>w. D (db w)) m (\<lambda>_ w. D (db w))"
proof -
  have "D (db (snd (m w)))" if "D (db w)" for w
    using keepsD[OF keeps_db[of m D, OF assms]] that by simp
  then show ?thesis by (fastforce simp: gives_def split: prod.splits sum.splits)
qed

lemma gives_sql: "gives (\<lambda>w. D (db w)) (sql f) (\<lambda>x w. D (db w) \<and> x = f (db w))"
  by (simp add: gives_def sql_def)

lemma gives_sql_exec: "(\<And>d. D d \<Longrightarrow> E (f d)) \<Longrightarrow> gives (\<lambda>w. D (db w)) (sql_exec f) (\<lambda>_ w. E (db w))"
  by (simp add: gives_def sql_exec_def)

lemma gives_sql_try:
  "(\<And>d x d'. D d \<Longrightarrow> f d = (Inr x, d') \<Longrightarrow> E d') \<Longrightarrow> gives (\<lambda>w. D (db w)) (sql_try f) (\<lambda>_ w. E (db w))"
  by (auto simp: gives_def sql_try_def split: prod.splits sum.splits)

lemma gives_for_each:
  "(\<And>r. r \<in> set rs \<Longrightarrow> gives P (f r) (\<lambda>_. P)) \<Longrightarrow> gives P (for_each f rs) (\<lambda>_. P)"
proof (induction rs)
  case (Cons r rs)
  then show ?case by (auto intro!: gives_andThen)
qed (simp add: gives_def)

lemma gives_weaken: "gives P' m Q \<Longrightarrow> (\<And>w. P w \<Longrightarrow> P' w) \<Longrightarrow> gives P m Q"
  by (simp add: gives_def)

lemma gives_conseq: "gives P m Q \<Longrightarrow> (\<And>x w. Q x w \<Longrightarrow> Q' x w) \<Longrightarrow> gives P m Q'"
  by (fastforce simp: gives_def split: prod.splits sum.splits)

lemma keeps_worldD: "keeps world_ok m \<Longrightarrow> world_ok w \<Longrightarrow> world_ok (snd (m w))"
  by (rule keepsD)

section \<open>A site to try things with\<close>

definition example_site :: "env \<Rightarrow> site" where
  "example_site e = \<lparr>req = e, media_url = ''/media'', document_root = ''./'', garbage = replicate 64 (CHR 0x00),
     number_text = dec, rotated = (\<lambda>_ _ s. Some s), blog_host = ''localhost'', cookie_name = ''s'',
     urls = blog_mapper ''/blog'' True True, query_string = [], engine = \<lparr>like = (\<lambda>p s. p = s), int_is_text = (\<lambda>i s. dec i = s)\<rparr>,
     markup = (\<lambda>_ _ _ _. (''page'', [])), sidebar_markup = (\<lambda>_ _. [])\<rparr>"

definition example_disk :: "(string \<times> node) list \<Rightarrow> fs" where
  "example_disk files = map_of ([([''.'', ''media''], Dir 4096 1)] @ map (\<lambda>(n, f). ([''.'', ''media'', n], f)) files)"

definition example_world :: "fs \<Rightarrow> world" where
  "example_world d =
     web.extend (example_web example_session) (world.fields empty_database d)"

lemma example_world_ok: "world_ok (example_world d)"
proof -
  have "storage_ok (sstore example_session)" by (simp add: example_session_fields new_storage_ok)
  then have "web_ok (example_web example_session)" by (rule example_web_ok)
  then show ?thesis
    using empty_database_ok by (simp add: world_ok_def web_ok_def example_world_def world.defs web.defs)
qed

end
