(* ===== verification/Blog_App.thy ===== *)
theory Blog_App
  imports Site
begin

text \<open>
  The applications a visitor sees: pages, posts with their comments, and the summaries
  (\<open>apps/blog/page.cpp\<close>, \<open>post.cpp\<close>, \<open>summary.cpp\<close>), the feeds (\<open>apps/feed/feed.cpp\<close>) and the
  captcha (\<open>apps/captcha.cpp\<close>). A handler is what the dispatcher calls, after
  \<open>blog::master::init\<close>.
\<close>

section \<open>Pages\<close>

definition page_prepare :: "site \<Rightarrow> string \<Rightarrow> bool \<Rightarrow> bool handler" where
  "page_prepare st sid preview =
     (let i = atoi sid in
      andThen (sql (page_by_id i)) (\<lambda>r.
      case r of
        None \<Rightarrow> andThen (http_error st 404) (\<lambda>_. ret False)
      | Some g \<Rightarrow>
          if \<not> preview \<and> g_open g = 0 then andThen (http_error st 404) (\<lambda>_. ret False)
          else andThen (prepare st) (\<lambda>info.
               andThen (render_blog st info (Page_content i (g_title g) (g_content g))) (\<lambda>_. ret True))))"

definition page_preview :: "site \<Rightarrow> string \<Rightarrow> unit handler" where
  "page_preview st sid =
     andThen user_of (\<lambda>u.
     if u = [] then http_error st 403 else andThen (page_prepare st sid True) (\<lambda>_. ret ()))"

text \<open>
  What \<open>display\<close> does around its own work, here and for posts: serve the cached page, or make
  it and, unless that failed, store it.
\<close>

definition cached_page :: "site \<Rightarrow> string \<Rightarrow> bool handler \<Rightarrow> unit handler" where
  "cached_page st key work =
     andThen (fetch_page (req st) key) (\<lambda>hit.
     if hit then ret ()
     else andThen work (\<lambda>ok. if ok then store_page (req st) key else ret ()))"

definition page_display :: "site \<Rightarrow> string \<Rightarrow> unit handler" where
  "page_display st sid = cached_page st (''page_'' @ sid) (page_prepare st sid False)"

section \<open>Posts and comments\<close>

definition blank_comment_form :: comment_form where
  "blank_comment_form = \<lparr>cf_author = blank_field, cf_mail = blank_field, cf_url = blank_field,
     cf_content = blank_field, cf_captcha = blank_field, cf_send = False, cf_preview = False\<rparr>"

definition post_with_author :: "int \<Rightarrow> database \<Rightarrow> (post_row \<times> user_row) option" where
  "post_with_author i d =
     (case post_by_id i d of
        None \<Rightarrow> None
      | Some p \<Rightarrow> (case user_by_id (p_author p) d of None \<Rightarrow> None | Some u \<Rightarrow> Some (p, u)))"

definition shown_comments :: "int \<Rightarrow> database \<Rightarrow> comment_item list" where
  "shown_comments i d =
     map (\<lambda>c. \<lparr>ci_id = c_id c, ci_username = c_author c, ci_url = c_url c, ci_content = c_content c,
              ci_date = c_time c\<rparr>)
       (sort_key c_time (comments_of i d))"

definition shown_post :: "int \<Rightarrow> post_row \<Rightarrow> user_row \<Rightarrow> database \<Rightarrow> post_item" where
  "shown_post i p u d = \<lparr>pi_id = i, pi_author = u_name u, pi_title = p_title p, pi_abstract = p_abstract p,
     pi_content = p_content p, pi_has_content = False,
     pi_comment_count = int (length (comments_of i d)), pi_published = p_publish p,
     pi_categories = cats_of_post i d\<rparr>"

definition prepare_content ::
    "site \<Rightarrow> string \<Rightarrow> bool \<Rightarrow> (general_info \<times> post_item \<times> comment_item list) option handler" where
  "prepare_content st sid preview =
     (let i = atoi sid in
      andThen (sql (post_with_author i)) (\<lambda>r.
      case r of
        None \<Rightarrow> andThen (http_error st 404) (\<lambda>_. ret None)
      | Some (p, u) \<Rightarrow>
          if p_open p = 0 \<and> \<not> preview then andThen (http_error st 403) (\<lambda>_. ret None)
          else andThen (prepare st) (\<lambda>info.
               andThen (sql (\<lambda>d. (shown_post i p u d, shown_comments i d))) (\<lambda>(item, cs).
               ret (Some (info, item, cs))))))"

definition show_post :: "site \<Rightarrow> string \<Rightarrow> bool \<Rightarrow> string \<Rightarrow> comment_form \<Rightarrow> bool handler" where
  "show_post st sid preview text f =
     andThen (prepare_content st sid preview) (\<lambda>r.
     case r of
       None \<Rightarrow> ret False
     | Some (info, item, cs) \<Rightarrow>
         andThen (render_blog st info (Post_content item cs text f)) (\<lambda>_. ret True))"

definition post_preview :: "site \<Rightarrow> string \<Rightarrow> unit handler" where
  "post_preview st sid =
     andThen user_of (\<lambda>u.
     if u = [] then http_error st 403
     else andThen (show_post st sid True [] blank_comment_form) (\<lambda>_. ret ()))"

definition post_display :: "site \<Rightarrow> string \<Rightarrow> unit handler" where
  "post_display st sid =
     cached_page st (''post_'' @ sid) (show_post st sid False [] blank_comment_form)"

text \<open>A comment. What becomes of it: the request is over, it was sent, it is shown as a preview, or
  it was not valid.\<close>

datatype comment_fate = Over | Sent | Shown | Rejected

definition validate_comment :: "site \<Rightarrow> comment_form \<Rightarrow> (bool \<times> comment_form) handler" where
  "validate_comment st f = in_session (\<lambda>s. (case comment_form_validate (req st) f s of (r, s') \<Rightarrow> (Inr r, s')))"

text \<open>A registered author's comment carries the name of the account and a link to the blog.\<close>

definition comment_author :: "site \<Rightarrow> comment_form \<Rightarrow> (string \<times> string \<times> string) handler" where
  "comment_author st f =
     andThen (session_set ''user'') (\<lambda>known.
     if known
     then andThen (session_get ''user'') (\<lambda>u.
          andThen (link st [''blog'', ''post''] ''/blog/summary'' []) (\<lambda>l. ret (u, [], l)))
     else ret (tf_value (cf_author f), tf_value (cf_mail f), tf_value (cf_url f)))"

definition send_comment :: "site \<Rightarrow> int \<Rightarrow> comment_form \<Rightarrow> (comment_fate \<times> bool) handler" where
  "send_comment st i f =
     andThen (comment_author st f) (\<lambda>(author, mail, u).
     andThen (sql_exec (\<lambda>d. insert_comment i author mail u (now (req st)) (tf_value (cf_content f)) d)) (\<lambda>_.
     andThen (sql_exec (update_comment_count i)) (\<lambda>_.
     andThen (raise_trigger (post_trigger i)) (\<lambda>_.
     andThen (raise_trigger ''comments'') (\<lambda>_.
     commit Sent)))))"

definition accept_comment :: "site \<Rightarrow> int \<Rightarrow> comment_form \<Rightarrow> comment_fate handler" where
  "accept_comment st i f =
     transaction
       (andThen (sql (post_by_id i)) (\<lambda>r.
        case r of
          None \<Rightarrow> andThen (http_error st 404) (\<lambda>_. leave Over)
        | Some p \<Rightarrow>
            if p_open p = 0 then andThen (http_error st 404) (\<lambda>_. leave Over)
            else if cf_send f then send_comment st i f
            else leave Shown))"

definition post_postback :: "site \<Rightarrow> string \<Rightarrow> unit handler" where
  "post_postback st sid =
     (let i = atoi sid in
      if \<not> is_post st then http_error st 404
      else
        andThen (load_form (req st) load_comment_form) (\<lambda>f.
        andThen (validate_comment st f) (\<lambda>(valid, f).
        andThen (if valid then accept_comment st i f else ret Rejected) (\<lambda>fate.
        if fate = Over then ret ()
        else
          andThen (if fate = Sent
                   then redirect st [''blog'', ''post''] ''/blog/post'' [dec i] [] else ret ()) (\<lambda>_.
          andThen (show_post st sid False (if fate = Shown then tf_value (cf_content f) else []) f)
            (\<lambda>_. ret ()))))))"

section \<open>Summaries\<close>

definition checks_category :: "site \<Rightarrow> int \<Rightarrow> bool handler" where
  "checks_category st cat =
     (if cat \<le> 0 then ret True
      else
        andThen (fetch_frame (req st) ''max_cat_id'') (\<lambda>cached.
        case cached of
          Some m \<Rightarrow> if atoi m < cat then andThen (http_error st 404) (\<lambda>_. ret False) else ret True
        | None \<Rightarrow>
            andThen (sql max_cat_id) (\<lambda>m.
            andThen (store_frame (req st) ''max_cat_id'' (case m of Some i \<Rightarrow> dec i | None \<Rightarrow> []) {''cats''})
              (\<lambda>_. ret True))))"

definition category_name :: "site \<Rightarrow> int \<Rightarrow> string handler" where
  "category_name st cat =
     andThen (fetch_frame (req st) (''cat_name_'' @ dec cat)) (\<lambda>cached.
     case cached of
       Some n \<Rightarrow> ret n
     | None \<Rightarrow>
         andThen (sql (\<lambda>d. case cat_by_id cat d of Some k \<Rightarrow> k_name k | None \<Rightarrow> [])) (\<lambda>n.
         andThen (store_frame (req st) (''cat_name_'' @ dec cat) n {cat_trigger cat}) (\<lambda>_. ret n)))"

definition count_key :: "int \<Rightarrow> string \<Rightarrow> string" where
  "count_key cat q = ''cat_count_'' @ dec cat @ (if q = [] then [] else ''_'' @ q)"

definition record_count :: "site \<Rightarrow> int \<Rightarrow> string \<Rightarrow> int handler" where
  "record_count st cat q =
     andThen (fetch_data (req st) load_records (count_key cat q)) (\<lambda>cached.
     case cached of
       Some n \<Rightarrow> ret n
     | None \<Rightarrow>
         andThen (sql (count_open (engine st) cat q)) (\<lambda>n.
         andThen (store_data (req st) save_records (count_key cat q) n {cat_trigger cat}) (\<lambda>_. ret n)))"

definition like_pattern :: "string \<Rightarrow> string" where
  "like_pattern q = (if q = [] then [] else ''%'' @ the (mysql_like q) @ ''%'')"

definition summary_item :: "listed \<Rightarrow> post_item" where
  "summary_item l = \<lparr>pi_id = l_id l, pi_author = l_author l, pi_title = l_title l,
     pi_abstract = l_abstract l, pi_content = [], pi_has_content = (l_size l \<noteq> 0),
     pi_comment_count = l_comments l, pi_published = l_publish l, pi_categories = []\<rparr>"

text \<open>The categories go to the last listed post of their number (\<open>id2pos\<close>).\<close>

fun attach_cats :: "database \<Rightarrow> post_item list \<Rightarrow> post_item list" where
  "attach_cats d [] = []"
| "attach_cats d (p # ps) =
     (if pi_id p \<in> pi_id ` set ps then p else p\<lparr>pi_categories := cats_of_post (pi_id p) d\<rparr>) # attach_cats d ps"

definition summary_redirect :: "site \<Rightarrow> int \<Rightarrow> int \<Rightarrow> string \<Rightarrow> unit handler" where
  "summary_redirect st cat p q =
     (let suffix = (if q = [] then [] else ''?'' @ query_string st)
      in if cat \<noteq> 0 then redirect st [''blog'', ''summary''] ''category'' [dec cat, dec p] suffix
         else redirect st [''blog'', ''summary''] ''from'' [dec p] suffix)"

definition summary_pager :: "int \<Rightarrow> int \<Rightarrow> pager" where
  "summary_pager n p = calc_pages \<lparr>page_records = n, page_size = 10, curpage = p, page_total = 1\<rparr>"

definition summary_list :: "site \<Rightarrow> int \<Rightarrow> string \<Rightarrow> string \<Rightarrow> string \<Rightarrow> pager \<Rightarrow> bool handler" where
  "summary_list st cat name q pat pg =
     andThen (sql (list_open (engine st) cat pat (page_size pg) (curpage pg * page_size pg))) (\<lambda>ls.
     andThen (for_each (\<lambda>l. add_trigger_to_page (post_trigger (l_id l))) ls) (\<lambda>_.
     andThen (prepare st) (\<lambda>info.
     andThen (sql (\<lambda>d. attach_cats d (map summary_item ls))) (\<lambda>items.
     andThen (render_blog st info (Summary_content cat name q pg items)) (\<lambda>_. ret True)))))"

definition summary_body :: "site \<Rightarrow> int \<Rightarrow> int \<Rightarrow> string \<Rightarrow> bool handler" where
  "summary_body st cat p q =
     andThen (add_trigger_to_page (cat_trigger cat)) (\<lambda>_.
     andThen (if cat = 0 then ret [] else category_name st cat) (\<lambda>name.
     if cat \<noteq> 0 \<and> name = [] then andThen (http_error st 404) (\<lambda>_. ret False)
     else
       andThen (record_count st cat (like_pattern q)) (\<lambda>n.
       let pg = summary_pager n p
       in if curpage pg \<noteq> p then andThen (summary_redirect st cat (curpage pg) q) (\<lambda>_. ret False)
          else summary_list st cat name q (like_pattern q) pg)))"

definition summary_key :: "int \<Rightarrow> int \<Rightarrow> string \<Rightarrow> string" where
  "summary_key cat p q = ''summary_'' @ dec cat @ ''_'' @ dec p @ ''_'' @ q"

definition summary_prepare :: "site \<Rightarrow> int \<Rightarrow> int \<Rightarrow> unit handler" where
  "summary_prepare st cat_in p_in =
     (let p = max p_in 0; cat = max cat_in 0; q = request_get (req st) ''q''
      in andThen (checks_category st cat) (\<lambda>go.
         if \<not> go then ret ()
         else cached_page st (summary_key cat p q) (summary_body st cat p q)))"

definition summary_all :: "site \<Rightarrow> string option \<Rightarrow> unit handler" where
  "summary_all st page = summary_prepare st 0 (case page of None \<Rightarrow> 0 | Some p \<Rightarrow> atoi p)"

definition summary_category :: "site \<Rightarrow> string \<Rightarrow> string option \<Rightarrow> unit handler" where
  "summary_category st cat page = summary_prepare st (atoi cat) (case page of None \<Rightarrow> 0 | Some p \<Rightarrow> atoi p)"

section \<open>Feeds\<close>

definition feed_comments :: "site \<Rightarrow> unit handler" where
  "feed_comments st =
     andThen (on_response (set_content_header ''text/xml'')) (\<lambda>_.
     cached_page st ''comments''
       (andThen (sql (\<lambda>d. take 10 (order_desc c_id (comments d)))) (\<lambda>cs.
        andThen (prepare st) (\<lambda>info.
        andThen (render_plain st info (0, []) (Feed_comments
          (map (\<lambda>c. \<lparr>fc_id = c_id c, fc_post = c_post c, fc_author = c_author c, fc_content = c_content c\<rparr>) cs)))
          (\<lambda>_. ret True)))))"

definition feed_item :: "listed \<Rightarrow> post_item" where
  "feed_item l = blank_post\<lparr>pi_id := l_id l, pi_title := l_title l, pi_abstract := l_abstract l,
     pi_has_content := (l_size l \<noteq> 0)\<rparr>"

definition feed_items :: "site \<Rightarrow> int \<Rightarrow> string \<Rightarrow> bool handler" where
  "feed_items st cat name =
     andThen (sql (list_open (engine st) cat [] 10 0)) (\<lambda>ls.
     andThen (for_each (\<lambda>l. add_trigger_to_page (post_trigger (l_id l))) ls) (\<lambda>_.
     andThen (prepare st) (\<lambda>info.
     andThen (render_plain st info (0, []) (Feed_posts cat name (map feed_item ls))) (\<lambda>_. ret True))))"

definition feed_posts :: "site \<Rightarrow> unit handler" where
  "feed_posts st =
     andThen (on_response (set_content_header ''text/xml'')) (\<lambda>_.
     cached_page st ''rss_posts''
       (andThen (add_trigger_to_page ''cat_0'') (\<lambda>_. feed_items st 0 [])))"

definition feed_cats :: "site \<Rightarrow> string \<Rightarrow> unit handler" where
  "feed_cats st sid =
     andThen (on_response (set_content_header ''text/xml'')) (\<lambda>_.
     cached_page st (''rss_'' @ sid)
       (andThen (add_trigger_to_page (''cat_'' @ sid)) (\<lambda>_.
        andThen (sql (cat_by_id (atoi sid))) (\<lambda>r.
        case r of
          None \<Rightarrow> andThen (http_error st 404) (\<lambda>_. ret False)
        | Some k \<Rightarrow> feed_items st (k_id k) (k_name k)))))"

section \<open>Every handler keeps the cache, the sessions and the database well formed\<close>

lemma page_prepare_ok [keeps_intros]: "keeps world_ok (page_prepare st sid preview)"
  unfolding page_prepare_def by (intro keeps_intros)

lemma page_preview_ok [keeps_intros]: "keeps world_ok (page_preview st sid)"
  unfolding page_preview_def by (intro keeps_intros)

lemma cached_page_ok [keeps_intros]: "keeps world_ok m \<Longrightarrow> keeps world_ok (cached_page st key m)"
  unfolding cached_page_def by (intro keeps_intros)

lemma page_display_ok [keeps_intros]: "keeps world_ok (page_display st sid)"
  unfolding page_display_def by (intro keeps_intros)

lemma show_post_ok [keeps_intros]: "keeps world_ok (show_post st sid preview t f)"
  unfolding show_post_def prepare_content_def by (intro keeps_intros)

lemma post_preview_ok [keeps_intros]: "keeps world_ok (post_preview st sid)"
  unfolding post_preview_def by (intro keeps_intros)

lemma post_display_ok [keeps_intros]: "keeps world_ok (post_display st sid)"
  unfolding post_display_def by (intro keeps_intros)

lemma check_captcha_store: "sstore (snd (check_captcha a s)) = sstore s"
  by (simp add: check_captcha_def sclear_def on_server_def expiration_def set_age_def sset_int_def split: sum.split)

lemma comment_form_validate_store: "sstore (snd (comment_form_validate e f s)) = sstore s"
proof -
  obtain b g where "comment_widgets_valid e f = (b, g)" by (cases "comment_widgets_valid e f")
  moreover have "sstore (snd (check_captcha a s)) = sstore s" for a by (rule check_captcha_store)
  ultimately show ?thesis by (simp add: comment_form_validate_def split_beta Let_def split: bool.split)
qed

lemma validate_comment_ok [keeps_intros]: "keeps world_ok (validate_comment st f)"
proof (rule keeps_world)
  show "keeps web_ok (validate_comment st f)"
    unfolding validate_comment_def by (intro keeps_in_session) (simp add: split_beta comment_form_validate_store)
  show "keeps (rest_is c) (validate_comment st f)" for c
    unfolding validate_comment_def by (intro keeps_intros)
qed

lemma comment_author_keeps [keeps_intros]: "keeps P (comment_author st f)"
  unfolding comment_author_def by (intro keeps_intros)

lemma send_comment_commits:
  "gives (\<lambda>w. db_ok (db w) \<and> post_by_id i (db w) = Some p) (send_comment st i f)
     (\<lambda>(x, c) w. c \<longrightarrow> db_ok (db w))"
  unfolding send_comment_def
proof (intro gives_andThen gives_prod)
  show "gives (\<lambda>w. db_ok (db w) \<and> post_by_id i (db w) = Some p) (comment_author st f)
      (\<lambda>_ w. db_ok (db w) \<and> post_by_id i (db w) = Some p)"
    by (rule gives_request[where D = "\<lambda>d. db_ok d \<and> post_by_id i d = Some p"]) (intro keeps_intros)
  show "gives (\<lambda>w. db_ok (db w) \<and> post_by_id i (db w) = Some p)
      (sql_exec (insert_comment i a m u t c)) (\<lambda>_ w. db_ok (update_comment_count i (db w)))" for a m u t c
    by (rule gives_sql_exec[where D = "\<lambda>d. db_ok d \<and> post_by_id i d = Some p" and
          E = "\<lambda>d. db_ok (update_comment_count i d)"]) (blast intro: insert_comment_ok)
  show "gives (\<lambda>w. db_ok (update_comment_count i (db w))) (sql_exec (update_comment_count i)) (\<lambda>_ w. db_ok (db w))"
    by (rule gives_sql_exec) simp
qed (rule gives_request gives_commit; intro keeps_intros)+

lemma accept_comment_ok [keeps_intros]: "keeps world_ok (accept_comment st i f)"
  unfolding accept_comment_def
proof (rule transaction_world)
  show "keeps web_ok (andThen (sql (post_by_id i)) (\<lambda>r. case r of
          None \<Rightarrow> andThen (http_error st 404) (\<lambda>_. leave Over)
        | Some p \<Rightarrow>
            if p_open p = 0 then andThen (http_error st 404) (\<lambda>_. leave Over)
            else if cf_send f then send_comment st i f
            else leave Shown))"
    unfolding send_comment_def by (intro keeps_intros)
  show "gives (\<lambda>w. db_ok (db w)) (andThen (sql (post_by_id i)) (\<lambda>r. case r of
          None \<Rightarrow> andThen (http_error st 404) (\<lambda>_. leave Over)
        | Some p \<Rightarrow>
            if p_open p = 0 then andThen (http_error st 404) (\<lambda>_. leave Over)
            else if cf_send f then send_comment st i f
            else leave Shown)) (\<lambda>(x, c) w. c \<longrightarrow> db_ok (db w))"
  proof (rule gives_andThen[OF gives_sql])
    fix r :: "post_row option"
    have err: "gives P (andThen (http_error st 404) (\<lambda>_. leave Over)) (\<lambda>(x, c) w. c \<longrightarrow> db_ok (db w))" for P
      by (rule gives_andThen[where R = "\<lambda>_ _. True"]) (simp add: gives_def split: prod.split sum.split, rule gives_commit)
    show "gives (\<lambda>w. db_ok (db w) \<and> r = post_by_id i (db w)) (case r of
          None \<Rightarrow> andThen (http_error st 404) (\<lambda>_. leave Over)
        | Some p \<Rightarrow>
            if p_open p = 0 then andThen (http_error st 404) (\<lambda>_. leave Over)
            else if cf_send f then send_comment st i f
            else leave Shown) (\<lambda>(x, c) w. c \<longrightarrow> db_ok (db w))"
    proof (cases r)
      case (Some p)
      have "gives (\<lambda>w. db_ok (db w) \<and> r = post_by_id i (db w)) (send_comment st i f)
          (\<lambda>(x, c) w. c \<longrightarrow> db_ok (db w))"
        by (rule gives_weaken[OF send_comment_commits[of _ p]]) (simp add: Some)
      then show ?thesis using Some err by (simp add: gives_commit(2))
    qed (simp add: err)
  qed
qed

lemma post_postback_ok [keeps_intros]: "keeps world_ok (post_postback st sid)"
  unfolding post_postback_def by (intro keeps_intros)

lemma checks_category_ok [keeps_intros]: "keeps world_ok (checks_category st cat)"
  unfolding checks_category_def by (intro keeps_intros) simp_all

lemma summary_body_ok [keeps_intros]: "keeps world_ok (summary_body st cat p q)"
  unfolding summary_body_def category_name_def record_count_def summary_redirect_def summary_list_def
  by (intro keeps_intros) simp_all

lemma summary_prepare_ok [keeps_intros]: "keeps world_ok (summary_prepare st cat p)"
  unfolding summary_prepare_def by (intro keeps_intros)

lemma feeds_ok [keeps_intros]:
  "keeps world_ok (feed_comments st)" "keeps world_ok (feed_posts st)" "keeps world_ok (feed_cats st sid)"
  unfolding feed_comments_def feed_posts_def feed_cats_def feed_items_def by (intro keeps_intros)+

section \<open>A comment that was sent\<close>

lemma rise_cuts:
  assumes "cache_ok c"
  shows "linked (rise t c) u = (if u = t then {} else linked c u - linked c t)"
  using rise_primary[OF assms, of t] by (auto simp: linked_def)

lemma comment_author_state: "comment_author st f w = (r, w') \<Longrightarrow> w' = w"
  by (auto simp: comment_author_def andThen_def session_set_def session_get_def reads_apply ret_def link_def throw_def
      split: if_splits sum.splits prod.splits)

lemma send_comment_effect:
  assumes "send_comment st i f w = (Inr r, w')" "cif_ok (cch w)"
  shows "\<exists>author mail u. r = (Sent, True) \<and> comment_author st f w = (Inr (author, mail, u), w) \<and>
    db w' = update_comment_count i (insert_comment i author mail u (now (req st)) (tf_value (cf_content f)) (db w)) \<and>
    (\<forall>m t. module (cch w') = Some m \<longrightarrow> t \<in> {post_trigger i, ''comments''} \<longrightarrow> linked m t = {})"
proof -
  obtain r0 w0 where a: "comment_author st f w = (r0, w0)" by (cases "comment_author st f w")
  then obtain author mail u where r0: "r0 = Inr (author, mail, u)" and w0: "w0 = w"
    using assms(1) comment_author_state[OF a] by (cases r0) (auto simp: send_comment_def andThen_def)
  have w': "r = (Sent, True)"
    "w' = w\<lparr>db := update_comment_count i (insert_comment i author mail u (now (req st)) (tf_value (cf_content f)) (db w)),
            cch := ci_rise ''comments'' (ci_rise (post_trigger i) (cch w))\<rparr>"
    using assms(1) a unfolding r0 w0
    by (auto simp: send_comment_def andThen_def sql_exec_def raise_trigger_def on_cache_def changes_def commit_def)
  have "linked m t = {}" if m: "module (cch w') = Some m" and t: "t \<in> {post_trigger i, ''comments''}" for m t
  proof -
    obtain m0 where m0: "module (cch w) = Some m0" "m = rise ''comments'' (rise (post_trigger i) m0)"
      using m by (auto simp: w'(2) ci_rise_def)
    have "cache_ok m0" by (rule cif_okD[OF assms(2) m0(1)])
    then show ?thesis using t rise_cache_ok[of m0] by (auto simp: m0(2) rise_cuts)
  qed
  then show ?thesis using a r0 w0 w' by (intro exI[of _ author] exI[of _ mail] exI[of _ u]) simp
qed

lemma post_after_count:
  "post_by_id i (update_comment_count i d) =
     map_option (\<lambda>p. p\<lparr>p_comments := int (length (comments_of i d))\<rparr>) (post_by_id i d)"
proof -
  have "find (\<lambda>p. p_id p = i) (map (\<lambda>p. if p_id p = i then p\<lparr>p_comments := n\<rparr> else p) ps) =
    map_option (\<lambda>p. p\<lparr>p_comments := n\<rparr>) (find (\<lambda>p. p_id p = i) ps)" for n and ps :: "post_row list"
    by (induction ps) auto
  then show ?thesis by (simp add: post_by_id_def update_comment_count_def update_posts_def)
qed

lemma comments_after_count: "comments_of i (update_comment_count j d) = comments_of i d"
  by (simp add: comments_of_def update_comment_count_def update_posts_def)

lemma post_after_comment: "post_by_id i (insert_comment j a m u t c d) = post_by_id i d"
  by (simp add: post_by_id_def insert_comment_def)

lemma accepted_comment:
  assumes "accept_comment st i f w = (Inr Sent, w')"
  shows "\<exists>p. post_by_id i (db w) = Some p \<and> p_open p \<noteq> 0 \<and>
    (send_comment st i f w = (Inr (Sent, True), w') \<or> (\<exists>w1. send_comment st i f w = (Inr (Sent, False), w1)))"
proof (cases "post_by_id i (db w)")
  case None
  obtain r w2 where "http_error st 404 w = (r, w2)" by (cases "http_error st 404 w")
  then show ?thesis using assms None
    by (simp add: accept_comment_def transaction_def andThen_def sql_def reads_apply leave_def ret_def split: sum.splits)
next
  case (Some p)
  obtain r w2 where h: "http_error st 404 w = (r, w2)" by (cases "http_error st 404 w")
  obtain q w1 where q: "send_comment st i f w = (q, w1)" by (cases "send_comment st i f w")
  show ?thesis using assms Some h q
    by (auto simp: accept_comment_def transaction_def andThen_def sql_def reads_apply leave_def ret_def
        split: sum.splits prod.splits if_splits)
qed

text \<open>
  Property C19. A comment that was sent is stored and can be seen: one row is added, for the post it was
  written to, at the time of the request and with the text of the form; its author is the account of the
  session, if there is one, and otherwise what the form says. The post is open and its count is the
  number of its comments, and no page that carries the trigger of the post or of the comments is left
  in the cache.
\<close>

theorem sent_comment_is_stored:
  assumes "world_ok w" "accept_comment st i f w = (Inr Sent, w')"
  shows "\<exists>author mail u.
    comments (db w') = comments (db w) @
      [\<lparr>c_id = next_comment (db w), c_post = i, c_author = author, c_email = mail, c_url = u,
        c_time = now (req st), c_content = tf_value (cf_content f)\<rparr>] \<and>
    (if is_set ''user'' (ses w) then sget ''user'' (ses w) = Inr author \<and> mail = []
     else (author, mail, u) = (tf_value (cf_author f), tf_value (cf_mail f), tf_value (cf_url f))) \<and>
    (\<exists>p. post_by_id i (db w') = Some p \<and> p_open p \<noteq> 0 \<and> p_comments p = int (length (comments_of i (db w')))) \<and>
    (\<forall>m t. module (cch w') = Some m \<longrightarrow> t \<in> {post_trigger i, ''comments''} \<longrightarrow> linked m t = {})"
proof -
  from accepted_comment[OF assms(2)] obtain p where p: "post_by_id i (db w) = Some p" "p_open p \<noteq> 0"
    and s: "send_comment st i f w = (Inr (Sent, True), w')"
    using assms(1) send_comment_effect[of st i f w] by (force simp: world_ok_def web_ok_def)
  obtain author mail u where e: "comment_author st f w = (Inr (author, mail, u), w)"
    "db w' = update_comment_count i (insert_comment i author mail u (now (req st)) (tf_value (cf_content f)) (db w))"
    "\<forall>m t. module (cch w') = Some m \<longrightarrow> t \<in> {post_trigger i, ''comments''} \<longrightarrow> linked m t = {}"
    using send_comment_effect[OF s] assms(1) by (auto simp: world_ok_def web_ok_def)
  have who: "if is_set ''user'' (ses w) then sget ''user'' (ses w) = Inr author \<and> mail = []
     else (author, mail, u) = (tf_value (cf_author f), tf_value (cf_mail f), tf_value (cf_url f))"
    using e(1) by (auto simp: comment_author_def andThen_def session_set_def session_get_def reads_apply ret_def link_def
        throw_def split: if_splits sum.splits prod.splits)
  have "post_by_id i (db w') = Some (p\<lparr>p_comments := int (length (comments_of i (db w')))\<rparr>)"
    using p by (simp add: e(2) post_after_count comments_after_count post_after_comment)
  then show ?thesis using who e(2,3)
    using p
    by (intro exI[of _ author] exI[of _ mail] exI[of _ u])
      (simp add: update_comment_count_def update_posts_def insert_comment_def)
qed

definition example_open_post :: world where
  "example_open_post = (example_world Map.empty)\<lparr>db := empty_database\<lparr>
     posts := [\<lparr>p_id = 1, p_author = 1, p_title = ''t'', p_abstract = ''a'', p_content = ''c'', p_publish = 5,
       p_comments = 0, p_open = 1\<rparr>], next_post := 2\<rparr>\<rparr>"

theorem sent_comment_is_stored_witness:
  "map c_content (comments (db (snd (accept_comment (example_site (example_env ''POST'' [])) 1
     (example_comment ''me'' ''abc123'') example_open_post)))) = [''text'']"
proof -
  let ?st = "example_site (example_env ''POST'' [])" and ?f = "example_comment ''me'' ''abc123''"
  let ?w' = "snd (accept_comment ?st 1 ?f example_open_post)"
  have "fst (accept_comment ?st 1 ?f example_open_post) = Inr Sent" by code_simp
  then have a: "accept_comment ?st 1 ?f example_open_post = (Inr Sent, ?w')" by (simp add: prod_eq_iff)
  have ok: "world_ok example_open_post"
    using example_world_ok[of Map.empty]
    by (simp add: world_ok_def web_ok_def example_open_post_def db_ok_def keys_ok_def empty_database_def
        comments_ok_def counts_ok_def post2cats_ok_def states_ok_def comments_of_def)
  have t: "tf_value (cf_content ?f) = ''text''" and e: "comments (db example_open_post) = []" by code_simp+
  show ?thesis using sent_comment_is_stored[OF ok a] unfolding t e by auto
qed

end
