(* ===== verification/Admin_App.thy ===== *)
theory Admin_App
  imports Blog_App
begin

text \<open>
  The administration (\<open>apps/admin/*.cpp\<close>), the first configuration (\<open>apps/config.cpp\<close>), the
  captcha (\<open>apps/captcha.cpp\<close>) and what \<open>apps/main.cpp\<close> does around every request.
\<close>

section \<open>Who is logged in\<close>

definition admin_prepare :: "site \<Rightarrow> (general_info \<times> int \<times> string) handler" where
  "admin_prepare st =
     andThen (prepare st) (\<lambda>info.
     andThen (session_set ''user'') (\<lambda>known.
     if known
     then andThen (session_get_int ''id'') (\<lambda>i. andThen (session_get ''user'') (\<lambda>u. ret (info, i, u)))
     else ret (info, 0, [])))"

definition show_admin :: "site \<Rightarrow> content \<Rightarrow> unit handler" where
  "show_admin st c = andThen (admin_prepare st) (\<lambda>(info, who). render_plain st info who c)"

definition admin_main :: "site \<Rightarrow> string \<Rightarrow> unit handler \<Rightarrow> unit handler" where
  "admin_main st path dispatched =
     andThen (session_set ''user'') (\<lambda>known.
     if known \<or> path = ''/users'' \<or> path = ''/users/'' then dispatched
     else redirect st [''admin''] ''/admin/users'' [] [])"

section \<open>Overview and cache\<close>

definition admin_summary :: "site \<Rightarrow> int \<Rightarrow> unit handler" where
  "admin_summary st page =
     andThen (admin_prepare st) (\<lambda>(info, who).
     andThen (sql (\<lambda>d. order_desc p_id (filter (\<lambda>p. p_open p = 0) (posts d)))) (\<lambda>drafts.
     andThen (sql (\<lambda>d. int (length (filter (\<lambda>p. p_open p = 1) (posts d))))) (\<lambda>n.
     let pg = calc_pages \<lparr>page_records = n, page_size = 10, curpage = page, page_total = 1\<rparr> in
     andThen (sql (\<lambda>d. limit_offset (page_size pg) (curpage pg * page_size pg)
                         (order_desc p_id (filter (\<lambda>p. p_open p = 1) (posts d))))) (\<lambda>published.
     andThen (sql (\<lambda>d. (pages d, take 10 (order_desc c_id (comments d))))) (\<lambda>(gs, cs).
     render_plain st info who
       (Admin_summary (map (\<lambda>p. (p_id p, p_title p)) drafts) (map (\<lambda>p. (p_id p, p_title p)) published) pg
          (map (\<lambda>g. (g_id g, g_title g, g_open g)) gs) (map (\<lambda>c. (c_id c, c_post c, c_author c)) cs)))))))"

definition admin_caching :: "site \<Rightarrow> unit handler" where
  "admin_caching st =
     andThen (if is_post st then on_cache ci_clear else ret ()) (\<lambda>_.
     andThen (reads (\<lambda>w. ci_stats (cch w))) (\<lambda>s.
     show_admin st (case s of Some (n, _) \<Rightarrow> Admin_caching n True | None \<Rightarrow> Admin_caching 0 False)))"

section \<open>Options\<close>

definition blank_options :: options_form where
  "blank_options = \<lparr>of_title = blank_field, of_subtitle = blank_field, of_contact = blank_field,
     of_copyright = blank_field\<rparr>"

definition write_options :: "options_form \<Rightarrow> (unit \<times> bool) handler" where
  "write_options f =
     andThen (sql_exec (delete_options [''blog_title'', ''blog_description'', ''copyright'', ''contact''])) (\<lambda>_.
     andThen (sql_try (insert_option ''blog_title'' (tf_value (of_title f)))) (\<lambda>_.
     andThen (sql_try (insert_option ''blog_description'' (tf_value (of_subtitle f)))) (\<lambda>_.
     andThen (sql_try (insert_option ''contact'' (tf_value (of_contact f)))) (\<lambda>_.
     andThen (sql_try (insert_option ''copyright'' (tf_value (of_copyright f)))) (\<lambda>_.
     andThen (raise_trigger ''options'') (\<lambda>_.
     commit ()))))))"

definition show_options :: "site \<Rightarrow> unit handler" where
  "show_options st =
     andThen (admin_prepare st) (\<lambda>(info, who).
     render_plain st info who (Admin_options
       \<lparr>of_title = set_value (blog_title info) blank_field,
        of_subtitle = set_value (blog_description info) blank_field,
        of_contact = set_value (contact info) blank_field,
        of_copyright = set_value (copyright_string info) blank_field\<rparr>))"

definition admin_options :: "site \<Rightarrow> unit handler" where
  "admin_options st =
     (if is_post st then
        andThen (load_form (req st) load_options_form) (\<lambda>f.
        case options_form_validate f of
          (True, f) \<Rightarrow> andThen (transaction (write_options f)) (\<lambda>_. show_options st)
        | (False, f) \<Rightarrow> show_admin st (Admin_options f))
      else show_options st)"

section \<open>Categories\<close>

definition add_category :: "string \<Rightarrow> unit handler" where
  "add_category n =
     andThen (transaction (andThen (sql_exec (insert_cat n)) (\<lambda>_. commit ()))) (\<lambda>_. raise_trigger ''cats'')"

definition raise_category :: "int \<Rightarrow> unit handler" where
  "raise_category i = andThen (raise_trigger ''cats'') (\<lambda>_. raise_trigger (cat_trigger i))"

definition rename_category :: "int \<Rightarrow> string \<Rightarrow> unit handler" where
  "rename_category i n =
     andThen (transaction (andThen (sql_exec (update_cat n i)) (\<lambda>_. commit ()))) (\<lambda>_. raise_category i)"

text \<open>Whether the category is gone; one that is in use goes only with \<open>cascade\<close>.\<close>

definition remove_category :: "int \<Rightarrow> bool \<Rightarrow> bool handler" where
  "remove_category i cascade =
     andThen
       (transaction
         (andThen (sql (\<lambda>d. \<exists>r \<in> set (post2cats d). pc_cat r = i)) (\<lambda>used.
          if used then
            (if \<not> cascade then leave False
             else andThen (sql_exec (delete_post2cats (\<lambda>r. pc_cat r = i))) (\<lambda>_.
                  andThen (sql_exec (delete_cat i)) (\<lambda>_. commit True)))
          else andThen (sql_exec (delete_cat i)) (\<lambda>_. commit True)))) (\<lambda>removed.
     andThen (if removed then raise_category i else ret ()) (\<lambda>_. ret removed))"

text \<open>What a valid form does; the result is the error message.\<close>

definition change_category :: "site \<Rightarrow> cats_form \<Rightarrow> string handler" where
  "change_category st f =
     (if tf_value (kf_id f) = [] then andThen (add_category (tf_value (kf_cat f))) (\<lambda>_. ret [])
      else
        let i = atoi (tf_value (kf_id f)) in
        if kf_remove f
        then andThen (remove_category i (kf_cascade f)) (\<lambda>removed.
             ret (if removed then [] else translate (req st) ''The category is not empty, can't delete''))
        else andThen (rename_category i (tf_value (kf_cat f))) (\<lambda>_. ret []))"

definition admin_categories :: "site \<Rightarrow> unit handler" where
  "admin_categories st =
     andThen
       (if is_post st then
          andThen (load_form (req st) load_cats_form) (\<lambda>f.
          case cats_form_validate f of
            (True, f) \<Rightarrow> change_category st f
          | (False, f) \<Rightarrow> ret (if tf_valid (kf_cat f) then [] else translate (req st) ''Invalid category name''))
        else ret []) (\<lambda>msg.
     andThen (admin_prepare st) (\<lambda>(info, who).
     andThen (sql (\<lambda>d. map (\<lambda>k. (k_id k, k_name k)) (cats d))) (\<lambda>ks.
     render_plain st info who (Admin_categories msg ks))))"

section \<open>Users\<close>

definition blank_user :: user_form where
  "blank_user = \<lparr>uf_username = blank_field, uf_password = blank_field, uf_save = False\<rparr>"

definition blank_login :: login_form where
  "blank_login = \<lparr>lf_username = blank_field, lf_password = blank_field, lf_login = False\<rparr>"

text \<open>
  A statement on a user whose name is taken fails; then the form is shown again. The result
  is whether the request is done.
\<close>

definition change_user :: "site \<Rightarrow> (database, unit) action \<Rightarrow> bool handler" where
  "change_user st stmt =
     catch_sql
       (andThen (transaction (andThen (sql_try stmt) (\<lambda>_. commit ()))) (\<lambda>_.
        andThen (redirect st [''admin'', ''users''] ''/admin/users/list'' [] []) (\<lambda>_. ret True)))
       (ret False)"

definition refuse_name :: "user_form \<Rightarrow> user_form" where
  "refuse_name f = f\<lparr>uf_username := (uf_username f)\<lparr>tf_valid := False\<rparr>\<rparr>"

definition users_add :: "site \<Rightarrow> unit handler" where
  "users_add st =
     (if is_post st then
        andThen (load_form (req st) load_user_form) (\<lambda>f.
        case user_form_validate f of
          (True, f) \<Rightarrow>
            andThen (change_user st (insert_user (tf_value (uf_username f)) (tf_value (uf_password f)))) (\<lambda>done.
            if done then ret () else show_admin st (Admin_useradd (refuse_name f)))
        | (False, f) \<Rightarrow> show_admin st (Admin_useradd f))
      else show_admin st (Admin_useradd blank_user))"

definition users_list :: "site \<Rightarrow> int \<Rightarrow> unit handler" where
  "users_list st page =
     (let q = request_get (req st) ''q'';
          select = (\<lambda>d. if q = [] then users d else users_matching (engine st) q (like_pattern q) d)
      in andThen (sql (\<lambda>d. int (length (select d)))) (\<lambda>n.
         let pg = calc_pages \<lparr>page_records = n, page_size = 20, curpage = page, page_total = 1\<rparr> in
         andThen (sql (\<lambda>d. limit_offset (page_size pg) (curpage pg * page_size pg) (select d))) (\<lambda>us.
         show_admin st (Admin_userlist q pg us))))"

definition fill_user :: "user_row \<Rightarrow> user_form" where
  "fill_user u = blank_user\<lparr>uf_username := set_value (u_name u) blank_field,
                            uf_password := set_value (u_pass u) blank_field\<rparr>"

definition users_edit :: "site \<Rightarrow> string \<Rightarrow> unit handler" where
  "users_edit st sid =
     (let i = atoi sid in
      if i = 0 then http_error st 404
      else andThen (sql (user_by_id i)) (\<lambda>r.
      case r of
        None \<Rightarrow> http_error st 404
      | Some u \<Rightarrow>
          if is_post st then
            andThen (load_form (req st) load_user_form) (\<lambda>f.
            case user_form_validate f of
              (True, f) \<Rightarrow>
                andThen (change_user st (update_user (tf_value (uf_username f)) (tf_value (uf_password f)) i)) (\<lambda>done.
                if done then ret () else show_admin st (Admin_user i (refuse_name f)))
            | (False, f) \<Rightarrow> show_admin st (Admin_user i f))
          else show_admin st (Admin_user i (fill_user u))))"

definition users_del :: "site \<Rightarrow> string \<Rightarrow> unit handler" where
  "users_del st sid =
     (let i = atoi sid in
      if i = 0 then http_error st 404
      else andThen (session_get_int ''id'') (\<lambda>me.
           if i = me then http_error st 404
           else andThen (transaction (andThen (sql_exec (delete_user i)) (\<lambda>_. commit ()))) (\<lambda>_.
                redirect st [''admin'', ''users''] ''/admin/users/list'' [] [])))"

text \<open>Logging in: the session starts afresh, whoever asks.\<close>

definition log_in :: "user_row \<Rightarrow> mem_storage session \<Rightarrow> mem_storage session" where
  "log_in u s = expose ''user'' True (sset_int ''id'' (u_id u) (sset ''user'' (u_name u) s))"

definition refuse_login :: "login_form \<Rightarrow> login_form" where
  "refuse_login f = f\<lparr>lf_password := (lf_password f)\<lparr>tf_set := False, tf_valid := False\<rparr>,
                      lf_username := (lf_username f)\<lparr>tf_valid := False\<rparr>\<rparr>"

definition try_login :: "site \<Rightarrow> login_form \<Rightarrow> unit handler" where
  "try_login st f =
     andThen (sql (user_by_name (tf_value (lf_username f)))) (\<lambda>r.
     case r of
       Some u \<Rightarrow>
         if tf_value (lf_username f) = u_name u \<and> tf_value (lf_password f) = u_pass u
         then andThen (on_session (log_in u)) (\<lambda>_. redirect st [''admin'', ''users''] ''/admin/summary'' [] [])
         else show_admin st (Admin_login (refuse_login f))
     | None \<Rightarrow> show_admin st (Admin_login (refuse_login f)))"

definition users_prepare :: "site \<Rightarrow> unit handler" where
  "users_prepare st =
     andThen (on_session (\<lambda>s. sclear (reset_session s))) (\<lambda>_.
     if is_post st then
       andThen (load_form (req st) load_login_form) (\<lambda>f.
       case login_form_validate f of
         (True, f) \<Rightarrow> try_login st f
       | (False, f) \<Rightarrow> show_admin st (Admin_login (f\<lparr>lf_password := (lf_password f)\<lparr>tf_set := False\<rparr>\<rparr>)))
     else show_admin st (Admin_login blank_login))"

section \<open>Comments\<close>

definition change_comment :: "site \<Rightarrow> int \<Rightarrow> edit_comment_form \<Rightarrow> int option handler" where
  "change_comment st i f =
     transaction
       (andThen (sql (comment_by_id i)) (\<lambda>r.
        case r of
          None \<Rightarrow> andThen (http_error st 404) (\<lambda>_. leave None)
        | Some c \<Rightarrow>
            andThen
              (if ef_erase f
               then andThen (sql_exec (delete_comment i)) (\<lambda>_. sql_exec (update_comment_count (c_post c)))
               else sql_exec (update_comment (tf_value (ef_author f)) (tf_value (ef_mail f))
                                (tf_value (ef_url f)) (tf_value (ef_content f)) i)) (\<lambda>_.
            andThen (raise_trigger (post_trigger (c_post c))) (\<lambda>_.
            andThen (raise_trigger ''comments'') (\<lambda>_.
            commit (Some (c_post c)))))))"

definition fill_comment :: "comment_row \<Rightarrow> edit_comment_form" where
  "fill_comment c =
     \<lparr>ef_author = set_value (c_author c) blank_field, ef_url = set_value (c_url c) blank_field,
      ef_mail = set_value (c_email c) blank_field, ef_content = set_value (c_content c) blank_field,
      ef_erase = False, ef_confirm = False\<rparr>"

definition admin_comment :: "site \<Rightarrow> string \<Rightarrow> unit handler" where
  "admin_comment st sid =
     (let i = atoi sid in
      if is_post st then
        andThen (load_form (req st) load_edit_comment_form) (\<lambda>f.
        case edit_comment_form_validate f of
          (True, f) \<Rightarrow>
            andThen (change_comment st i f) (\<lambda>r.
            case r of
              None \<Rightarrow> ret ()
            | Some post \<Rightarrow> redirect st [''admin'', ''comment''] ''/blog/post'' [dec post] [])
        | (False, f) \<Rightarrow> show_admin st (Admin_comment i 0 f))
      else
        andThen (sql (comment_by_id i)) (\<lambda>r.
        case r of
          None \<Rightarrow> http_error st 404
        | Some c \<Rightarrow> show_admin st (Admin_comment i (c_post c) (fill_comment c))))"

section \<open>Pages\<close>

definition no_buttons :: edit_buttons where
  "no_buttons = \<lparr>eb_save = False, eb_save_and_continue = False, eb_change_status = False,
     eb_remove = False, eb_really_remove = False\<rparr>"

definition fill_page :: "page_row option \<Rightarrow> page_form" where
  "fill_page r = (case r of
     None \<Rightarrow> \<lparr>pg_title = blank_field, pg_content = blank_field, pg_buttons = no_buttons\<rparr>
   | Some g \<Rightarrow> \<lparr>pg_title = set_value (g_title g) blank_field,
               pg_content = set_value (g_content g) blank_field, pg_buttons = no_buttons\<rparr>)"

definition raise_page :: "int \<Rightarrow> unit handler" where
  "raise_page i = andThen (raise_trigger (''page_'' @ dec i)) (\<lambda>_. raise_trigger ''pages'')"

text \<open>
  The outcome of a valid form: the number to go on editing, or nothing when the request is
  done. Statements on pages run without a transaction.
\<close>

definition create_page :: "site \<Rightarrow> page_form \<Rightarrow> int option handler" where
  "create_page st f =
     (let open_status = (if eb_change_status (pg_buttons f) then 1 else 0) in
      if eb_remove (pg_buttons f)
      then andThen (redirect st [''admin'', ''page''] ''/admin/summary'' [] []) (\<lambda>_. ret None)
      else
        andThen (session_get_int ''id'') (\<lambda>author.
        andThen (sql_try (\<lambda>d. (case insert_page author (tf_value (pg_title f)) (tf_value (pg_content f)) open_status d of
                                  (i, d') \<Rightarrow> (Inr i, d')))) (\<lambda>i.
        andThen (if open_status = 1 then raise_trigger ''pages'' else ret ()) (\<lambda>_.
        if open_status = 1
        then andThen (redirect st [''admin'', ''page''] ''/blog/page'' [dec i] []) (\<lambda>_. ret None)
        else if eb_save_and_continue (pg_buttons f) then ret (Some i)
        else andThen (redirect st [''admin'', ''page''] ''/admin/summary'' [] []) (\<lambda>_. ret None)))))"

definition change_page :: "site \<Rightarrow> int \<Rightarrow> bool \<Rightarrow> page_form \<Rightarrow> int option handler" where
  "change_page st i was_open f =
     (let b = pg_buttons f;
          open_now = (if eb_change_status b then \<not> was_open else was_open)
      in if eb_remove b
         then andThen (sql_exec (delete_page i)) (\<lambda>_.
              andThen (if was_open then raise_page i else ret ()) (\<lambda>_.
              andThen (redirect st [''admin'', ''page''] ''/admin/summary'' [] []) (\<lambda>_. ret None)))
         else
           andThen (sql_exec (update_page (tf_value (pg_title f)) (tf_value (pg_content f))
                      (if open_now then 1 else 0) i)) (\<lambda>_.
           andThen (if open_now \<or> eb_change_status b then raise_page i else ret ()) (\<lambda>_.
           if eb_change_status b \<or> eb_save b
           then andThen (if open_now then redirect st [''admin'', ''page''] ''/blog/page'' [dec i] []
                         else redirect st [''admin'', ''page''] ''/admin/summary'' [] []) (\<lambda>_. ret None)
           else ret (Some i))))"

definition page_shared :: "site \<Rightarrow> int \<Rightarrow> unit handler" where
  "page_shared st i =
     andThen (sql (\<lambda>d. if i = 0 then None else page_by_id i d)) (\<lambda>r.
     if i \<noteq> 0 \<and> r = None then http_error st 404
     else
       let was_open = (case r of Some g \<Rightarrow> g_open g \<noteq> 0 | None \<Rightarrow> False) in
       if is_post st then
         andThen (load_form (req st) load_page_form) (\<lambda>f.
         case page_form_validate f of
           (True, f) \<Rightarrow>
             andThen (if i = 0 then create_page st f else change_page st i was_open f) (\<lambda>next.
             case next of
               None \<Rightarrow> ret ()
             | Some j \<Rightarrow> show_admin st (Admin_page j was_open f))
         | (False, f) \<Rightarrow> show_admin st (Admin_page i was_open f))
       else show_admin st (Admin_page i was_open (fill_page r)))"

definition admin_page :: "site \<Rightarrow> string option \<Rightarrow> unit handler" where
  "admin_page st sid =
     (case sid of
        None \<Rightarrow> page_shared st 0
      | Some s \<Rightarrow> if atoi s = 0 then http_error st 404 else page_shared st (atoi s))"

section \<open>Posts\<close>

text \<open>The categories offered: those the post is in, and all the others.\<close>

definition cats_in :: "int \<Rightarrow> database \<Rightarrow> int list" where
  "cats_in i d = (if i = 0 then [] else map fst (cats_of_post i d))"

definition cats_out :: "int \<Rightarrow> database \<Rightarrow> int list" where
  "cats_out i d = filter (\<lambda>k. k \<notin> set (cats_in i d)) (map k_id (cats d))"

definition fill_post :: "string \<Rightarrow> int list \<Rightarrow> int list \<Rightarrow> post_row option \<Rightarrow> post_form" where
  "fill_post referer add_cats del_cats r =
     \<lparr>pf_title = (case r of None \<Rightarrow> blank_field | Some p \<Rightarrow> set_value (p_title p) blank_field),
      pf_abstract = (case r of None \<Rightarrow> blank_field | Some p \<Rightarrow> set_value (p_abstract p) blank_field),
      pf_content = (case r of None \<Rightarrow> blank_field | Some p \<Rightarrow> set_value (p_content p) blank_field),
      pf_buttons = no_buttons, pf_backurl = set_value referer blank_field,
      pf_add = map (\<lambda>k. (k, False)) add_cats, pf_del = map (\<lambda>k. (k, False)) del_cats\<rparr>"

definition checked :: "(int \<times> bool) list \<Rightarrow> int list" where
  "checked cbs = map fst (filter snd cbs)"

text \<open>One checked category: its entry, and the trigger of its listings.\<close>

definition add_to_cat :: "int \<Rightarrow> int \<Rightarrow> int \<Rightarrow> int \<Rightarrow> unit handler" where
  "add_to_cat i time open_status k =
     andThen (sql_try (insert_post2cat i k time open_status)) (\<lambda>_. raise_trigger (cat_trigger k))"

definition del_from_cat :: "int \<Rightarrow> bool \<Rightarrow> int \<times> bool \<Rightarrow> unit handler" where
  "del_from_cat i status_changed cb =
     andThen (if status_changed then raise_trigger (cat_trigger (fst cb)) else ret ()) (\<lambda>_.
     if snd cb then sql_exec (delete_post2cats (\<lambda>r. pc_post r = i \<and> pc_cat r = fst cb)) else ret ())"

definition insert_new_post :: "site \<Rightarrow> int \<Rightarrow> post_form \<Rightarrow> int \<Rightarrow> int handler" where
  "insert_new_post st author f open_status =
     sql_try (\<lambda>d. (case insert_post author (tf_value (pf_title f)) (tf_value (pf_abstract f))
                          (tf_value (pf_content f)) (now (req st)) open_status d of
                     (i, d') \<Rightarrow> (Inr i, d')))"

definition store_new_post :: "site \<Rightarrow> post_form \<Rightarrow> int handler" where
  "store_new_post st f =
     (let open_status = (if eb_change_status (pf_buttons f) then 1 else 0) in
      transaction
        (andThen (session_get_int ''id'') (\<lambda>author.
         andThen (insert_new_post st author f open_status) (\<lambda>i.
         andThen (for_each (add_to_cat i (now (req st)) open_status) (checked (pf_add f))) (\<lambda>_.
         andThen (if open_status = 1 then raise_trigger ''cat_0'' else ret ()) (\<lambda>_.
         commit i))))))"

definition create_post :: "site \<Rightarrow> post_form \<Rightarrow> int option handler" where
  "create_post st f =
     (if eb_remove (pf_buttons f)
      then andThen (redirect st [''admin'', ''post''] ''/admin/summary'' [] []) (\<lambda>_. ret None)
      else
        andThen (store_new_post st f) (\<lambda>i.
        if eb_save_and_continue (pf_buttons f) then ret (Some i)
        else andThen (redirect st [''admin'', ''post''] ''/admin/summary'' [] []) (\<lambda>_. ret None)))"

definition remove_post :: "site \<Rightarrow> int \<Rightarrow> unit handler" where
  "remove_post st i =
     andThen
       (transaction
         (andThen (sql_exec (delete_comments_of i)) (\<lambda>_.
          andThen (sql_exec (delete_post2cats (\<lambda>r. pc_post r = i))) (\<lambda>_.
          andThen (sql_exec (delete_post i)) (\<lambda>_.
          andThen (raise_trigger ''comments'') (\<lambda>_.
          andThen (raise_trigger (post_trigger i)) (\<lambda>_.
          commit ()))))))) (\<lambda>_.
     redirect st [''admin'', ''post''] ''/admin/summary'' [] [])"

text \<open>
  The text, the date and the state of a post and of its entries in \<open>post2cat\<close>; the result is
  the date of the post. Publishing gives it a new one.
\<close>

definition write_post :: "site \<Rightarrow> int \<Rightarrow> post_form \<Rightarrow> int \<Rightarrow> int handler" where
  "write_post st i f open_status =
     (let title = tf_value (pf_title f); abstract = tf_value (pf_abstract f);
          content = tf_value (pf_content f); status_changed = eb_change_status (pf_buttons f);
          t = now (req st)
      in if status_changed \<and> open_status = 1 then
           andThen (sql_exec (update_post_published title abstract content t open_status i)) (\<lambda>_.
           andThen (sql_exec (update_post2cats i (\<lambda>r. r\<lparr>pc_publish := t, pc_open := open_status\<rparr>))) (\<lambda>_.
           ret t))
         else
           andThen (sql_exec (update_post_text title abstract content open_status i)) (\<lambda>_.
           andThen (sql (\<lambda>d. case post_by_id i d of Some p \<Rightarrow> p_publish p | None \<Rightarrow> t)) (\<lambda>t.
           andThen (if status_changed
                    then sql_exec (update_post2cats i (\<lambda>r. r\<lparr>pc_open := open_status\<rparr>)) else ret ()) (\<lambda>_.
           ret t))))"

definition store_post :: "site \<Rightarrow> int \<Rightarrow> bool \<Rightarrow> post_form \<Rightarrow> unit handler" where
  "store_post st i was_open f =
     (let status_changed = eb_change_status (pf_buttons f);
          open_status = (if status_changed \<noteq> was_open then 1 else 0)
      in transaction
           (andThen (write_post st i f open_status) (\<lambda>t.
            andThen (if status_changed then raise_trigger ''cat_0'' else ret ()) (\<lambda>_.
            andThen (raise_trigger (post_trigger i)) (\<lambda>_.
            andThen (for_each (add_to_cat i t open_status) (checked (pf_add f))) (\<lambda>_.
            andThen (for_each (del_from_cat i status_changed) (pf_del f)) (\<lambda>_.
            commit ())))))))"

definition change_post :: "site \<Rightarrow> int \<Rightarrow> bool \<Rightarrow> post_form \<Rightarrow> int option handler" where
  "change_post st i was_open f =
     (let b = pf_buttons f; ret_to = tf_value (pf_backurl f) in
      if eb_remove b then andThen (remove_post st i) (\<lambda>_. ret None)
      else
        andThen (store_post st i was_open f) (\<lambda>_.
        andThen (if \<not> (eb_save b \<or> eb_change_status b) then ret ()
                 else if ret_to = [] then redirect st [''admin'', ''post''] ''/admin/summary'' [] []
                 else on_response (set_redirect_header ret_to)) (\<lambda>_.
        ret (Some i))))"

definition post_shared :: "site \<Rightarrow> int \<Rightarrow> unit handler" where
  "post_shared st i =
     andThen (sql (\<lambda>d. if i = 0 then None else post_by_id i d)) (\<lambda>r.
     if i \<noteq> 0 \<and> r = None then http_error st 404
     else
       andThen (sql (\<lambda>d. (cats_out i d, cats_in i d))) (\<lambda>(add_cats, del_cats).
       let was_open = (case r of Some p \<Rightarrow> p_open p \<noteq> 0 | None \<Rightarrow> False) in
       if is_post st then
         andThen (load_form (req st) (load_post_form add_cats del_cats)) (\<lambda>f.
         case post_form_validate f of
           (True, f) \<Rightarrow>
             andThen (if i = 0 then create_post st f else change_post st i was_open f) (\<lambda>next.
             case next of
               None \<Rightarrow> ret ()
             | Some j \<Rightarrow> show_admin st (Admin_post j was_open f))
         | (False, f) \<Rightarrow> show_admin st (Admin_post i was_open f))
       else show_admin st (Admin_post i was_open
              (fill_post (header (req st) ''HTTP_REFERER'') add_cats del_cats r))))"

definition admin_post :: "site \<Rightarrow> string option \<Rightarrow> unit handler" where
  "admin_post st sid =
     (case sid of
        None \<Rightarrow> post_shared st 0
      | Some s \<Rightarrow> if atoi s = 0 then http_error st 404 else post_shared st (atoi s))"

section \<open>Configuration\<close>

definition blank_config :: config_form where
  "blank_config = \<lparr>gf_title = blank_field, gf_subtitle = blank_field, gf_contact = blank_field,
     gf_username = blank_field, gf_p1 = blank_field, gf_p2 = blank_field\<rparr>"

definition no_info :: general_info where
  "no_info = \<lparr>blog_title = [], blog_description = [], contact = [], copyright_string = []\<rparr>"

definition config_version :: "site \<Rightarrow> unit handler" where
  "config_version st =
     andThen (sql (\<lambda>d. case option_value ''dbversion'' d of Some v \<Rightarrow> v | None \<Rightarrow> ''1'')) (\<lambda>v.
     if v = database_version then redirect st [''config''] ''/blog/summary'' [] []
     else render_plain st no_info (0, []) (Config_version v database_version))"

definition write_config :: "config_form \<Rightarrow> unit handler" where
  "write_config f =
     transaction
       (andThen (sql_exec (delete_options [''blog_title'', ''blog_description'', ''is_configured'', ''contact''])) (\<lambda>_.
        andThen (sql_try (insert_option ''is_configured'' ''yes'')) (\<lambda>_.
        andThen (sql_try (insert_option ''blog_title'' (tf_value (gf_title f)))) (\<lambda>_.
        andThen (sql_try (insert_option ''blog_description'' (tf_value (gf_subtitle f)))) (\<lambda>_.
        andThen (sql_try (insert_option ''contact'' (tf_value (gf_contact f)))) (\<lambda>_.
        andThen (sql_try (insert_user (tf_value (gf_username f)) (tf_value (gf_p1 f)))) (\<lambda>_.
        commit ())))))))"

text \<open>
  \<open>configure\<close>: for a blog that is configured a redirection is set, and the handler goes on.
\<close>

definition config_configure :: "site \<Rightarrow> unit handler" where
  "config_configure st =
     andThen (sql (option_value ''is_configured'')) (\<lambda>v.
     andThen (if v = Some ''yes'' then redirect st [''config''] ''/blog/summary'' [] [] else ret ()) (\<lambda>_.
     if is_post st then
       andThen (load_form (req st) load_config_form) (\<lambda>f.
       case config_form_validate f of
         (True, f) \<Rightarrow>
           andThen (write_config f) (\<lambda>_. redirect st [''config''] ''/blog/summary'' [] [])
       | (False, f) \<Rightarrow> render_plain st no_info (0, []) (Config_content f))
     else render_plain st no_info (0, []) (Config_content blank_config)))"

section \<open>Captcha\<close>

definition choise :: string where
  "choise = ''ABCDEFGHIJKLMNOPQRSTUVWXYZabcdefghijklmnopqrstuvwxyz0123456789''"

text \<open>
  \<open>randlim\<close> scales a number of \<open>rand_r\<close> (0 to \<open>RAND_MAX\<close>) down to below the limit. The doubles
  are exact enough: the quotient by a power of two is exact, and the product is truncated.
\<close>

definition randlim :: "nat \<Rightarrow> nat \<Rightarrow> nat" where
  "randlim r bound = r * bound div 2 ^ 31"

definition captcha_line :: "nat list \<Rightarrow> string" where
  "captcha_line rs = map (\<lambda>r. choise ! randlim r (length choise)) (take 6 rs)"

text \<open>\<open>captcha::main\<close>; the random numbers and the picture of a code are given.\<close>

definition captcha_main :: "site \<Rightarrow> nat list \<Rightarrow> (string \<Rightarrow> string) \<Rightarrow> unit handler" where
  "captcha_main st rs picture =
     (let code = captcha_line rs in
      andThen (on_session (\<lambda>s. on_server True (sset ''captcha'' code s))) (\<lambda>_.
      andThen (on_response (content_type ''image/png'')) (\<lambda>_.
      put_out (req st) (picture code))))"

section \<open>Around every request\<close>

definition language_of :: "site \<Rightarrow> int" where
  "language_of st =
     (let l = take 2 (header (req st) ''HTTP_ACCEPT_LANGUAGE'')
      in if l = ''zh'' \<or> l = ''cn'' then 1 else 2)"

definition check_language :: "site \<Rightarrow> unit handler" where
  "check_language st =
     andThen (session_set ''nlang'') (\<lambda>known.
     andThen (if known then session_get_int ''nlang'' else ret 0) (\<lambda>l.
     if \<not> known \<or> l \<noteq> language_of st
     then andThen (on_session (sset_int ''nlang'' (language_of st))) (\<lambda>_. on_cache ci_clear)
     else ret ()))"

definition blog_main :: "site \<Rightarrow> unit handler \<Rightarrow> unit handler" where
  "blog_main st dispatched =
     andThen (check_language st) (\<lambda>_. \<lambda>w.
     case andThen (on_response (status 200)) (\<lambda>_. dispatched) w of
       (Inl Database_version_error, w') \<Rightarrow> redirect st [] ''/config/version'' [] [] w'
     | (Inl Database_is_not_configured_error, w') \<Rightarrow> redirect st [] ''/config'' [] [] w'
     | r \<Rightarrow> r)"

definition serve :: "site \<Rightarrow> unit handler \<Rightarrow> unit handler" where
  "serve st dispatched = dispatch_request (req st) (blog_main st dispatched)"

section \<open>Every handler keeps the cache, the sessions and the database well formed\<close>

lemma admin_prepare_ok [keeps_intros]: "keeps world_ok (admin_prepare st)"
  unfolding admin_prepare_def by (intro keeps_intros)

lemma show_admin_ok [keeps_intros]: "keeps world_ok (show_admin st c)"
  unfolding show_admin_def by (intro keeps_intros)

lemma admin_main_ok [keeps_intros]: "keeps world_ok m \<Longrightarrow> keeps world_ok (admin_main st path m)"
  unfolding admin_main_def by (intro keeps_intros)

lemma admin_summary_ok [keeps_intros]: "keeps world_ok (admin_summary st page)"
  unfolding admin_summary_def by (intro keeps_intros)

lemma admin_caching_ok [keeps_intros]: "keeps world_ok (admin_caching st)"
  unfolding admin_caching_def by (intro keeps_intros ci_clear_ok)

lemma write_options_ok [keeps_intros]: "keeps world_ok (write_options f)"
  unfolding write_options_def
  by (intro keeps_intros sql_exec_world sql_try_world delete_options_ok insert_option_ok)

lemma show_options_ok [keeps_intros]: "keeps world_ok (show_options st)"
  unfolding show_options_def by (intro keeps_intros)

lemma keeps_bool [keeps_intros]:
  "(b \<Longrightarrow> keeps P m) \<Longrightarrow> (\<not> b \<Longrightarrow> keeps P n) \<Longrightarrow> keeps P (case b of True \<Rightarrow> m | False \<Rightarrow> n)"
  by (cases b) simp_all

lemma admin_options_ok [keeps_intros]: "keeps world_ok (admin_options st)"
  unfolding admin_options_def by (intro keeps_intros transaction_simple)

text \<open>Categories.\<close>

lemma category_changes [keeps_intros]:
  "keeps world_ok (add_category n)" "keeps world_ok (rename_category i n)" "keeps world_ok (raise_category i)"
  unfolding add_category_def rename_category_def raise_category_def
  by (intro keeps_intros transaction_simple sql_exec_world insert_cat_ok update_cat_ok; assumption?)+

lemma delete_unused_cat_ok:
  "db_ok d \<Longrightarrow> \<not> (\<exists>r \<in> set (post2cats d). pc_cat r = i) \<Longrightarrow> db_ok (delete_cat i d)"
  using delete_cat_ok[of d i] by (auto simp: delete_post2cats_def filter_id_conv)

lemma remove_category_ok [keeps_intros]: "keeps world_ok (remove_category i cascade)"
proof -
  let ?m = "andThen (sql (\<lambda>d. \<exists>r\<in>set (post2cats d). pc_cat r = i)) (\<lambda>used.
      if used then
        (if \<not> cascade then leave False
         else andThen (sql_exec (delete_post2cats (\<lambda>r. pc_cat r = i))) (\<lambda>_.
              andThen (sql_exec (delete_cat i)) (\<lambda>_. commit True)))
      else andThen (sql_exec (delete_cat i)) (\<lambda>_. commit True))"
  have web: "keeps web_ok ?m" by (intro keeps_intros)
  have "gives (\<lambda>w. db_ok (db w)) (andThen (sql_exec (delete_post2cats (\<lambda>r. pc_cat r = i))) (\<lambda>_.
              andThen (sql_exec (delete_cat i)) (\<lambda>_. commit True))) (\<lambda>(x, c) w. c \<longrightarrow> db_ok (db w))"
    by (rule gives_andThen[OF gives_sql_exec[where E = "\<lambda>d. db_ok (delete_cat i d)"]],
        rule delete_cat_ok, assumption,
        rule gives_andThen[OF gives_sql_exec[where E = db_ok] gives_commit(1)])
  then have 1: "gives (\<lambda>w. db_ok (db w) \<and> True = (\<exists>r\<in>set (post2cats (db w)). pc_cat r = i))
      (andThen (sql_exec (delete_post2cats (\<lambda>r. pc_cat r = i))) (\<lambda>_.
              andThen (sql_exec (delete_cat i)) (\<lambda>_. commit True))) (\<lambda>(x, c) w. c \<longrightarrow> db_ok (db w))"
    by (rule gives_weaken) simp
  have 2: "gives (\<lambda>w. db_ok (db w) \<and> False = (\<exists>r\<in>set (post2cats (db w)). pc_cat r = i))
      (andThen (sql_exec (delete_cat i)) (\<lambda>_. commit True)) (\<lambda>(x, c) w. c \<longrightarrow> db_ok (db w))"
    by (rule gives_andThen[OF gives_sql_exec[where D = "\<lambda>d. db_ok d \<and> False = (\<exists>r\<in>set (post2cats d). pc_cat r = i)"
          and E = db_ok] gives_commit(1)]) (blast intro: delete_unused_cat_ok)
  have "gives (\<lambda>w. db_ok (db w)) ?m (\<lambda>(x, c) w. c \<longrightarrow> db_ok (db w))"
    by (rule gives_andThen[OF gives_sql]) (use 1 2 in \<open>auto intro: gives_commit(2)\<close>)
  from transaction_world[OF web this] show ?thesis
    unfolding remove_category_def by (intro keeps_intros)
qed

lemma admin_categories_ok [keeps_intros]: "keeps world_ok (admin_categories st)"
  unfolding admin_categories_def change_category_def by (intro keeps_intros)

text \<open>Users.\<close>

lemma change_user_ok:
  "(\<And>d. db_ok d \<Longrightarrow> db_ok (snd (stmt d))) \<Longrightarrow> keeps world_ok (change_user st stmt)"
  unfolding change_user_def by (intro keeps_intros transaction_simple sql_try_world)

lemma users_ok [keeps_intros]:
  "keeps world_ok (users_add st)" "keeps world_ok (users_edit st sid)" "keeps world_ok (users_list st page)"
  "keeps world_ok (users_del st sid)"
  unfolding users_add_def users_edit_def users_list_def users_del_def
  by (intro keeps_intros change_user_ok transaction_simple sql_exec_world insert_user_ok update_user_ok
      delete_user_ok; assumption?)+

lemma users_prepare_ok [keeps_intros]: "keeps world_ok (users_prepare st)"
  unfolding users_prepare_def try_login_def
  by (intro keeps_intros) (simp_all add: sclear_def reset_session_def log_in_def sset_int_def)

text \<open>Comments and pages.\<close>

lemma change_comment_ok [keeps_intros]: "keeps world_ok (change_comment st i f)"
  unfolding change_comment_def
proof (rule transaction_world)
  let ?edit = "\<lambda>c. if ef_erase f
      then andThen (sql_exec (delete_comment i)) (\<lambda>_. sql_exec (update_comment_count (c_post c)))
      else sql_exec (update_comment (tf_value (ef_author f)) (tf_value (ef_mail f))
                       (tf_value (ef_url f)) (tf_value (ef_content f)) i)"
  let ?m = "\<lambda>r. case r of
      None \<Rightarrow> andThen (http_error st 404) (\<lambda>_. leave None)
    | Some c \<Rightarrow> andThen (?edit c) (\<lambda>_.
        andThen (raise_trigger (post_trigger (c_post c))) (\<lambda>_.
        andThen (raise_trigger ''comments'') (\<lambda>_. commit (Some (c_post c)))))"
  show "keeps web_ok (andThen (sql (comment_by_id i)) ?m)" by (intro keeps_intros)
  show "gives (\<lambda>w. db_ok (db w)) (andThen (sql (comment_by_id i)) ?m) (\<lambda>(x, c) w. c \<longrightarrow> db_ok (db w))"
  proof (rule gives_andThen[OF gives_sql])
    fix r
    have e: "gives (\<lambda>w. db_ok (db w) \<and> Some c = comment_by_id i (db w)) (?edit c) (\<lambda>_ w. db_ok (db w))" for c
    proof (rule gives_if)
      have "c \<in> set (comments d) \<and> c_id c = i" if "Some c = comment_by_id i d" for d
        using that[symmetric] unfolding comment_by_id_def by (auto simp: find_Some_iff)
      then have del: "db_ok d \<and> Some c = comment_by_id i d \<Longrightarrow>
          db_ok (update_comment_count (c_post c) (delete_comment i d))" for d
        using delete_comment_ok[of d c] by blast
      show "gives (\<lambda>w. db_ok (db w) \<and> Some c = comment_by_id i (db w))
         (andThen (sql_exec (delete_comment i)) (\<lambda>_. sql_exec (update_comment_count (c_post c)))) (\<lambda>_ w. db_ok (db w))"
        by (rule gives_andThen[OF gives_sql_exec[where E = "\<lambda>d. db_ok (update_comment_count (c_post c) d)", OF del]
              gives_sql_exec[where E = db_ok]])
      show "gives (\<lambda>w. db_ok (db w) \<and> Some c = comment_by_id i (db w))
         (sql_exec (update_comment (tf_value (ef_author f)) (tf_value (ef_mail f))
            (tf_value (ef_url f)) (tf_value (ef_content f)) i)) (\<lambda>_ w. db_ok (db w))"
        by (rule gives_sql_exec[where E = db_ok]) (blast intro: update_comment_ok)
    qed
    have tail: "gives (\<lambda>w. db_ok (db w)) (andThen (raise_trigger t) (\<lambda>_.
        andThen (raise_trigger u) (\<lambda>_. commit x))) (\<lambda>(x, c) w. c \<longrightarrow> db_ok (db w))" for t u x
      by (intro gives_andThen) (rule gives_request gives_commit(1); intro keeps_intros)+
    show "gives (\<lambda>w. db_ok (db w) \<and> r = comment_by_id i (db w)) (?m r) (\<lambda>(x, c) w. c \<longrightarrow> db_ok (db w))"
    proof (cases r)
      case None
      then show ?thesis
        by simp (rule gives_andThen[where R = "\<lambda>_ _. True"], simp add: gives_def split: prod.split sum.split,
            rule gives_commit(2))
    next
      case (Some c)
      then show ?thesis unfolding Some option.case by (intro gives_andThen[OF e]) (rule tail)
    qed
  qed
qed

lemma admin_comment_ok [keeps_intros]: "keeps world_ok (admin_comment st sid)"
  unfolding admin_comment_def by (intro keeps_intros)

lemma insert_page_snd: "snd (case insert_page a t c op d of (i, d') \<Rightarrow> (Inr i, d')) = snd (insert_page a t c op d)"
  by (simp add: split_beta)

lemma pages_ok [keeps_intros]:
  "keeps world_ok (create_page st f)" "keeps world_ok (change_page st i b f)"
  unfolding create_page_def change_page_def raise_page_def Let_def
  by (intro keeps_intros sql_try_world sql_exec_world delete_page_ok update_page_ok; simp add: insert_page_snd insert_page_ok)+

lemma admin_page_ok [keeps_intros]: "keeps world_ok (admin_page st sid)"
  unfolding admin_page_def page_shared_def by (intro keeps_intros)

text \<open>
  Posts. A new entry of \<open>post2cat\<close> needs its post and its category to be there; the form
  offers the categories of the database it is shown for.
\<close>

lemma transaction_at:
  assumes w: "world_ok w" and m: "keeps web_ok m" and d: "D (db w)"
    and g: "gives (\<lambda>w. D (db w)) m (\<lambda>(x, c) w. c \<longrightarrow> db_ok (db w))"
  shows "world_ok (snd (transaction m w))"
proof -
  have "web_ok (snd (m w))" using w keepsD[OF m] by (simp add: world_ok_def)
  moreover have "case m w of (Inr x, w') \<Rightarrow> (case x of (x, c) \<Rightarrow> \<lambda>w. c \<longrightarrow> db_ok (db w)) w' | (Inl e, w') \<Rightarrow> True"
    using g d by (simp add: gives_def)
  ultimately show ?thesis
    using w by (auto simp: transaction_def world_ok_def split: prod.splits sum.splits)
qed

lemma andThen_at:
  "world_ok (snd (m w)) \<Longrightarrow> (\<And>x. keeps world_ok (f x)) \<Longrightarrow> world_ok (snd (andThen m f w))"
  by (auto simp: andThen_def keeps_def split: prod.splits sum.splits)

definition offered :: "int list \<Rightarrow> database \<Rightarrow> bool" where
  "offered ks d \<longleftrightarrow> set ks \<subseteq> k_id ` set (cats d)"

definition dated :: "int \<Rightarrow> int \<Rightarrow> int \<Rightarrow> database \<Rightarrow> bool" where
  "dated i t open_status d \<longleftrightarrow>
     (\<exists>p. post_by_id i d = Some p \<and> p_publish p = t \<and> p_open p = open_status)"

definition adding :: "int \<Rightarrow> int \<Rightarrow> int \<Rightarrow> int list \<Rightarrow> database \<Rightarrow> bool" where
  "adding i t open_status ks d \<longleftrightarrow> db_ok d \<and> dated i t open_status d \<and> offered ks d"

lemma add_to_cats_commits:
  "gives (\<lambda>w. adding i t op ks (db w)) (for_each (add_to_cat i t op) ks) (\<lambda>_ w. adding i t op ks (db w))"
proof (rule gives_for_each)
  fix k assume k: "k \<in> set ks"
  have "adding i t op ks d'" if d: "adding i t op ks d" and r: "insert_post2cat i k t op d = (Inr (), d')" for d d'
  proof -
    have d': "d' = snd (insert_post2cat i k t op d)" using r by simp
    obtain c where c: "c \<in> set (cats d)" "k_id c = k" using d k by (auto simp: adding_def offered_def)
    obtain p where p: "post_by_id i d = Some p" "p_publish p = t" "p_open p = op"
      using d by (auto simp: adding_def dated_def)
    have "db_ok d'" using insert_post2cat_ok[OF _ c(1) p] d c(2) d' by (simp add: adding_def)
    then show ?thesis using d by (simp add: adding_def dated_def offered_def d' post_by_id_def)
  qed
  then show "gives (\<lambda>w. adding i t op ks (db w)) (add_to_cat i t op k) (\<lambda>_ w. adding i t op ks (db w))"
    unfolding add_to_cat_def
    by (intro gives_andThen[OF gives_sql_try gives_request]) (auto intro: keeps_intros)
qed

lemma post_by_new_id:
  assumes "db_ok d"
  shows "post_by_id (next_post d) (snd (insert_post a t ab c pub op d)) =
     Some \<lparr>p_id = next_post d, p_author = a, p_title = t, p_abstract = ab, p_content = c,
           p_publish = pub, p_comments = 0, p_open = op\<rparr>"
proof -
  have "find (\<lambda>p. p_id p = next_post d) (posts d) = None"
    using db_okD(3)[OF assms] by (auto simp: find_None_iff keys_ok_def)
  moreover have "find P xs = None \<Longrightarrow> P y \<Longrightarrow> find P (xs @ [y]) = Some y" for P xs and y :: post_row
    by (induction xs) auto
  ultimately show ?thesis by (simp add: post_by_id_def insert_post_def)
qed

lemma store_new_post_at:
  assumes w: "world_ok w" and k: "offered (checked (pf_add f)) (db w)"
  shows "world_ok (snd (store_new_post st f w))"
proof -
  let ?op = "if eb_change_status (pf_buttons f) then 1 else 0 :: int" and ?t = "now (req st)"
  let ?ks = "checked (pf_add f)"
  let ?D = "\<lambda>d. db_ok d \<and> offered ?ks d"
  let ?m = "andThen (session_get_int ''id'') (\<lambda>author.
         andThen (insert_new_post st author f ?op) (\<lambda>i.
         andThen (for_each (add_to_cat i ?t ?op) ?ks) (\<lambda>_.
         andThen (if ?op = 1 then raise_trigger ''cat_0'' else ret ()) (\<lambda>_.
         commit i))))"
  have ins: "gives (\<lambda>w. ?D (db w)) (insert_new_post st a f ?op) (\<lambda>i w. adding i ?t ?op ?ks (db w))" for a
  proof -
    have "adding i ?t ?op ?ks d'"
      if "?D d" "insert_post a ti ab c ?t ?op d = (i, d')" for d d' i ti ab c
    proof -
      have "fst (insert_post a ti ab c ?t ?op d) = next_post d" by (simp only: insert_post_def fst_conv)
      then have i: "i = next_post d" "d' = snd (insert_post a ti ab c ?t ?op d)"
        by (simp_all only: that(2) fst_conv snd_conv)
      have "db_ok d'" unfolding i(2) using that(1) by (intro insert_post_ok) auto
      moreover have "cats d' = cats d" by (simp add: i(2) insert_post_def)
      ultimately show ?thesis
        using post_by_new_id[of d a ti ab c ?t ?op] that(1) unfolding i(1) i(2)[symmetric]
        by (simp add: adding_def dated_def offered_def)
    qed
    then show ?thesis
      by (auto simp: insert_new_post_def gives_def sql_try_def split: prod.splits)
  qed
  have "gives (\<lambda>w. ?D (db w)) ?m (\<lambda>(x, c) w. c \<longrightarrow> db_ok (db w))"
  proof (intro gives_andThen)
    show "gives (\<lambda>w. ?D (db w)) (session_get_int ''id'') (\<lambda>_ w. ?D (db w))"
      by (rule gives_request) (intro keeps_intros)
    show "gives (\<lambda>w. ?D (db w)) (insert_new_post st a f ?op) (\<lambda>i w. adding i ?t ?op ?ks (db w))" for a
      by (rule ins)
    show "gives (\<lambda>w. adding i ?t ?op ?ks (db w)) (for_each (add_to_cat i ?t ?op) ?ks)
        (\<lambda>_ w. adding i ?t ?op ?ks (db w))" for i by (rule add_to_cats_commits)
    show "gives (\<lambda>w. adding i ?t ?op ?ks (db w)) (if ?op = 1 then raise_trigger ''cat_0'' else ret ())
        (\<lambda>_ w. adding i ?t ?op ?ks (db w))" for i by (rule gives_request) (intro keeps_intros)
    show "gives (\<lambda>w. adding i ?t ?op ?ks (db w)) (commit i) (\<lambda>(x, c) w. c \<longrightarrow> db_ok (db w))" for i
      by (rule gives_weaken[OF gives_commit(1)]) (simp add: adding_def)
  qed
  moreover have "keeps web_ok ?m"
    unfolding add_to_cat_def insert_new_post_def by (intro keeps_intros)
  ultimately show ?thesis
    using transaction_at[OF w, of ?m ?D] w k by (simp add: store_new_post_def Let_def world_ok_def)
qed

lemma write_post_commits:
  assumes op: "open_status = (if eb_change_status (pf_buttons f) \<noteq> was_open then 1 else 0)"
  shows "gives (\<lambda>w. db_ok (db w) \<and> offered ks (db w) \<and>
            (\<exists>p. post_by_id i (db w) = Some p \<and> (p_open p \<noteq> 0) = was_open))
     (write_post st i f open_status) (\<lambda>t w. adding i t open_status ks (db w))"
proof -
  let ?ch = "eb_change_status (pf_buttons f)" and ?t = "now (req st)"
  have o: "open_status = 0 \<or> open_status = 1" by (simp add: op)
  have upd: "post_by_id i (update_posts i g d) = map_option g (post_by_id i d)"
    if "\<And>p. p_id (g p) = p_id p" for g d
  proof -
    have "find (\<lambda>p. p_id p = i) (map (\<lambda>p. if p_id p = i then g p else p) ps) =
        map_option g (find (\<lambda>p. p_id p = i) ps)" for ps
      using that by (induction ps) auto
    then show ?thesis by (simp add: post_by_id_def update_posts_def)
  qed
  have both: "post_by_id i (update_post2cats i h d) = post_by_id i d" "cats (update_post2cats i h d) = cats d"
    "cats (update_posts i g d) = cats d" for h g d
    by (simp_all add: post_by_id_def update_post2cats_def update_posts_def)
  note fields = both upd adding_def dated_def offered_def update_post_published_def update_post_text_def
  have pub: "adding i ?t open_status ks (update_post2cats i (\<lambda>r. r\<lparr>pc_publish := ?t, pc_open := open_status\<rparr>)
      (update_post_published ti ab c ?t open_status i d))"
    if "db_ok d" "offered ks d" "post_by_id i d = Some p" for d p ti ab c
    using publish_ok[OF that(1) o, of i ?t ti ab c] that by (simp add: fields)
  have chg: "adding i (p_publish p) open_status ks (update_post2cats i (\<lambda>r. r\<lparr>pc_open := open_status\<rparr>)
      (update_post_text ti ab c open_status i d))"
    if "db_ok d" "offered ks d" "post_by_id i d = Some p" for d p ti ab c
    using set_open_ok[OF that(1) o, of i ti ab c] that by (simp add: fields)
  have same: "adding i (p_publish p) open_status ks (update_post_text ti ab c open_status i d)"
    if "db_ok d" "offered ks d" "post_by_id i d = Some p" "(p_open p \<noteq> 0) = was_open" "\<not> ?ch" for d p ti ab c
  proof -
    have "p_open p = open_status"
      using that db_okD(11)[OF that(1)] post_by_id_iff[OF that(1), of i p] by (auto simp: op states_ok_def)
    then show ?thesis using update_text_ok[OF that(1), of i open_status ti ab c] that by (simp add: fields)
  qed
  have found: "post_by_id i (update_post_text ti ab c open_status i d) = Some (p\<lparr>p_title := ti, p_abstract := ab,
      p_content := c, p_open := open_status\<rparr>)" if "post_by_id i d = Some p" for d p ti ab c
    using that by (simp add: update_post_text_def upd)
  show ?thesis
    unfolding gives_def
  proof (intro allI impI, elim conjE exE)
    fix w :: world and p
    assume *: "db_ok (db w)" "offered ks (db w)" "post_by_id i (db w) = Some p" "(p_open p \<noteq> 0) = was_open"
    show "case write_post st i f open_status w of (Inr t, w') \<Rightarrow> adding i t open_status ks (db w') | (Inl e, w') \<Rightarrow> True"
    proof (cases "?ch \<and> open_status = 1")
      case True
      then show ?thesis using pub[OF *(1-3)] by (simp add: write_post_def Let_def sql_exec_def)
    next
      case no: False
      then show ?thesis
        using chg[OF *(1-3)] same[OF *(1-4)] found[OF *(3)]
        by (auto simp: write_post_def Let_def sql_exec_def sql_def)
    qed
  qed
qed

lemma store_post_at:
  assumes w: "world_ok w" and k: "offered (checked (pf_add f)) (db w)"
    and p: "post_by_id i (db w) = Some p" "(p_open p \<noteq> 0) = was_open"
  shows "world_ok (snd (store_post st i was_open f w))"
proof -
  let ?ch = "eb_change_status (pf_buttons f)"
  let ?op = "if ?ch \<noteq> was_open then 1 else 0 :: int"
  let ?ks = "checked (pf_add f)"
  let ?D = "\<lambda>d. db_ok d \<and> offered ?ks d \<and> (\<exists>p. post_by_id i d = Some p \<and> (p_open p \<noteq> 0) = was_open)"
  let ?m = "andThen (write_post st i f ?op) (\<lambda>t.
            andThen (if ?ch then raise_trigger ''cat_0'' else ret ()) (\<lambda>_.
            andThen (raise_trigger (post_trigger i)) (\<lambda>_.
            andThen (for_each (add_to_cat i t ?op) ?ks) (\<lambda>_.
            andThen (for_each (del_from_cat i ?ch) (pf_del f)) (\<lambda>_.
            commit ())))))"
  have "gives (\<lambda>w. ?D (db w)) ?m (\<lambda>(x, c) w. c \<longrightarrow> db_ok (db w))"
  proof (intro gives_andThen)
    show "gives (\<lambda>w. ?D (db w)) (write_post st i f ?op) (\<lambda>t w. adding i t ?op ?ks (db w))"
      by (rule write_post_commits) simp
    show "gives (\<lambda>w. adding i t ?op ?ks (db w)) (if ?ch then raise_trigger ''cat_0'' else ret ())
        (\<lambda>_ w. adding i t ?op ?ks (db w))" for t by (rule gives_request) (intro keeps_intros)
    show "gives (\<lambda>w. adding i t ?op ?ks (db w)) (raise_trigger (post_trigger i))
        (\<lambda>_ w. adding i t ?op ?ks (db w))" for t by (rule gives_request) (intro keeps_intros)
    show "gives (\<lambda>w. adding i t ?op ?ks (db w)) (for_each (add_to_cat i t ?op) ?ks) (\<lambda>_ w. db_ok (db w))" for t
      by (rule gives_conseq[OF add_to_cats_commits]) (simp add: adding_def)
    show "gives (\<lambda>w. db_ok (db w)) (for_each (del_from_cat i ?ch) (pf_del f)) (\<lambda>_ w. db_ok (db w))"
    proof (rule gives_for_each)
      fix r
      have "gives (\<lambda>w. db_ok (db w)) (if snd r then sql_exec (delete_post2cats (\<lambda>x. pc_post x = i \<and> pc_cat x = fst r))
          else ret ()) (\<lambda>_ w. db_ok (db w))"
        by (intro gives_if gives_ret gives_sql_exec delete_post2cats_ok)
      moreover have "gives (\<lambda>w. db_ok (db w)) (if ?ch then raise_trigger (cat_trigger (fst r)) else ret ()) (\<lambda>_ w. db_ok (db w))"
        by (rule gives_request) (intro keeps_intros)
      ultimately show "gives (\<lambda>w. db_ok (db w)) (del_from_cat i ?ch r) (\<lambda>_ w. db_ok (db w))"
        unfolding del_from_cat_def by (intro gives_andThen)
    qed
    show "gives (\<lambda>w. db_ok (db w)) (commit ()) (\<lambda>(x, c) w. c \<longrightarrow> db_ok (db w))" by (rule gives_commit(1))
  qed
  moreover have "keeps web_ok ?m"
    unfolding add_to_cat_def del_from_cat_def write_post_def by (intro keeps_intros)
  ultimately show ?thesis
    using transaction_at[OF w, of ?m ?D] w k p by (simp add: store_post_def Let_def world_ok_def)
qed

lemma remove_post_ok [keeps_intros]: "keeps world_ok (remove_post st i)"
proof -
  let ?m = "andThen (sql_exec (delete_comments_of i)) (\<lambda>_.
          andThen (sql_exec (delete_post2cats (\<lambda>r. pc_post r = i))) (\<lambda>_.
          andThen (sql_exec (delete_post i)) (\<lambda>_.
          andThen (raise_trigger ''comments'') (\<lambda>_.
          andThen (raise_trigger (post_trigger i)) (\<lambda>_.
          commit ())))))"
  have "gives (\<lambda>w. db_ok (db w)) ?m (\<lambda>(x, c) w. c \<longrightarrow> db_ok (db w))"
  proof (intro gives_andThen)
    show "gives (\<lambda>w. db_ok (db w)) (sql_exec (delete_comments_of i))
        (\<lambda>_ w. db_ok (delete_post i (delete_post2cats (\<lambda>r. pc_post r = i) (db w))))"
      by (rule gives_sql_exec[where E = "\<lambda>d. db_ok (delete_post i (delete_post2cats (\<lambda>r. pc_post r = i) d))"])
         (rule delete_post_ok)
    show "gives (\<lambda>w. db_ok (delete_post i (delete_post2cats (\<lambda>r. pc_post r = i) (db w))))
        (sql_exec (delete_post2cats (\<lambda>r. pc_post r = i))) (\<lambda>_ w. db_ok (delete_post i (db w)))"
      by (rule gives_sql_exec[where E = "\<lambda>d. db_ok (delete_post i d)"])
    show "gives (\<lambda>w. db_ok (delete_post i (db w))) (sql_exec (delete_post i)) (\<lambda>_ w. db_ok (db w))"
      by (rule gives_sql_exec[where E = db_ok])
    show "gives (\<lambda>w. db_ok (db w)) (raise_trigger t) (\<lambda>_ w. db_ok (db w))" for t
      by (rule gives_request) (intro keeps_intros)
    then show "gives (\<lambda>w. db_ok (db w)) (raise_trigger (post_trigger i)) (\<lambda>_ w. db_ok (db w))" .
    show "gives (\<lambda>w. db_ok (db w)) (commit ()) (\<lambda>(x, c) w. c \<longrightarrow> db_ok (db w))" by (rule gives_commit(1))
  qed
  moreover have "keeps web_ok ?m" by (intro keeps_intros)
  ultimately show ?thesis
    unfolding remove_post_def by (intro keeps_intros transaction_world)
qed

lemma create_post_at:
  assumes w: "world_ok w" "offered (checked (pf_add f)) (db w)"
  shows "world_ok (snd (create_post st f w))"
proof (cases "eb_remove (pf_buttons f)")
  case True
  have "keeps world_ok (andThen (redirect st [''admin'', ''post''] ''/admin/summary'' [] [])
      (\<lambda>_. ret (None :: int option)))"
    by (intro keeps_intros)
  then show ?thesis using True keeps_worldD[OF _ w(1)] by (simp add: create_post_def)
next
  case False
  have "world_ok (snd (andThen (store_new_post st f) (\<lambda>i.
        if eb_save_and_continue (pf_buttons f) then ret (Some i)
        else andThen (redirect st [''admin'', ''post''] ''/admin/summary'' [] []) (\<lambda>_. ret None)) w))"
    by (rule andThen_at, rule store_new_post_at[OF w], intro keeps_intros)
  then show ?thesis using False by (simp add: create_post_def)
qed

lemma change_post_at:
  assumes w: "world_ok w" "offered (checked (pf_add f)) (db w)" "post_by_id i (db w) = Some p"
    "(p_open p \<noteq> 0) = was_open"
  shows "world_ok (snd (change_post st i was_open f w))"
proof (cases "eb_remove (pf_buttons f)")
  case True
  have "keeps world_ok (andThen (remove_post st i) (\<lambda>_. ret (None :: int option)))" by (intro keeps_intros)
  then show ?thesis using True keeps_worldD[OF _ w(1)] by (simp add: change_post_def Let_def)
next
  case False
  let ?b = "pf_buttons f" and ?ret_to = "tf_value (pf_backurl f)"
  have "world_ok (snd (andThen (store_post st i was_open f) (\<lambda>_.
        andThen (if \<not> (eb_save ?b \<or> eb_change_status ?b) then ret ()
                 else if ?ret_to = [] then redirect st [''admin'', ''post''] ''/admin/summary'' [] []
                 else on_response (set_redirect_header ?ret_to)) (\<lambda>_. ret (Some i))) w))"
    by (rule andThen_at, rule store_post_at[OF w], intro keeps_intros)
  then show ?thesis using False by (simp add: change_post_def Let_def)
qed

lemma offered_checked:
  "offered ks d \<Longrightarrow> offered (checked (load_checkboxes e n ks)) d"
proof -
  have "set (checked (load_checkboxes e n ks)) \<subseteq> set ks"
    by (induction e n ks rule: load_checkboxes.induct) (auto simp: checked_def)
  then show "offered ks d \<Longrightarrow> ?thesis" by (auto simp: offered_def)
qed

lemma cats_out_offered: "offered (cats_out i d) d"
  by (auto simp: offered_def cats_out_def)

lemma load_form_db: "load_form e ld w = (Inr f, w') \<Longrightarrow> db w' = db w \<and> f = ld e"
  by (auto simp: load_form_def check_origin_def in_session_def andThen_def split: prod.splits sum.splits)

lemma post_form_validate_add: "pf_add (snd (post_form_validate f)) = pf_add f"
  by (simp add: post_form_validate_def Let_def split_beta)

lemma post_shared_ok [keeps_intros]: "keeps world_ok (post_shared st i)"
proof
  fix w assume w: "world_ok w"
  let ?r = "if i = 0 then None else post_by_id i (db w)"
  let ?open = "case ?r of Some p \<Rightarrow> p_open p \<noteq> 0 | None \<Rightarrow> False"
  let ?add = "cats_out i (db w)" and ?del = "cats_in i (db w)"
  let ?act = "\<lambda>f. if i = 0 then create_post st f else change_post st i ?open f"
  let ?rest = "\<lambda>f next. case next of None \<Rightarrow> ret () | Some j \<Rightarrow> show_admin st (Admin_post j ?open f)"
  have form: "world_ok (snd (andThen (load_form (req st) (load_post_form ?add ?del)) (\<lambda>f.
         case post_form_validate f of
           (True, f) \<Rightarrow> andThen (?act f) (?rest f)
         | (False, f) \<Rightarrow> show_admin st (Admin_post i ?open f)) w))"
    if r: "i = 0 \<or> ?r \<noteq> None"
  proof -
    obtain x w1 where l: "load_form (req st) (load_post_form ?add ?del) w = (x, w1)"
      by (cases "load_form (req st) (load_post_form ?add ?del) w")
    have w1: "world_ok w1" using keepsD[OF world_load_form w] l by (metis snd_conv)
    show ?thesis
    proof (cases x)
      case (Inr f)
      have d: "db w1 = db w" "f = load_post_form ?add ?del (req st)"
        using load_form_db[OF l[unfolded Inr]] by simp_all
      obtain ok f' where v: "post_form_validate f = (ok, f')" by (cases "post_form_validate f")
      have "pf_add f' = pf_add f" using post_form_validate_add[of f] v by simp
      then have o: "offered (checked (pf_add f')) (db w1)"
        using offered_checked[OF cats_out_offered[of i "db w"], of "req st" 10]
        unfolding d load_post_form_def by simp
      have act: "world_ok (snd (?act f' w1))"
      proof (cases "i = 0")
        case True
        then show ?thesis using create_post_at[OF w1 o] by simp
      next
        case False
        then obtain p where p: "post_by_id i (db w1) = Some p" using r d(1) by auto
        then have "?open = (p_open p \<noteq> 0)" using False d(1) by simp
        then show ?thesis using change_post_at[OF w1 o p] False by simp
      qed
      have "world_ok (snd (andThen (?act f') (?rest f') w1))"
        by (rule andThen_at, rule act, intro keeps_intros)
      then show ?thesis using keepsD[OF show_admin_ok w1] l Inr v by (cases ok) (simp_all add: andThen_def)
    qed (use l w1 in \<open>simp add: andThen_def\<close>)
  qed
  note unfold = post_shared_def sql_def andThen_reads Let_def case_prod_conv
  show "world_ok (snd (post_shared st i w))"
  proof (cases "i \<noteq> 0 \<and> ?r = None")
    case True
    show ?thesis by (simp only: unfold if_P[OF True]) (rule keeps_worldD[OF world_shorthands(1) w])
  next
    case False
    then have r: "i = 0 \<or> ?r \<noteq> None" by (cases "i = 0") auto
    show ?thesis
    proof (cases "is_post st")
      case True
      show ?thesis by (simp only: unfold if_not_P[OF False] if_P[OF True]) (rule form[OF r])
    next
      case no: False
      show ?thesis by (simp only: unfold if_not_P[OF False] if_not_P[OF no]) (rule keeps_worldD[OF show_admin_ok w])
    qed
  qed
qed

lemma admin_post_ok [keeps_intros]: "keeps world_ok (admin_post st sid)"
  unfolding admin_post_def by (intro keeps_intros)

text \<open>Configuration, captcha, and the whole request.\<close>

lemma config_ok [keeps_intros]:
  "keeps world_ok (config_version st)" "keeps world_ok (config_configure st)"
  unfolding config_version_def config_configure_def write_config_def
  by (intro keeps_intros transaction_simple sql_exec_world sql_try_world delete_options_ok insert_option_ok
      insert_user_ok; assumption?)+

lemma captcha_main_ok [keeps_intros]: "keeps world_ok (captcha_main st rs pic)"
  unfolding captcha_main_def by (intro keeps_intros) (simp add: on_server_def sset_int_def)

lemma check_language_ok [keeps_intros]: "keeps world_ok (check_language st)"
  unfolding check_language_def by (intro keeps_intros ci_clear_ok) (simp add: sset_int_def)

lemma blog_main_ok [keeps_intros]:
  assumes "keeps world_ok m"
  shows "keeps world_ok (blog_main st m)"
proof -
  have k: "keeps world_ok (andThen (on_response (status 200)) (\<lambda>_. m))"
    using assms by (intro keeps_intros)
  have "keeps world_ok (\<lambda>w. case andThen (on_response (status 200)) (\<lambda>_. m) w of
       (Inl Database_version_error, w') \<Rightarrow> redirect st [] ''/config/version'' [] [] w'
     | (Inl Database_is_not_configured_error, w') \<Rightarrow> redirect st [] ''/config'' [] [] w'
     | r \<Rightarrow> r)"
  proof
    fix w assume "world_ok w"
    then have w': "world_ok (snd (andThen (on_response (status 200)) (\<lambda>_. m) w))" by (rule keepsD[OF k])
    have red: "world_ok (snd (redirect st [] key [] [] w'))" if "world_ok w'" for key w'
      by (rule keepsD[OF world_shorthands(2) that])
    show "world_ok (snd (case andThen (on_response (status 200)) (\<lambda>_. m) w of
       (Inl Database_version_error, w') \<Rightarrow> redirect st [] ''/config/version'' [] [] w'
     | (Inl Database_is_not_configured_error, w') \<Rightarrow> redirect st [] ''/config'' [] [] w'
     | r \<Rightarrow> r))"
      using w' red by (auto split: prod.splits sum.splits exn.splits)
  qed
  then show ?thesis unfolding blog_main_def by (intro keeps_intros)
qed

lemma translate_exception_ok: "keeps world_ok (translate_exception e x)"
proof
  fix w assume w: "world_ok w"
  show "world_ok (snd (translate_exception e x w))"
    using w keepsD[OF world_request(5) w] by (auto simp: translate_exception_def make_error_message_def)
qed

lemma serve_ok:
  assumes "keeps world_ok m"
  shows "keeps world_ok (serve st m)"
proof
  fix w assume w: "world_ok w"
  have ld: "keeps world_ok (in_session (load memory_ops cfg t))" for cfg t
    by (intro keeps_world keeps_in_session keeps_intros mem_store.load_ok)
  have k: "keeps world_ok (andThen (in_session (load memory_ops (scfg (req st)) (now (req st)))) (\<lambda>_.
      andThen (in_session (load memory_ops (scfg (req st)) (now (req st)))) (\<lambda>_. blog_main st m)))"
    using assms by (intro keeps_intros ld)
  have e: "keeps world_ok (andThen (translate_exception (req st) x) (\<lambda>_. finalize (req st)))" for x
    by (intro keeps_intros translate_exception_ok)
  let ?run = "andThen (in_session (load memory_ops (scfg (req st)) (now (req st)))) (\<lambda>_.
      andThen (in_session (load memory_ops (scfg (req st)) (now (req st)))) (\<lambda>_. blog_main st m))"
  obtain r w' where run: "?run w = (r, w')" by (cases "?run w")
  have w': "world_ok w'" using keeps_worldD[OF k w] run by simp
  show "world_ok (snd (serve st m w))"
  proof (cases r)
    case (Inl x)
    then have "serve st m w = andThen (translate_exception (req st) x) (\<lambda>_. finalize (req st)) w'"
      using run by (simp add: serve_def dispatch_request_def)
    then show ?thesis using keeps_worldD[OF e w'] by simp
  next
    case (Inr u)
    then have "serve st m w = finalize (req st) w'"
      using run by (simp add: serve_def dispatch_request_def split: unit.split)
    then show ?thesis using keeps_worldD[OF world_request(4) w'] by simp
  qed
qed

end
