(* ===== verification/Media.thy ===== *)
theory Media
  imports Admin_App Crypto Json
begin

text \<open>
  Files over HTTP: \<open>apps/media.cpp\<close>, \<open>apps/blog/download.cpp\<close> and \<open>apps/admin/upload.cpp\<close>, on the
  files of \<open>File_System\<close>. Sizes and positions are 64-bit words, read signed where the code has
  \<open>long\<close> and unsigned where it has \<open>size_t\<close>.
\<close>

section \<open>Ranges\<close>

text \<open>\<open>%lu\<close>: white space, a sign, digits; too large a number is \<open>ULONG_MAX\<close>.\<close>

definition scan_ulong :: "string \<Rightarrow> (64 word \<times> string) option" where
  "scan_ulong s =
     (let t = dropWhile is_space s;
          neg = (t \<noteq> [] \<and> hd t = CHR ''-'');
          u = (if t \<noteq> [] \<and> (hd t = CHR ''-'' \<or> hd t = CHR ''+'') then tl t else t);
          ds = takeWhile is_digit u;
          v = digits_val u
      in if ds = [] then None
         else Some (if v \<ge> 2 ^ 64 then - 1 else if neg then word_of_int (- v) else word_of_int v, drop (length ds) u))"

text \<open>\<open>sscanf(range, "bytes=%lu-%lu", &b, &e)\<close>: what could not be read keeps its value.\<close>

definition scan_range :: "string \<Rightarrow> 64 word \<times> 64 word \<Rightarrow> 64 word \<times> 64 word" where
  "scan_range s be =
     (case be of (b, e) \<Rightarrow>
        if \<not> starts_with ''bytes='' s then (b, e)
        else case scan_ulong (drop 6 s) of
          None \<Rightarrow> (b, e)
        | Some (b', r) \<Rightarrow>
            if r = [] \<or> hd r \<noteq> CHR ''-'' then (b', e)
            else case scan_ulong (tl r) of None \<Rightarrow> (b', e) | Some (e', _) \<Rightarrow> (b', e'))"

definition http_range :: "site \<Rightarrow> string" where
  "http_range st = header (req st) ''HTTP_RANGE''"

text \<open>\<open>seekg\<close> before the beginning fails and leaves the position; then the rest of the file is read.\<close>

definition from_position :: "64 word \<Rightarrow> string \<Rightarrow> string" where
  "from_position b s = (if sint b < 0 then s else drop (nat (sint b)) s)"

definition hex_long :: "int \<Rightarrow> string" where
  "hex_long v = hex_nat (nat (v mod 2 ^ 64))"

definition file_etag :: "node \<Rightarrow> string" where
  "file_etag n = hex_long (st_size n) @ ''-'' @ hex_long (st_mtime n)"

text \<open>
  What both handlers do with a file that exists; \<open>show\<close> prints a position, as \<open>long\<close> or as \<open>size_t\<close>.
\<close>

definition send_file :: "site \<Rightarrow> (64 word \<Rightarrow> int) \<Rightarrow> node \<Rightarrow> unit handler" where
  "send_file st show_pos n =
     (let size = word_of_int (st_size n);
          (b, e) = (if http_range st = [] then (0, size - 1) else scan_range (http_range st) (0, size - 1));
          len = e - b + 1;
          t = now (req st)
      in andThen (if http_range st = [] then ret ()
                  else on_response (content_range
                    (''bytes '' @ dec (show_pos b) @ ''-'' @ dec (show_pos e) @ ''/'' @ dec (st_size n)))) (\<lambda>_.
         andThen (on_response (content_length (uint len))) (\<lambda>_.
         andThen (on_response (accept_ranges ''bytes'')) (\<lambda>_.
         andThen (on_response (cache_control ''max-age=604800'')) (\<lambda>_.
         andThen (on_response (age_header 86400)) (\<lambda>_.
         andThen (on_response (date_headers (http_time (req st)) t (st_mtime n) (t + 604800))) (\<lambda>_.
         andThen (on_response (vary ''Accept-Encoding'')) (\<lambda>_.
         andThen (on_response (etag (file_etag n))) (\<lambda>_.
         andThen (if len \<noteq> size then on_response (status 206) else ret ()) (\<lambda>_.
         put_out (req st) (from_position b (content_of n))))))))))))"

section \<open>\<open>media\<close>\<close>

definition media_root :: "site \<Rightarrow> string" where
  "media_root st = strip_trailing (CHR ''/'') (document_root st) @ ''/media''"

definition mime_types :: "(string \<times> string) list" where
  "mime_types =
     [(''.swf'', ''application/x-shockwave-flash''),
      (''.mp4'', ''video/mp4''), (''.mpeg'', ''video/mpeg''), (''.mpg'', ''video/mpeg''),
      (''.mov'', ''video/quicktime''), (''.qt'', ''video/quicktime''), (''.avi'', ''video/x-msvideo''),
      (''.asf'', ''video/x-ms-asf''), (''.asx'', ''video/x-ms-asf''), (''.wmv'', ''video/x-ms-wmv''),
      (''.flv'', ''video/x-flv''), (''.f4v'', ''video/x-f4v''), (''.webm'', ''video/webm''),
      (''.ogv'', ''video/ogg''),
      (''.gif'', ''image/gif''), (''.jpg'', ''image/jpeg''), (''.jpeg'', ''image/jpeg''),
      (''.png'', ''image/png''), (''.bmp'', ''image/bmp''), (''.svg'', ''image/svg+xml''),
      (''.svgz'', ''image/svg+xml''), (''.ico'', ''image/x-icon''),
      (''.js'', ''text/javascript''), (''.css'', ''text/css''), (''.html'', ''text/html''),
      (''.htm'', ''text/html''), (''.txt'', ''text/plain''), (''.csv'', ''text/csv''),
      (''.gz'', ''application/x-gzip''), (''.tgz'', ''application/x-tgz''), (''.tar'', ''application/x-tar''),
      (''.zip'', ''application/zip''), (''.bz2'', ''application/x-bzip''),
      (''.tbz'', ''application/x-bzip-compressed-tar''), (''.rar'', ''application/x-rar-compressed''),
      (''.7z'', ''application/x-7z-compressed''), (''.cab'', ''application/vnd.ms-cab-compressed''),
      (''.xz'', ''application/x-xz''),
      (''.doc'', ''application/msword''),
      (''.docx'', ''application/vnd.openxmlformats-officedocument.wordprocessingml.document''),
      (''.xls'', ''application/vnd.ms-excel''),
      (''.xlsx'', ''application/vnd.openxmlformats-officedocument.spreadsheetml.sheet''),
      (''.ppt'', ''application/vnd.ms-powerpoint''),
      (''.pptx'', ''application/vnd.openxmlformats-officedocument.presentationml.presentation''),
      (''.pdf'', ''application/pdf'')]"

definition media_type :: "string \<Rightarrow> string" where
  "media_type path =
     (let ext = (case rfind_char path (CHR ''.'') of None \<Rightarrow> [] | Some i \<Rightarrow> drop i path)
      in case map_of mime_types ext of Some t \<Rightarrow> t | None \<Rightarrow> ''application/octet-stream'')"

definition media_prepare :: "site \<Rightarrow> string \<Rightarrow> unit handler" where
  "media_prepare st path =
     (if find_str ''..'' path \<noteq> None then http_error st 404
      else
        andThen (on_response (content_type (media_type path))) (\<lambda>_.
        andThen (reads (\<lambda>w. lstat (disk w) (media_root st @ ''/'' @ path))) (\<lambda>n.
        case n of
          None \<Rightarrow> http_error st 404
        | Some n \<Rightarrow> send_file st sint n)))"

section \<open>\<open>download\<close>\<close>

definition file_ext :: "string \<Rightarrow> exn + string" where
  "file_ext name = substr_from name (pos_of (rfind_char name (CHR ''.'')))"

definition upload_base :: "site \<Rightarrow> string \<Rightarrow> int \<Rightarrow> exn + string" where
  "upload_base st md5 sz =
     (case (substr md5 0 2, substr md5 2 2, substr_from md5 4) of
        (Inr a, Inr b, Inr c) \<Rightarrow>
          Inr (media_url st @ ''/upload/'' @ a @ ''/'' @ b @ ''/'' @ c @ ''-'' @ hex_long sz)
      | _ \<Rightarrow> Inl Out_of_range)"

definition download_headers :: "site \<Rightarrow> string \<Rightarrow> response \<Rightarrow> response" where
  "download_headers st name r =
     set_header ''Content-Disposition''
       (''attachment; filename='' @ [CHR 0x22] @ name @ [CHR 0x22] @
        (if regex_match (req st) (''^[0-9a-zA-Z-_'' @ [CHR 0x5C] @ ''.]+$'') name then []
         else ''; filename*=utf-8'' @ [CHR 0x27, CHR 0x27] @ urlencode name))
       (set_content_header ''application/octet-stream'' r)"

definition download_prepare :: "site \<Rightarrow> string \<Rightarrow> string \<Rightarrow> string \<Rightarrow> unit handler" where
  "download_prepare st md5 sz name =
     andThen (prepare st) (\<lambda>_.
     case (upload_base st md5 (atol sz), file_ext name) of
       (Inr base, Inr ext) \<Rightarrow>
         andThen (on_response (download_headers st name)) (\<lambda>_.
         andThen (reads (\<lambda>w. lstat (disk w) (document_root st @ base @ ext))) (\<lambda>n.
         case n of
           None \<Rightarrow> http_error st 404
         | Some n \<Rightarrow> send_file st uint n))
     | _ \<Rightarrow> throw Out_of_range)"

section \<open>\<open>upload\<close>\<close>

text \<open>The expressions of names; the second one ignores case.\<close>

definition rehex :: string where
  "rehex = ''^[0-9a-fA-F]+$''"

definition upload_exts :: "string list" where
  "upload_exts =
     [''gif'', ''jpe?g'', ''bmp'', ''png'', ''mp3'', ''mp4'', ''avi'', ''flv'', ''f4v'', ''webm'', ''ogv'',
      ''bz2'', ''xz'', ''gz'', ''tar'', ''rar'', ''zip'', ''7z'', ''cab'', ''tgz'', ''tbz'', ''docx?'',
      ''xlsx?'', ''pptx?'', ''pdf'', ''csv'', ''txt'']"

definition reext :: string where
  "reext = ''(?i)^.*'' @ [CHR 0x5C] @ ''.('' @ tl (concat (map (\<lambda>x. CHR ''|'' # x) upload_exts)) @ '')$''"

definition c_rem :: "int \<Rightarrow> int \<Rightarrow> int" where
  "c_rem a b = sgn a * (\<bar>a\<bar> mod b)"

definition c_div :: "int \<Rightarrow> int \<Rightarrow> int" where
  "c_div a b = sgn a * (\<bar>a\<bar> div b)"

text \<open>The answer, with its members in the order of their names.\<close>

definition json_answer :: "site \<Rightarrow> (string \<times> int json) list \<Rightarrow> unit handler" where
  "json_answer st ms =
     (let v = fold (\<lambda>(k, x) v. set_member k x v) ms Undefined
      in andThen (on_response (set_content_header ''application/json; charset=UTF-8'')) (\<lambda>_.
         andThen (out (req st)) (\<lambda>_.
         case save_json (number_text st) False v of
           None \<Rightarrow> throw bad_value_cast
         | Some s \<Rightarrow> put_out (req st) s)))"

definition says :: "site \<Rightarrow> bool \<Rightarrow> string \<Rightarrow> (string \<times> int json) list" where
  "says st ok msg = [(''status'', Boolean ok), (''message'', Str (translate (req st) msg))]"

definition file_fields :: "site \<Rightarrow> bool \<Rightarrow> string \<Rightarrow> string \<Rightarrow> nat \<Rightarrow> string \<Rightarrow> (string \<times> int json) list" where
  "file_fields st ex furl name sz msg =
     [(''exists'', Boolean ex), (''fileUrl'', Str furl), (''fileName'', Str name), (''fileSize'', Number (int sz))] @
     says st True msg"

definition on_disk :: "(fs \<Rightarrow> fs) \<Rightarrow> unit handler" where
  "on_disk f = changes (\<lambda>w. w\<lparr>disk := f (disk w)\<rparr>)"

definition make_dirs :: "site \<Rightarrow> string \<Rightarrow> unit handler" where
  "make_dirs st path w =
     (case mkdir (now (req st)) path True (disk w) of
        None \<Rightarrow> (Inl Never_returns, w)
      | Some (ok, fs) \<Rightarrow> (Inr (), w\<lparr>disk := fs\<rparr>))"

text \<open>\<open>http::file::save_to\<close>.\<close>

definition save_to :: "site \<Rightarrow> string \<Rightarrow> string \<Rightarrow> unit handler" where
  "save_to st name s w =
     (case write_file (now (req st)) name s (disk w) of
        (True, fs) \<Rightarrow> (Inr (), w\<lparr>disk := fs\<rparr>)
      | (False, fs) \<Rightarrow> (Inl (Cppcms_error (''Failed to save open file:'' @ name)), w\<lparr>disk := fs\<rparr>))"

text \<open>A file is digested 2048 bytes at a time; reading ends with the piece that meets the end.\<close>

function pieces :: "string \<Rightarrow> string list" where
  "pieces s = (if length s < 2048 then [s] else take 2048 s # pieces (drop 2048 s))"
  by pat_completeness auto
termination by (relation "measure length") auto

declare pieces.simps [simp del]

definition digest_pieces :: "string \<Rightarrow> message_digest \<Rightarrow> message_digest" where
  "digest_pieces s d = fold (\<lambda>p d. digest_append d p) (pieces s) d"

text \<open>A file that cannot be read never sets \<open>eof\<close>: the loop goes on for ever (\<open>None\<close>).\<close>

definition read_file :: "fs \<Rightarrow> string \<Rightarrow> string option" where
  "read_file fs name = (case lstat fs name of Some (File s t) \<Rightarrow> Some s | _ \<Rightarrow> None)"

definition part_path :: "string \<Rightarrow> nat \<Rightarrow> string" where
  "part_path bpath i = bpath @ ''-'' @ dec (int i) @ ''.part''"

fun all_parts :: "fs \<Rightarrow> string \<Rightarrow> nat \<Rightarrow> nat \<Rightarrow> bool" where
  "all_parts fs bpath i 0 = True"
| "all_parts fs bpath i (Suc n) = (access fs (part_path bpath i) \<and> all_parts fs bpath (i + 1) n)"

text \<open>The parts from \<open>i\<close> on, in order: each is read, appended and removed.\<close>

fun join_parts ::
    "string \<Rightarrow> nat \<Rightarrow> nat \<Rightarrow> string \<times> message_digest \<times> fs \<Rightarrow> (string \<times> message_digest \<times> fs) option" where
  "join_parts bpath i 0 x = Some x"
| "join_parts bpath i (Suc n) (acc, d, fs) =
     (case read_file fs (part_path bpath i) of
        None \<Rightarrow> None
      | Some s \<Rightarrow>
          join_parts bpath (i + 1) n (acc @ s, digest_pieces s d, unlink_file (part_path bpath i) fs))"

definition assemble :: "site \<Rightarrow> string \<Rightarrow> string \<Rightarrow> nat \<Rightarrow> message_digest \<Rightarrow> message_digest handler" where
  "assemble st fpath bpath chunks d w =
     (let (opened, fs) = write_file (now (req st)) fpath [] (disk w)
      in case join_parts bpath 0 chunks ([], d, fs) of
           None \<Rightarrow> (Inl Never_returns, w\<lparr>disk := fs\<rparr>)
         | Some (s, d, fs) \<Rightarrow>
             (Inr d, w\<lparr>disk := (if opened then snd (write_file (now (req st)) fpath s fs) else fs)\<rparr>))"

text \<open>What a posted file does: the digest when the upload is complete, \<open>None\<close> when it is not yet.\<close>

definition receive_whole :: "site \<Rightarrow> string \<Rightarrow> string \<Rightarrow> message_digest handler" where
  "receive_whole st fpath data =
     andThen (make_dirs st fpath) (\<lambda>_.
     andThen (save_to st fpath data) (\<lambda>_.
     andThen (reads (\<lambda>w. read_file (disk w) fpath)) (\<lambda>s.
     case s of
       None \<Rightarrow> throw Never_returns
     | Some s \<Rightarrow> ret (digest_pieces s (Md5_digets (md5_init (garbage st)))))))"

definition receive_chunk ::
    "site \<Rightarrow> string \<Rightarrow> string \<Rightarrow> nat \<Rightarrow> nat \<Rightarrow> string \<Rightarrow> message_digest option handler" where
  "receive_chunk st fpath bpath chunk chunks data =
     (let lock = part_path bpath chunk @ ''.lock'' in
      andThen (make_dirs st lock) (\<lambda>_.
      andThen (save_to st lock data) (\<lambda>_.
      andThen (on_disk (rename_file lock (take (length lock - 5) lock))) (\<lambda>_.
      andThen (reads (\<lambda>w. all_parts (disk w) bpath 0 chunks)) (\<lambda>complete.
      if \<not> complete then ret None
      else andThen (assemble st fpath bpath chunks (Md5_digets (md5_init (garbage st)))) (\<lambda>d. ret (Some d)))))))"

text \<open>The checks of a complete upload: its digest, as hexadecimal text, and its size.\<close>

definition check_upload :: "site \<Rightarrow> string \<Rightarrow> string \<Rightarrow> nat \<Rightarrow> message_digest \<Rightarrow> bool handler" where
  "check_upload st fpath md5 sz d =
     andThen (reads (\<lambda>w. lstat (disk w) fpath)) (\<lambda>n.
     if md5 \<noteq> to_hex (fst (digest_readout d)) \<or> n = None \<or> (word_of_int (st_size (the n)) :: 64 word) \<noteq> word_of_nat sz
     then andThen (on_disk (unlink_file fpath)) (\<lambda>_. ret False)
     else ret True)"

definition turn_image ::
    "site \<Rightarrow> string \<Rightarrow> string \<Rightarrow> string \<Rightarrow> int \<Rightarrow> string handler" where
  "turn_image st dir bpath ext rotation =
     (let r = c_div rotation 90 + 3;
          r = (if r \<ge> 4 then r - 4 else r);
          turned = bpath @ ''-r'' @ dec r @ ext
      in andThen (reads (\<lambda>w. access (disk w) (dir @ turned))) (\<lambda>there.
         andThen (if there then ret () else
           andThen (on_disk (\<lambda>fs. snd (write_file (now (req st)) (dir @ turned) [] fs))) (\<lambda>_.
           andThen (reads (\<lambda>w. read_file (disk w) (dir @ bpath @ ext))) (\<lambda>s.
           case Option.bind s (rotated st rotation (drop 1 ext)) of
             None \<Rightarrow> throw Magick_error
           | Some img \<Rightarrow> on_disk (\<lambda>fs. snd (write_file (now (req st)) (dir @ turned) img fs))))) (\<lambda>_.
         ret turned)))"

text \<open>
  The handler. \<open>then_turn\<close> is its end for a file that is there: an image that is to be turned is made
  and its name answered.
\<close>

definition then_turn ::
    "site \<Rightarrow> string \<Rightarrow> string \<Rightarrow> string \<Rightarrow> int \<Rightarrow> bool \<Rightarrow> (string \<times> int json) list \<Rightarrow> unit handler" where
  "then_turn st dir bpath ext rotation there ms =
     (if there \<and> rotation \<noteq> 0
      then andThen (turn_image st dir bpath ext rotation) (\<lambda>u. json_answer st (ms @ [(''fileUrl'', Str u)]))
      else json_answer st ms)"

definition post_upload ::
    "site \<Rightarrow> string \<Rightarrow> string \<Rightarrow> string \<Rightarrow> string \<Rightarrow> string \<Rightarrow> nat \<Rightarrow> int \<Rightarrow> unit handler" where
  "post_upload st dir bpath ext md5 name sz rotation =
     (let chunk = nat (post_or_get_long st ''chunk'' 0 mod 2 ^ 64);
          chunks = nat (post_or_get_long st ''chunks'' 1 mod 2 ^ 64);
          fpath = dir @ bpath @ ext
      in case uploads (req st) of
           [data] \<Rightarrow>
             andThen (if chunks = 1 then andThen (receive_whole st fpath data) (\<lambda>d. ret (Some d))
                      else receive_chunk st fpath (dir @ bpath) chunk chunks data) (\<lambda>r.
             case r of
               None \<Rightarrow> json_answer st (says st True ''File block saved successfully!'')
             | Some d \<Rightarrow>
                 andThen (check_upload st fpath md5 sz d) (\<lambda>ok.
                 if ok
                 then then_turn st dir bpath ext rotation True
                        (file_fields st True (bpath @ ext) name sz ''Upload completed!'')
                 else json_answer st (says st False ''File hash value or size not is equals!'')))
         | _ \<Rightarrow> json_answer st (says st False ''No file!''))"

definition get_upload ::
    "site \<Rightarrow> string \<Rightarrow> string \<Rightarrow> string \<Rightarrow> string \<Rightarrow> nat \<Rightarrow> int \<Rightarrow> unit handler" where
  "get_upload st dir bpath ext name sz rotation =
     andThen (reads (\<lambda>w. lstat (disk w) (dir @ bpath @ ext))) (\<lambda>n.
     let there = (case n of None \<Rightarrow> False | Some n \<Rightarrow> (word_of_int (st_size n) :: 64 word) = word_of_nat sz)
     in then_turn st dir bpath ext rotation there
          (file_fields st there (bpath @ ext) name sz
            (if there then ''Successful transmission in seconds!''
             else ''Files do not exist and can be uploaded.'')))"

definition upload_prepare :: "site \<Rightarrow> unit handler" where
  "upload_prepare st =
     (let md5 = post_or_get st ''md5''; name = post_or_get st ''name'';
          sz = nat (post_or_get_long st ''size'' 0 mod 2 ^ 64);
          rotation = c_rem (post_or_get_int st ''rotation'' 0) 360
      in if md5 = [] \<or> \<not> regex_match (req st) rehex md5 \<or> name = [] \<or> sz = 0
         then json_answer st (says st False ''Request parameter error.'')
         else if \<not> regex_match (req st) reext name
         then json_answer st (says st False ''File type is not supported.'')
         else case file_ext name of
           Inl x \<Rightarrow> throw x
         | Inr ext \<Rightarrow>
             andThen (admin_prepare st) (\<lambda>_.
             case upload_base st md5 (int sz) of
               Inl x \<Rightarrow> throw x
             | Inr bpath \<Rightarrow>
                 let dir = strip_trailing (CHR ''/'') (document_root st)
                 in if is_post st then post_upload st dir bpath ext md5 name sz rotation
                    else get_upload st dir bpath ext name sz rotation))"

section \<open>Every handler keeps the site well formed\<close>

lemma world_disk: "world_ok (w\<lparr>disk := d\<rparr>) \<longleftrightarrow> world_ok w"
  by (simp add: world_ok_def web_ok_def)

lemma disk_keeps [keeps_intros]:
  "keeps world_ok (on_disk f)" "keeps world_ok (make_dirs st path)" "keeps world_ok (save_to st name s)"
  "keeps world_ok (assemble st fpath bpath chunks d)"
  by (auto simp: keeps_def on_disk_def make_dirs_def save_to_def assemble_def world_disk split_beta
      split: option.split prod.split bool.split)

lemma files_keep [keeps_intros]:
  "keeps world_ok (send_file st f n)" "keeps world_ok (json_answer st ms)"
  unfolding send_file_def json_answer_def Let_def by (auto intro!: keeps_intros simp: split_beta)

lemma media_ok [keeps_intros]: "keeps world_ok (media_prepare st path)"
  unfolding media_prepare_def by (intro keeps_intros)

lemma download_ok [keeps_intros]: "keeps world_ok (download_prepare st md5 sz name)"
  unfolding download_prepare_def by (auto intro!: keeps_intros split: sum.split)

lemma upload_ok [keeps_intros]: "keeps world_ok (upload_prepare st)"
proof -
  have t: "keeps world_ok (then_turn st dir bpath ext rotation there ms)" for dir bpath ext rotation there ms
    unfolding then_turn_def turn_image_def Let_def by (intro keeps_intros)
  have r: "keeps world_ok (receive_whole st fpath data)" "keeps world_ok (receive_chunk st fpath bpath chunk chunks data)"
    "keeps world_ok (check_upload st fpath md5 sz d)" for fpath data bpath chunk chunks md5 sz d
    unfolding receive_whole_def receive_chunk_def check_upload_def Let_def by (intro keeps_intros)+
  have "keeps world_ok (post_upload st dir bpath ext md5 name sz rotation)" for dir bpath ext md5 name sz rotation
    unfolding post_upload_def Let_def by (auto intro!: keeps_intros t r split: list.split)
  moreover have "keeps world_ok (get_upload st dir bpath ext name sz rotation)" for dir bpath ext name sz rotation
    unfolding get_upload_def Let_def by (intro keeps_intros t)
  ultimately show ?thesis
    unfolding upload_prepare_def Let_def by (auto intro!: keeps_intros split: sum.split)
qed

section \<open>Handlers that do not look at the disk\<close>

definition blind :: "'a handler \<Rightarrow> bool" where
  "blind m \<longleftrightarrow> (\<forall>w d. m (w\<lparr>disk := d\<rparr>) = (fst (m w), (snd (m w))\<lparr>disk := d\<rparr>))"

named_theorems blind_intros

lemma blind_andThen [blind_intros]: "blind m \<Longrightarrow> (\<And>x. blind (f x)) \<Longrightarrow> blind (andThen m f)"
  unfolding blind_def andThen_def by (auto simp: split_beta split: sum.split)

lemma blind_basics [blind_intros]:
  "blind (ret x)" "blind (throw e)" "blind (on_response f)" "blind (in_session m)"
  by (simp_all add: blind_def on_response_def in_session_def changes_def split_beta)

lemma blind_if [blind_intros]: "(c \<Longrightarrow> blind m) \<Longrightarrow> (\<not> c \<Longrightarrow> blind n) \<Longrightarrow> blind (if c then m else n)"
  by simp

lemma blind_out [blind_intros]: "blind (out e)"
proof -
  have "blind (andThen (on_response out_prepare) (\<lambda>_.
      andThen (in_session (save memory_ops (scfg e) (now e))) (\<lambda>_. on_response out_send)))"
    by (intro blind_intros)
  then show ?thesis by (auto simp: blind_def out_def)
qed

lemma blind_answers [blind_intros]: "blind (put_out e s)" "blind (http_error st code)" "blind (send_file st f n)"
  unfolding put_out_def http_error_def error_response_def make_error_response_def send_file_def Let_def
  by (auto intro!: blind_intros simp: split_beta)

lemma blind_json [blind_intros]: "blind (json_answer st ms)"
  unfolding json_answer_def Let_def by (auto intro!: blind_intros split: option.split)

lemma blind_disk: "blind m \<Longrightarrow> disk (snd (m w)) = disk w"
proof -
  assume "blind m"
  then have "m (w\<lparr>disk := disk w\<rparr>) = (fst (m w), (snd (m w))\<lparr>disk := disk w\<rparr>)" unfolding blind_def by blast
  then have e: "snd (m w) = (snd (m w))\<lparr>disk := disk w\<rparr>" by (metis snd_conv world.surjective world.update_convs(2))
  show ?thesis by (subst e) simp
qed

section \<open>What \<open>media\<close> can serve\<close>

lemma walk_agree:
  assumes "\<And>p. below q p \<Longrightarrow> d1 p = d2 p"
  shows "below q cur \<Longrightarrow> ''..'' \<notin> set cs \<Longrightarrow> walk d1 cur cs = walk d2 cur cs"
proof (induction cs arbitrary: cur)
  case (Cons c cs)
  have "is_dir d1 cur = is_dir d2 cur" using assms[OF Cons.prems(1)] by (simp add: is_dir_def)
  moreover have "below q (cur @ [c])" using Cons.prems(1) by (auto simp: below_iff)
  moreover have "c \<noteq> ''..''" "''..'' \<notin> set cs" using Cons.prems(2) by auto
  ultimately show ?case using Cons.IH[of cur] Cons.IH[of "cur @ [c]"] Cons.prems(1) by simp
qed simp

lemma resolve_split:
  assumes "CHR 0x00 \<notin> set dir" "dir \<noteq> []"
  shows "resolve fs (dir @ CHR ''/'' # rest) =
    Option.bind (resolve fs dir) (\<lambda>q. walk fs q (components [] (takeWhile (\<lambda>c. c \<noteq> CHR 0x00) rest)))"
proof -
  have t: "takeWhile (\<lambda>c. c \<noteq> CHR 0x00) (dir @ CHR ''/'' # rest) =
      dir @ CHR ''/'' # takeWhile (\<lambda>c. c \<noteq> CHR 0x00) rest"
    "takeWhile (\<lambda>c. c \<noteq> CHR 0x00) dir = dir"
    using assms(1) by (simp_all add: takeWhile_append takeWhile_eq_all_conv) fastforce+
  have ne: "components q s \<noteq> []" for q s by (induction q s rule: components.induct) auto
  show ?thesis
    using assms(2) unfolding resolve_def t Let_def by (auto simp: components_append walk_append[OF ne])
qed

lemma no_dots_component:
  assumes "find_str ''..'' path = None"
  shows "''..'' \<notin> set (components [] (takeWhile (\<lambda>c. c \<noteq> CHR 0x00) path))"
proof
  assume "''..'' \<in> set (components [] (takeWhile (\<lambda>c. c \<noteq> CHR 0x00) path))"
  then obtain x y where "takeWhile (\<lambda>c. c \<noteq> CHR 0x00) path = x @ ''..'' @ y"
    using components_infix by fastforce
  then have "path = x @ ''..'' @ (y @ dropWhile (\<lambda>c. c \<noteq> CHR 0x00) path)"
    by (metis append.assoc takeWhile_dropWhile_id)
  then obtain z where "drop (length x) path = ''..'' @ z" by (metis append_eq_conv_conj)
  then have "starts_with ''..'' (drop (length x) path)" by (simp only: starts_with_append)
  then show False using find_str_None[OF assms] by blast
qed

lemma strip_trailing_subset: "set (strip_trailing c s) \<subseteq> set s"
  by (auto simp: strip_trailing_def dest: set_dropWhileD)

lemma media_lstat_agrees:
  assumes "resolve d1 (media_root st) = Some q" "resolve d2 (media_root st) = Some q"
    and agree: "\<And>p. below q p \<Longrightarrow> d1 p = d2 p" and root: "CHR 0x00 \<notin> set (document_root st)"
    and "find_str ''..'' path = None"
  shows "lstat d1 (media_root st @ ''/'' @ path) = lstat d2 (media_root st @ ''/'' @ path)"
proof -
  let ?cs = "components [] (takeWhile (\<lambda>c. c \<noteq> CHR 0x00) path)"
  have dots: "''..'' \<notin> set ?cs" by (rule no_dots_component[OF assms(5)])
  have r: "CHR 0x00 \<notin> set (media_root st)" "media_root st \<noteq> []"
    using root strip_trailing_subset[of "CHR ''/''" "document_root st"] by (auto simp: media_root_def)
  have w: "walk d1 q ?cs = walk d2 q ?cs" by (rule walk_agree[OF agree below_refl dots])
  have n: "node_at d1 p = node_at d2 p" if "walk d2 q ?cs = Some p" for p
    using agree[OF walk_below[OF dots that]] by (simp add: node_at_def is_dir_def)
  show ?thesis
    using resolve_split[OF r, of d1 path] resolve_split[OF r, of d2 path] assms(1,2) w n
    by (cases "walk d2 q ?cs") (simp_all add: lstat_def)
qed

text \<open>
  Property C18. What \<open>media\<close> answers depends on nothing but the files below the media directory of the
  document root: on two disks that have the same files there, and whatever else, the same request
  gets the same answer. Names with \<open>..\<close> in them are refused before the disk is looked at.
\<close>

theorem media_stays_in_its_directory:
  assumes "resolve d1 (media_root st) = Some q" "resolve d2 (media_root st) = Some q"
    and "\<And>p. below q p \<Longrightarrow> d1 p = d2 p" and "CHR 0x00 \<notin> set (document_root st)"
    and "media_prepare st path (w\<lparr>disk := d1\<rparr>) = (r, w')"
  shows "media_prepare st path (w\<lparr>disk := d2\<rparr>) = (r, w'\<lparr>disk := d2\<rparr>)"
proof (cases "find_str ''..'' path = None")
  case False
  have "blind (media_prepare st path)"
    unfolding media_prepare_def using False by (auto intro: blind_intros)
  then have "media_prepare st path (w\<lparr>disk := d\<rparr>) =
      (fst (media_prepare st path w), (snd (media_prepare st path w))\<lparr>disk := d\<rparr>)" for d
    unfolding blind_def by blast
  then show ?thesis using assms(5) by auto
next
  case True
  define n where "n = lstat d1 (media_root st @ ''/'' @ path)"
  let ?m = "andThen (on_response (content_type (media_type path))) (\<lambda>_.
      case n of None \<Rightarrow> http_error st 404 | Some n \<Rightarrow> send_file st sint n)"
  have n: "n = lstat d2 (media_root st @ ''/'' @ path)"
    unfolding n_def by (rule media_lstat_agrees[OF assms(1-4) True])
  have m: "media_prepare st path (w\<lparr>disk := d\<rparr>) = ?m (w\<lparr>disk := d\<rparr>)"
    if "lstat d (media_root st @ ''/'' @ path) = n" for d
    using True that by (simp add: media_prepare_def andThen_def on_response_def changes_apply reads_apply)
  have "blind ?m" by (auto intro!: blind_intros split: option.split)
  then have "?m (w\<lparr>disk := d\<rparr>) = (fst (?m w), (snd (?m w))\<lparr>disk := d\<rparr>)" for d
    unfolding blind_def by blast
  then show ?thesis using assms(5) m[of d1] m[of d2] n n_def by auto
qed

lemma media_stays_in_its_directory_witness:
  "let st = example_site (example_env ''GET'' []);
       d1 = example_disk [(''a.txt'', File ''text'' 3)]; d2 = d1([''.'', ''key''] \<mapsto> File ''secret'' 3);
       (r, w) = media_prepare st ''a.txt'' (example_world d1)
   in media_prepare st ''a.txt'' ((example_world d1)\<lparr>disk := d2\<rparr>) = (r, w\<lparr>disk := d2\<rparr>)"
proof -
  let ?st = "example_site (example_env ''GET'' [])"
  let ?d1 = "example_disk [(''a.txt'', File ''text'' 3)]"
  let ?d2 = "?d1([''.'', ''key''] \<mapsto> File ''secret'' 3)"
  obtain r w where m: "media_prepare ?st ''a.txt'' ((example_world ?d1)\<lparr>disk := ?d1\<rparr>) = (r, w)"
    by (cases "media_prepare ?st ''a.txt'' ((example_world ?d1)\<lparr>disk := ?d1\<rparr>)")
  have same: "(example_world ?d1)\<lparr>disk := ?d1\<rparr> = example_world ?d1"
    by (simp add: example_world_def world.defs web.defs)
  have root: "media_root ?st = ''./media''" by code_simp
  have res: "resolve ?d1 (media_root ?st) = Some [''.'', ''media'']" "resolve ?d2 (media_root ?st) = Some [''.'', ''media'']"
    unfolding root by code_simp+
  have agree: "?d1 p = ?d2 p" if "below [''.'', ''media''] p" for p
    using that by (auto simp: below_def)
  have nul: "CHR 0x00 \<notin> set (document_root ?st)" by (simp add: example_site_def)
  note served = media_stays_in_its_directory[OF res agree nul m]
  show ?thesis unfolding Let_def m[unfolded same] case_prod_conv by (rule served)
qed

section \<open>Ranges are not cut\<close>

lemma scan_ulong_dec:
  assumes "n < 2 ^ 64" "r = [] \<or> \<not> is_digit (hd r)"
  shows "scan_ulong (dec_nat n @ r) = Some (word_of_nat n, r)"
proof -
  have d: "takeWhile is_digit (dec_nat n @ r) = dec_nat n"
    using dec_nat_digits[of n] assms(2) by (cases r) (auto simp: takeWhile_append list_all_iff)
  have v: "digits_val (dec_nat n @ r) = int n"
    using d by (simp add: digits_val_def dec_nat_foldl)
  obtain c u where c: "dec_nat n = c # u" "is_digit c"
    using dec_nat_not_Nil[of n] dec_nat_digits[of n] by (cases "dec_nat n") auto
  have "dropWhile is_space (dec_nat n @ r) = dec_nat n @ r"
    using c is_digit_not_space[of c] by simp
  moreover have "hd (dec_nat n @ r) \<noteq> CHR ''-''" "hd (dec_nat n @ r) \<noteq> CHR ''+''"
    using c is_digit_not_sign[of c] by auto
  ultimately show ?thesis using assms(1) d v c(1) by (simp add: scan_ulong_def Let_def)
qed

lemma scan_range_dec:
  assumes "0 \<le> b" "b < 2 ^ 64" "0 \<le> e" "e < 2 ^ 64"
  shows "scan_range (''bytes='' @ dec b @ ''-'' @ dec e) x = (word_of_int b, word_of_int e)"
proof -
  have "dec b = dec_nat (nat b)" "dec e = dec_nat (nat e)" using assms by (simp_all add: dec_def)
  moreover have "scan_ulong (dec_nat (nat b) @ ''-'' @ dec_nat (nat e)) = Some (word_of_int b, ''-'' @ dec_nat (nat e))"
    using scan_ulong_dec[of "nat b" "''-'' @ dec_nat (nat e)"] assms by (simp add: is_digit_def less_eq_char_def nat_less_iff)
  moreover have "scan_ulong (dec_nat (nat e)) = Some (word_of_int e, [])"
    using scan_ulong_dec[of "nat e" "[]"] assms by (simp add: nat_less_iff)
  ultimately show ?thesis
    unfolding scan_range_def by (simp only: starts_with_append) (simp split: prod.split)
qed

lemma out_response:
  "out e w = (Inr (), w') \<Longrightarrow>
     rsp w' = (if ostream_requested (rsp w) then rsp w else out_send (out_prepare (rsp w)))"
  by (auto simp: out_def andThen_def on_response_def changes_def in_session_def split: if_splits prod.splits sum.splits)

lemma put_out_effect:
  assumes "put_out e s w = (Inr (), w')"
  shows "body (rsp w') = body (rsp w) @ s \<and>
    get_header ''Content-Length'' (rsp w') = get_header ''Content-Length'' (rsp w)"
proof -
  obtain w1 where w1: "out e w = (Inr (), w1)" "rsp w' = write_out s (rsp w1)"
    using assms by (auto simp: put_out_def andThen_def on_response_def changes_def split: prod.splits sum.splits)
  have "compare_nocase ''Content-Length'' ''Content-Encoding'' \<noteq> 0" by code_simp
  then have "get_header ''Content-Length'' (set_header ''Content-Encoding'' v r) = get_header ''Content-Length'' r" for v r
    by (simp add: get_set_header)
  then show ?thesis
    using out_response[OF w1(1)] w1(2)
    by (auto simp: write_out_def out_send_def out_prepare_def content_encoding_def get_header_def)
qed

lemma send_file_effect:
  assumes s: "send_file st f n w = (Inr (), w')"
    and be: "(b, e) = (if http_range st = [] then (0, word_of_int (st_size n) - 1)
                       else scan_range (http_range st) (0, word_of_int (st_size n) - 1))"
  shows "body (rsp w') = body (rsp w) @ from_position b (content_of n) \<and>
    get_header ''Content-Length'' (rsp w') = dec (uint (e - b + 1))"
proof -
  let ?len = "e - b + 1"
  have names: "compare_nocase ''Content-Length'' h \<noteq> 0"
    if "h \<in> set [''Accept-Ranges'', ''Cache-Control'', ''Age'', ''Date'', ''Last-Modified'', ''Expires'',
      ''Vary'', ''ETag'', ''Status'']" for h
  proof -
    have "list_all (\<lambda>h. compare_nocase ''Content-Length'' h \<noteq> 0)
      [''Accept-Ranges'', ''Cache-Control'', ''Age'', ''Date'', ''Last-Modified'', ''Expires'', ''Vary'', ''ETag'', ''Status'']"
      by code_simp
    then show ?thesis using that unfolding list_all_iff by blast
  qed
  define g where "g r = (if ?len \<noteq> word_of_int (st_size n) then status 206 else id)
    (etag (file_etag n) (vary ''Accept-Encoding'' (date_headers (http_time (req st)) (now (req st)) (st_mtime n)
      (now (req st) + 604800) (age_header 86400 (cache_control ''max-age=604800'' (accept_ranges ''bytes''
      (content_length (uint ?len)
        ((if http_range st = [] then id else content_range
           (''bytes '' @ dec (f b) @ ''-'' @ dec (f e) @ ''/'' @ dec (st_size n))) r))))))))" for r
  have "send_file st f n w = put_out (req st) (from_position b (content_of n)) (w\<lparr>rsp := g (rsp w)\<rparr>)"
    unfolding send_file_def Let_def be[symmetric]
    by (simp add: andThen_def on_response_def changes_def g_def)
  then have p: "put_out (req st) (from_position b (content_of n)) (w\<lparr>rsp := g (rsp w)\<rparr>) = (Inr (), w')"
    using s by simp
  have "uint ?len mod 18446744073709551616 = uint ?len" using uint_bounded[of ?len] by simp
  then have "get_header ''Content-Length'' (g (rsp w)) = dec (uint ?len)"
    using names
    by (simp add: g_def get_set_header status_def etag_def vary_def date_headers_def age_header_def
        cache_control_def accept_ranges_def content_length_def compare_nocase_eq_0)
  moreover have "body (g (rsp w)) = body (rsp w)"
    by (simp add: g_def status_def etag_def vary_def date_headers_def age_header_def
        cache_control_def accept_ranges_def content_length_def content_range_def)
  ultimately show ?thesis using put_out_effect[OF p] by simp
qed

text \<open>
  Property C40. A file asked for without a range is sent whole, with its length. Asked for the bytes
  from \<open>b\<close> to \<open>e\<close>, the program announces \<open>e - b + 1\<close> bytes but sends everything from \<open>b\<close> to the end
  of the file: more than it announced, unless \<open>e\<close> is the last byte.
\<close>

theorem range_runs_to_the_end:
  assumes "media_prepare st path w = (Inr (), w')" "find_str ''..'' path = None"
    and "lstat (disk w) (media_root st @ ''/'' @ path) = Some (File s t)" "int (length s) < 2 ^ 63"
  shows "(http_range st = [] \<longrightarrow>
      body (rsp w') = body (rsp w) @ s \<and> get_header ''Content-Length'' (rsp w') = dec (int (length s))) \<and>
    (\<forall>b e. http_range st = ''bytes='' @ dec b @ ''-'' @ dec e \<and> 0 \<le> b \<and> b \<le> e \<and> e < int (length s) \<longrightarrow>
      body (rsp w') = body (rsp w) @ drop (nat b) s \<and>
      get_header ''Content-Length'' (rsp w') = dec (e - b + 1) \<and>
      (e < int (length s) - 1 \<longrightarrow> e - b + 1 < int (length (drop (nat b) s))))"
proof -
  let ?w = "w\<lparr>rsp := content_type (media_type path) (rsp w)\<rparr>"
  have send: "send_file st sint (File s t) ?w = (Inr (), w')"
    using assms(1-3) by (simp add: media_prepare_def andThen_def on_response_def changes_def reads_apply)
  have b0: "body (rsp ?w) = body (rsp w)" by (simp add: content_type_def)
  note effect = send_file_effect[OF send, unfolded b0]
  have whole: "body (rsp w') = body (rsp w) @ s \<and> get_header ''Content-Length'' (rsp w') = dec (int (length s))"
    if "http_range st = []"
  proof -
    have "uint (word_of_int (int (length s)) :: 64 word) = int (length s)"
      using assms(4) by (simp only: uint_word_of_int) simp
    then show ?thesis
      using effect[of 0 "word_of_int (int (length s)) - 1"] that
      by (simp add: from_position_def content_of_def st_size_def)
  qed
  have part: "body (rsp w') = body (rsp w) @ drop (nat b) s \<and> get_header ''Content-Length'' (rsp w') = dec (e - b + 1)"
    if "http_range st = ''bytes='' @ dec b @ ''-'' @ dec e" "0 \<le> b" "b \<le> e" "e < int (length s)" for b e
  proof -
    have r: "scan_range (http_range st) x = (word_of_int b, word_of_int e)" for x
      unfolding that(1) using that assms(4) by (intro scan_range_dec) auto
    have "http_range st \<noteq> []" by (simp add: that(1))
    from effect[of "word_of_int b" "word_of_int e"] this r
    have ef: "body (rsp w') = body (rsp w) @ from_position (word_of_int b) s"
      "get_header ''Content-Length'' (rsp w') = dec (uint (word_of_int e - word_of_int b + 1 :: 64 word))"
      by (simp_all add: content_of_def)
    have "sint (word_of_int b :: 64 word) = b"
      using that assms(4) by (simp only: signed_of_int) (simp add: signed_take_bit_int_eq_self)
    moreover have "word_of_int e - word_of_int b + 1 = (word_of_int (e - b + 1) :: 64 word)" by simp
    moreover have "uint (word_of_int (e - b + 1) :: 64 word) = e - b + 1"
      using that assms(4) by (simp only: uint_word_of_int) simp
    ultimately show ?thesis using ef that(2) by (simp add: from_position_def)
  qed
  show ?thesis using whole part by auto
qed

lemma media_returns:
  assumes "ostream_requested (rsp w)" "find_str ''..'' path = None"
    "lstat (disk w) (media_root st @ ''/'' @ path) = Some n"
  shows "fst (media_prepare st path w) = Inr ()"
proof -
  have "fst (send_file st sint n w) = Inr ()" if "ostream_requested (rsp w)" for w :: world
    using that unfolding send_file_def Let_def split_beta
    by (simp add: andThen_def on_response_def changes_def put_out_def out_def status_def etag_def vary_def
        date_headers_def age_header_def cache_control_def accept_ranges_def content_length_def content_range_def)
  then show ?thesis
    using assms by (simp add: media_prepare_def andThen_def on_response_def changes_def reads_apply content_type_def)
qed

lemma range_runs_to_the_end_witness:
  "let st = example_site ((example_env ''GET'' [])\<lparr>header := (\<lambda>_. ''bytes=1-2'')\<rparr>);
       w0 = (example_world (example_disk [(''a.txt'', File ''text!'' 3)]))\<lparr>rsp := example_response\<lparr>ostream_requested := True\<rparr>\<rparr>;
       w = snd (media_prepare st ''a.txt'' w0)
   in get_header ''Content-Length'' (rsp w) = dec 2 \<and> body (rsp w) = ''ext!''"
proof -
  let ?st = "example_site ((example_env ''GET'' [])\<lparr>header := (\<lambda>_. ''bytes=1-2'')\<rparr>)"
  let ?w = "(example_world (example_disk [(''a.txt'', File ''text!'' 3)]))\<lparr>rsp := example_response\<lparr>ostream_requested := True\<rparr>\<rparr>"
  have f: "find_str ''..'' ''a.txt'' = None"
    "lstat (disk ?w) (media_root ?st @ ''/'' @ ''a.txt'') = Some (File ''text!'' 3)" "body (rsp ?w) = []"
    "ostream_requested (rsp ?w)"
    by code_simp+
  obtain w' where m: "media_prepare ?st ''a.txt'' ?w = (Inr (), w')"
    using media_returns[OF f(4,1,2)] by (cases "media_prepare ?st ''a.txt'' ?w") simp
  have "http_range ?st = ''bytes='' @ dec 1 @ ''-'' @ dec 2" by code_simp
  then show ?thesis
    using range_runs_to_the_end[OF m f(1,2)] f(3) by (fastforce simp: Let_def m)
qed

section \<open>Digests of files\<close>

lemma concat_pieces: "concat (pieces s) = s \<and> (\<forall>p\<in>set (pieces s). length p \<le> 2048)"
proof (induction s rule: pieces.induct)
  case (1 s)
  then show ?case by (subst (1 2) pieces.simps) auto
qed

lemma digest_pieces_has:
  assumes "is_md5 d = is_md5 c \<and> digest_has d m"
  shows "is_md5 (digest_pieces s d) = is_md5 c \<and> digest_has (digest_pieces s d) (m @ s)"
proof -
  have "\<forall>p\<in>set (pieces s). digest_fits c p" using concat_pieces[of s] by (fastforce simp: digest_fits_def)
  from by_class.pieces[OF assms this] show ?thesis using concat_pieces[of s] by (simp add: digest_pieces_def)
qed

lemma digest_files_has:
  "is_md5 d = is_md5 c \<and> digest_has d m \<Longrightarrow>
     is_md5 (fold digest_pieces xs d) = is_md5 c \<and> digest_has (fold digest_pieces xs d) (m @ concat xs)"
proof (induction xs arbitrary: d m)
  case (Cons x xs)
  then show ?case using Cons.IH[OF digest_pieces_has[OF Cons.prems, of x]] by simp
qed simp

lemma md5_of_files:
  assumes "length g = 64"
  shows "fst (digest_readout (fold digest_pieces xs (Md5_digets (md5_init g)))) = md5_spec (concat xs)"
proof -
  let ?d = "Md5_digets (md5_init g)"
  have "is_md5 ?d = is_md5 ?d \<and> digest_has ?d []" using md5_init_has[OF assms] by simp
  from by_class.readout[OF digest_files_has[OF this, of xs]] show ?thesis by simp
qed

section \<open>Files of one directory\<close>

definition same_dirs :: "fs \<Rightarrow> fs \<Rightarrow> bool" where
  "same_dirs fs fs' \<longleftrightarrow> (\<forall>p. is_dir fs' p = is_dir fs p)"

lemma same_dirs_walk: "same_dirs fs fs' \<Longrightarrow> walk fs' cur cs = walk fs cur cs"
  by (induction fs cur cs rule: walk.induct) (auto simp: same_dirs_def split: option.split)

lemma same_dirs_resolve: "same_dirs fs fs' \<Longrightarrow> resolve fs' name = resolve fs name"
  by (simp add: resolve_def Let_def same_dirs_walk)

lemma same_dirs_trans: "same_dirs a b \<Longrightarrow> same_dirs b c \<Longrightarrow> same_dirs a c"
  by (simp add: same_dirs_def)

lemma read_file_iff: "read_file fs name = Some s \<longleftrightarrow> (\<exists>p t. resolve fs name = Some p \<and> node_at fs p = Some (File s t))"
  by (auto simp: read_file_def lstat_def bind_eq_Some_conv split: option.splits node.splits)

lemma node_file: "node_at fs p = Some (File s t) \<longleftrightarrow> p \<noteq> [] \<and> p \<noteq> [''.''] \<and> fs p = Some (File s t)"
  by (simp add: node_at_def)

lemma write_file_effect:
  assumes "write_file t name s fs = (True, fs')"
  shows "\<exists>p. resolve fs name = Some p \<and> fs' = fs(p \<mapsto> File s t) \<and> same_dirs fs fs' \<and> node_at fs' p = Some (File s t)"
  using assms by (auto simp: write_file_def same_dirs_def is_dir_def node_file split: option.splits if_splits)

lemma write_read: "write_file t name s fs = (True, fs') \<Longrightarrow> read_file fs' name = Some s"
  using write_file_effect[of t name s fs fs'] same_dirs_resolve[of fs fs' name] by (auto simp: read_file_iff)

lemma unlink_effect:
  assumes "resolve fs name = Some p" "node_at fs p = Some (File s t)"
  shows "unlink_file name fs = fs(p := None)" "same_dirs fs (fs(p := None))" "\<not> access (fs(p := None)) name"
proof -
  show "unlink_file name fs = fs(p := None)" using assms by (simp add: unlink_file_def)
  show d: "same_dirs fs (fs(p := None))" using assms(2) by (auto simp: same_dirs_def is_dir_def node_file)
  show "\<not> access (fs(p := None)) name"
    using assms(1) assms(2)[unfolded node_file] same_dirs_resolve[OF d, of name]
    by (simp add: access_def lstat_def node_at_def)
qed

lemma components_suffix:
  "CHR ''/'' \<notin> set x \<Longrightarrow> components p (b @ x) = butlast (components p b) @ [last (components p b) @ x]"
proof (induction p b rule: components.induct)
  case (1 p)
  then show ?case by (induction x arbitrary: p) auto
next
  case (2 p c b)
  have ne: "components q s \<noteq> []" for q s by (induction q s rule: components.induct) auto
  show ?case using 2 by (simp add: ne)
qed

text \<open>Names that differ in what follows the last slash are different places of one directory.\<close>

definition plain_name :: "string \<Rightarrow> bool" where
  "plain_name x \<longleftrightarrow> CHR ''/'' \<notin> set x \<and> CHR 0x00 \<notin> set x"

lemma resolve_leaf:
  assumes b: "CHR 0x00 \<notin> set b" "b \<noteq> []" "CHR ''-'' \<in> set (last (components [] b))" and x: "plain_name x"
  shows "resolve fs (b @ x) =
    Option.bind (walk fs (if hd b = CHR ''/'' then [] else [''.'']) (butlast (components [] b)))
      (\<lambda>q. if is_dir fs q then Some (q @ [last (components [] b) @ x]) else None)"
proof -
  let ?l = "last (components [] b) @ x"
  have t: "takeWhile (\<lambda>c. c \<noteq> CHR 0x00) (b @ x) = b @ x"
    using b(1) x by (auto simp: plain_name_def takeWhile_eq_all_conv)
  have "?l \<noteq> []" "?l \<noteq> ''.''" "?l \<noteq> ''..''" using b(3) by (auto simp: append_eq_Cons_conv)
  then have "walk fs q [?l] = (if is_dir fs q then Some (q @ [?l]) else None)" for q
    unfolding walk.simps by (simp only: if_False simp_thms) simp
  then show ?thesis
    using b(2) x unfolding resolve_def t Let_def
    by (simp add: components_suffix plain_name_def walk_append)
qed

lemma resolve_leaf_inj:
  assumes b: "CHR 0x00 \<notin> set b" "b \<noteq> []" "CHR ''-'' \<in> set (last (components [] b))"
    and "plain_name x" "plain_name y" "resolve fs (b @ x) = Some p" "resolve fs (b @ y) = Some p"
  shows "x = y"
  using assms(6,7) unfolding resolve_leaf[OF b assms(4)] resolve_leaf[OF b assms(5)]
  by (auto simp: bind_eq_Some_conv split: if_splits)

lemma part_suffix: "plain_name (''-'' @ dec (int i) @ ''.part'')"
proof -
  have "\<forall>c\<in>set (dec_nat i). is_digit c" using dec_nat_digits[of i] by (simp add: list_all_iff)
  then have "CHR ''/'' \<notin> set (dec_nat i)" "CHR 0x00 \<notin> set (dec_nat i)"
    by (auto simp: is_digit_def less_eq_char_def)
  then show ?thesis by (simp add: plain_name_def dec_def)
qed

definition upload_name :: "string \<Rightarrow> bool" where
  "upload_name b \<longleftrightarrow> CHR 0x00 \<notin> set b \<and> b \<noteq> [] \<and> CHR ''-'' \<in> set (last (components [] b))"

lemma parts_differ:
  assumes "upload_name b" "resolve fs (part_path b i) = Some p" "resolve fs (part_path b j) = Some p"
  shows "i = j"
proof -
  have "''-'' @ dec (int i) @ ''.part'' = ''-'' @ dec (int j) @ ''.part''"
    using resolve_leaf_inj[OF _ _ _ part_suffix part_suffix] assms
    unfolding upload_name_def part_path_def by blast
  then show ?thesis by simp
qed

lemma part_is_not_file:
  assumes "upload_name b" "plain_name ext" "hd ext = CHR ''.''" "ext \<noteq> []"
    "resolve fs (b @ ext) = Some p" "resolve fs (part_path b j) = Some p"
  shows False
proof -
  have "ext = ''-'' @ dec (int j) @ ''.part''"
    using resolve_leaf_inj[OF _ _ _ assms(2) part_suffix] assms
    unfolding upload_name_def part_path_def by blast
  then show False using assms(3) by simp
qed

section \<open>Joining the parts\<close>

lemma join_parts_spec:
  assumes "upload_name b" "length xs = n" "\<And>i. i < n \<Longrightarrow> read_file fs (part_path b (k + i)) = Some (xs ! i)"
  shows "\<exists>fs'. join_parts b k n (acc, d, fs) = Some (acc @ concat xs, fold digest_pieces xs d, fs') \<and>
    same_dirs fs fs' \<and> (\<forall>i<n. \<not> access fs' (part_path b (k + i))) \<and>
    (\<forall>p. (\<forall>i<n. resolve fs (part_path b (k + i)) \<noteq> Some p) \<longrightarrow> fs' p = fs p)"
  using assms(2,3)
proof (induction n arbitrary: k xs acc d fs)
  case 0
  then show ?case by (simp add: same_dirs_def)
next
  case (Suc n)
  let ?part = "part_path b k"
  obtain x ys where xs: "xs = x # ys" "length ys = n" using Suc.prems(1) by (cases xs) auto
  have "read_file fs ?part = Some x" using Suc.prems(2)[of 0] xs(1) by simp
  then obtain p t where p: "resolve fs ?part = Some p" "node_at fs p = Some (File x t)" by (auto simp: read_file_iff)
  let ?fs = "fs(p := None)"
  note u = unlink_effect[OF p]
  have res: "resolve ?fs name = resolve fs name" for name by (rule same_dirs_resolve[OF u(2)])
  have rest: "read_file ?fs (part_path b (k + 1 + i)) = Some (ys ! i)" if i: "i < n" for i
  proof -
    have "read_file fs (part_path b (k + 1 + i)) = Some (ys ! i)"
      using Suc.prems(2)[of "Suc i"] i xs(1) by simp
    then obtain q t' where q: "resolve fs (part_path b (k + 1 + i)) = Some q" "node_at fs q = Some (File (ys ! i) t')"
      by (auto simp: read_file_iff)
    have "q \<noteq> p" using parts_differ[OF assms(1) p(1), of "k + 1 + i"] q(1) by auto
    then show ?thesis using q res by (auto simp: read_file_iff node_file)
  qed
  obtain fs' where fs': "join_parts b (k + 1) n (acc @ x, digest_pieces x d, ?fs) =
      Some ((acc @ x) @ concat ys, fold digest_pieces ys (digest_pieces x d), fs')"
    "same_dirs ?fs fs'" "\<forall>i<n. \<not> access fs' (part_path b (k + 1 + i))"
    "\<forall>p. (\<forall>i<n. resolve ?fs (part_path b (k + 1 + i)) \<noteq> Some p) \<longrightarrow> fs' p = ?fs p"
    using Suc.IH[OF xs(2) rest, of "acc @ x" "digest_pieces x d"] by blast
  have same: "same_dirs fs fs'" by (rule same_dirs_trans[OF u(2) fs'(2)])
  have first: "\<not> access fs' ?part"
  proof -
    have "fs' p = ?fs p" using fs'(4) parts_differ[OF assms(1) p(1)] res by fastforce
    then show ?thesis
      using same_dirs_resolve[OF same, of ?part] p(1) p(2)[unfolded node_file]
      by (simp add: access_def lstat_def node_at_def)
  qed
  have gone: "\<not> access fs' (part_path b (k + i))" if "i < Suc n" for i
    using that first fs'(3) by (cases i) auto
  have kept: "fs' r = fs r" if r: "\<forall>i<Suc n. resolve fs (part_path b (k + i)) \<noteq> Some r" for r
  proof -
    have "r \<noteq> p" using r[rule_format, of 0] p(1) by auto
    moreover have "\<forall>i<n. resolve ?fs (part_path b (k + 1 + i)) \<noteq> Some r"
    proof (intro allI impI)
      fix i assume "i < n"
      then show "resolve ?fs (part_path b (k + 1 + i)) \<noteq> Some r" using r[rule_format, of "Suc i"] res by simp
    qed
    ultimately show ?thesis using fs'(4) by auto
  qed
  show ?case
    using fs'(1) same gone kept \<open>read_file fs ?part = Some x\<close> u(1) xs(1) by simp
qed

text \<open>
  Property C21. The last part of an upload that arrives makes the file: when all parts are there, the
  handler writes to the file what the parts hold in the order of their numbers, whatever the order
  they arrived in, removes the parts, and gives the MD5 digest of the whole.
\<close>

theorem parts_are_joined_in_order:
  assumes "assemble st (b @ ext) b n (Md5_digets (md5_init (garbage st))) w = (Inr d, w')"
    and name: "upload_name b" "plain_name ext" "ext \<noteq> []" "hd ext = CHR ''.''"
    and opened: "fst (write_file (now (req st)) (b @ ext) [] (disk w))"
    and parts: "length xs = n" "\<And>i. i < n \<Longrightarrow> read_file (disk w) (part_path b i) = Some (xs ! i)"
    and g: "length (garbage st) = 64"
  shows "read_file (disk w') (b @ ext) = Some (concat xs) \<and>
    fst (digest_readout d) = md5_spec (concat xs) \<and> (\<forall>i<n. \<not> access (disk w') (part_path b i))"
proof -
  let ?md5 = "Md5_digets (md5_init (garbage st))"
  obtain fs1 where fs1: "write_file (now (req st)) (b @ ext) [] (disk w) = (True, fs1)"
    using opened by (cases "write_file (now (req st)) (b @ ext) [] (disk w)") auto
  obtain p where p: "resolve (disk w) (b @ ext) = Some p" "fs1 = (disk w)(p \<mapsto> File [] (now (req st)))"
    "same_dirs (disk w) fs1" "node_at fs1 p = Some (File [] (now (req st)))"
    using write_file_effect[OF fs1] by blast
  have part: "read_file fs1 (part_path b (0 + i)) = Some (xs ! i)" if i: "i < n" for i
  proof -
    obtain q t where q: "resolve (disk w) (part_path b i) = Some q" "node_at (disk w) q = Some (File (xs ! i) t)"
      using parts(2)[OF i] by (auto simp: read_file_iff)
    have "q \<noteq> p" using part_is_not_file[OF name(1,2,4,3) p(1)] q(1) by auto
    then show ?thesis using q same_dirs_resolve[OF p(3)] by (auto simp: read_file_iff node_file p(2))
  qed
  obtain fs2 where fs2: "join_parts b 0 n ([], ?md5, fs1) = Some (concat xs, fold digest_pieces xs ?md5, fs2)"
    "same_dirs fs1 fs2" "\<forall>i<n. \<not> access fs2 (part_path b i)"
    "\<forall>r. (\<forall>i<n. resolve fs1 (part_path b i) \<noteq> Some r) \<longrightarrow> fs2 r = fs1 r"
    using join_parts_spec[OF name(1) parts(1) part, of "[]" ?md5] by auto
  obtain ok fs3 where fs3: "write_file (now (req st)) (b @ ext) (concat xs) fs2 = (ok, fs3)"
    by (cases "write_file (now (req st)) (b @ ext) (concat xs) fs2")
  have same: "same_dirs (disk w) fs2" by (rule same_dirs_trans[OF p(3) fs2(2)])
  have ok: ok
    using fs1 fs3 same same_dirs_resolve[OF same, of "b @ ext"]
    by (auto simp: write_file_def same_dirs_def split: option.splits if_splits)
  have w': "d = fold digest_pieces xs ?md5" "disk w' = fs3"
    using assms(1) by (auto simp: assemble_def fs1 fs2(1) fs3)
  have "read_file fs3 (b @ ext) = Some (concat xs)" 
    using write_read[of _ _ _ fs2 fs3] fs3 ok by simp
  moreover have "\<not> access fs3 (part_path b i)" if i: "i < n" for i
  proof -
    obtain q where q: "resolve fs2 (b @ ext) = Some q" "fs3 = fs2(q \<mapsto> File (concat xs) (now (req st)))" "same_dirs fs2 fs3"
      using write_file_effect[of "now (req st)" "b @ ext" "concat xs" fs2 fs3] fs3 ok by auto
    have "resolve fs2 (part_path b i) \<noteq> Some q" using part_is_not_file[OF name(1,2,4,3) q(1)] by blast
    then show ?thesis
      using fs2(3) i same_dirs_resolve[OF q(3), of "part_path b i"]
      by (auto simp: access_def lstat_def node_at_def q(2) bind_eq_Some_conv split: if_splits)
  qed
  ultimately show ?thesis unfolding w' using md5_of_files[OF g] by simp
qed

lemma parts_are_joined_in_order_witness:
  "\<exists>d w. assemble (example_site (example_env ''POST'' [])) ''./media/u-4.txt'' ''./media/u-4'' 2
       (Md5_digets (md5_init (replicate 64 (CHR 0x00))))
       (example_world (example_disk [(''u-4-1.part'', File ''cd'' 3), (''u-4-0.part'', File ''ab'' 4)])) = (Inr d, w) \<and>
     read_file (disk w) ''./media/u-4.txt'' = Some ''abcd'' \<and> fst (digest_readout d) = md5_spec ''abcd''"
proof -
  let ?st = "example_site (example_env ''POST'' [])"
  let ?w = "example_world (example_disk [(''u-4-1.part'', File ''cd'' 3), (''u-4-0.part'', File ''ab'' 4)])"
  let ?run = "assemble ?st (''./media/u-4'' @ ''.txt'') ''./media/u-4'' 2 (Md5_digets (md5_init (garbage ?st))) ?w"
  have "case fst ?run of Inl _ \<Rightarrow> False | Inr _ \<Rightarrow> True" by code_simp
  then obtain d w where run: "?run = (Inr d, w)" by (cases ?run; cases "fst ?run") auto
  have n: "upload_name ''./media/u-4''" "plain_name ''.txt''" by code_simp+
  have o: "fst (write_file (now (req ?st)) (''./media/u-4'' @ ''.txt'') [] (disk ?w))" by code_simp
  have "read_file (disk ?w) (part_path ''./media/u-4'' 0) = Some ''ab''"
    "read_file (disk ?w) (part_path ''./media/u-4'' 1) = Some ''cd''" by code_simp+
  then have p: "read_file (disk ?w) (part_path ''./media/u-4'' i) = Some ([''ab'', ''cd''] ! i)" if "i < 2" for i
    using that by (cases i) (auto simp: less_Suc_eq numeral_2_eq_2)
  have "garbage ?st = replicate 64 (CHR 0x00)" by (simp add: example_site_def)
  then show ?thesis
    using parts_are_joined_in_order[OF run n _ _ o _ p] run by simp
qed

section \<open>Uploads are checked\<close>

lemma json_answer_disk: "json_answer st ms w = (r, w') \<Longrightarrow> disk w' = disk w"
  using blind_disk[OF blind_json, of st ms w] by simp

lemma receive_whole_result:
  assumes "receive_whole st fpath data w = (Inr d, w')" "length (garbage st) = 64"
  shows "read_file (disk w') fpath = Some data \<and> fst (digest_readout d) = md5_spec data"
proof -
  obtain w1 where w1: "save_to st fpath data w1 = (Inr (), w')"
    "d = digest_pieces data (Md5_digets (md5_init (garbage st))) \<or> read_file (disk w') fpath \<noteq> Some data"
    using assms(1) by (auto simp: receive_whole_def andThen_def reads_def throw_def ret_def
        split: prod.splits sum.splits option.splits)
  have "read_file (disk w') fpath = Some data"
    using w1(1) by (auto simp: save_to_def split: prod.splits bool.splits dest: write_read)
  then show ?thesis using w1(2) md5_of_files[OF assms(2), of "[data]"] by simp
qed

lemma check_upload_result:
  assumes "read_file (disk w) fpath = Some s" "length s < 2 ^ 64" "sz < 2 ^ 64"
  shows "\<exists>w'. check_upload st fpath md5 sz d w = (Inr (md5 = to_hex (fst (digest_readout d)) \<and> sz = length s), w') \<and>
    read_file (disk w') fpath = (if md5 = to_hex (fst (digest_readout d)) \<and> sz = length s then Some s else None)"
proof -
  let ?good = "md5 = to_hex (fst (digest_readout d)) \<and> sz = length s"
  obtain p t where p: "resolve (disk w) fpath = Some p" "node_at (disk w) p = Some (File s t)"
    using assms(1) by (auto simp: read_file_iff)
  have n: "lstat (disk w) fpath = Some (File s t)" using p by (simp add: lstat_def)
  have eq: "(word_of_int (int (length s)) :: 64 word) = word_of_nat sz \<longleftrightarrow> sz = length s"
  proof -
    have "(word_of_int (int (length s)) :: 64 word) = word_of_nat (length s)" by simp
    moreover have "unat (word_of_nat k :: 64 word) = k" if "k < 2 ^ 64" for k
      using that by (simp add: unsigned_of_nat take_bit_nat_eq_self)
    ultimately show ?thesis using assms(2,3) by metis
  qed
  show ?thesis
  proof (cases ?good)
    case True
    then show ?thesis
      using n eq assms(1) by (simp add: check_upload_def andThen_def reads_apply st_size_def)
  next
    case False
    have "\<not> access (unlink_file fpath (disk w)) fpath" using unlink_effect[OF p] by simp
    then have "read_file (unlink_file fpath (disk w)) fpath = None" by (simp add: read_file_def access_def)
    then show ?thesis
      using n eq False by (auto simp: check_upload_def andThen_def reads_apply st_size_def on_disk_def changes_def)
  qed
qed


lemma json_answer_returns:
  assumes "ostream_requested (rsp w)" "save_json (number_text st) False (fold (\<lambda>(k, x) v. set_member k x v) ms Undefined) = Some s"
  shows "fst (json_answer st ms w) = Inr ()"
  using assms by (simp add: json_answer_def Let_def andThen_def on_response_def changes_def out_def put_out_def set_content_header_def
      split: option.split)


end
