(* ===== verification/Url_Dispatcher.thy ===== *)
theory Url_Dispatcher
  imports Context
begin

text \<open>
  \<open>url_dispatcher.cpp\<close> with the matching of \<open>booster/lib/regex/src/pcre_regex.cpp\<close>: the options
  of a dispatcher in the order they were assigned, the first one whose expression matches the
  whole path is run. PCRE itself is the parameter \<open>pcre\<close>: for an expression and a subject the
  pairs of offsets \<open>pcre_exec\<close> stores (a group that took no part has start -1), or \<open>None\<close>.
\<close>

section \<open>Regular expressions\<close>

type_synonym pcre = "string \<Rightarrow> string \<Rightarrow> (int \<times> int) list option"

text \<open>The expression \<open>regex::assign\<close> compiles for matching.\<close>

definition anchored :: "string \<Rightarrow> string" where
  "anchored pattern = ''(?:'' @ pattern @ '')'' @ [CHR 0x5C] @ ''z''"

definition regex_marks :: "pcre \<Rightarrow> string \<Rightarrow> string \<Rightarrow> (int \<times> int) list option" where
  "regex_marks pcre pattern s =
     (case pcre (anchored pattern) s of
        None \<Rightarrow> None
      | Some [] \<Rightarrow> None
      | Some (m # ms) \<Rightarrow> if m \<noteq> (0, int (length s)) then None else Some (m # ms))"

text \<open>\<open>match_results::operator[]\<close> as a string: nothing for a group out of range or unmatched.\<close>

definition submatch :: "string \<Rightarrow> (int \<times> int) list \<Rightarrow> int \<Rightarrow> string" where
  "submatch s marks n =
     (if n < 0 \<or> n \<ge> int (length marks) then []
      else case marks ! nat n of
        (a, b) \<Rightarrow> if a = - 1 then [] else take (nat (b - a)) (drop (nat a) s))"

text \<open>What \<open>path.c_str()\<close> shows of a string.\<close>

definition c_str :: "string \<Rightarrow> string" where
  "c_str s = takeWhile (\<lambda>c. c \<noteq> CHR 0x00) s"

section \<open>Options\<close>

text \<open>
  A mounted application with the group that is its path; a handler with the groups that are
  its parameters; a generic handler, possibly for some methods only, which may decline.
\<close>

datatype 's route =
    Mounted string int "string \<Rightarrow> ('s, unit) action"
  | Handler string "int list" "string list \<Rightarrow> ('s, unit) action"
  | Generic "string option" string "(int \<Rightarrow> string) \<Rightarrow> ('s, bool) action"

definition method_matches :: "pcre \<Rightarrow> string option \<Rightarrow> string option \<Rightarrow> bool" where
  "method_matches pcre wanted given =
     (case wanted of
        None \<Rightarrow> True
      | Some m \<Rightarrow>
          (case given of
             None \<Rightarrow> False
           | Some g \<Rightarrow> if list_all is_upper m then m = c_str g else regex_marks pcre m (c_str g) \<noteq> None))"

definition expr_of :: "'s route \<Rightarrow> string" where
  "expr_of r = (case r of Mounted p _ _ \<Rightarrow> p | Handler p _ _ \<Rightarrow> p | Generic _ p _ \<Rightarrow> p)"

definition wanted_method :: "'s route \<Rightarrow> string option" where
  "wanted_method r = (case r of Generic m _ _ \<Rightarrow> m | _ \<Rightarrow> None)"

definition matches :: "pcre \<Rightarrow> string option \<Rightarrow> 's route \<Rightarrow> string \<Rightarrow> (int \<times> int) list option" where
  "matches pcre meth r path =
     (if method_matches pcre (wanted_method r) meth
      then regex_marks pcre (expr_of r) (c_str path) else None)"

definition run_route :: "'s route \<Rightarrow> (int \<Rightarrow> string) \<Rightarrow> ('s, bool) action" where
  "run_route r sub =
     (case r of
        Mounted _ select app \<Rightarrow> andThen (app (sub select)) (\<lambda>_. ret True)
      | Handler _ select h \<Rightarrow> andThen (h (map sub select)) (\<lambda>_. ret True)
      | Generic _ _ h \<Rightarrow> h sub)"

text \<open>Without a request (\<open>meth\<close> is \<open>None\<close>) there is no application and generic options decline.\<close>

definition try_route :: "pcre \<Rightarrow> string option \<Rightarrow> 's route \<Rightarrow> string \<Rightarrow> ('s, bool) action" where
  "try_route pcre meth r path =
     (if (case r of Generic _ _ _ \<Rightarrow> meth = None | _ \<Rightarrow> False) then ret False
      else
        case matches pcre meth r path of
          None \<Rightarrow> ret False
        | Some marks \<Rightarrow> run_route r (submatch (c_str path) marks))"

fun dispatch :: "pcre \<Rightarrow> string option \<Rightarrow> 's route list \<Rightarrow> string \<Rightarrow> ('s, bool) action" where
  "dispatch pcre meth [] path = ret False"
| "dispatch pcre meth (r # rs) path =
     andThen (try_route pcre meth r path) (\<lambda>done.
     if done then ret True else dispatch pcre meth rs path)"

text \<open>\<open>application::main\<close>.\<close>

definition application_main :: "env \<Rightarrow> pcre \<Rightarrow> 'z web_scheme route list \<Rightarrow> string \<Rightarrow> ('z web_scheme, unit) action" where
  "application_main e pcre routes path =
     andThen (dispatch pcre (Some (request_method e)) routes path) (\<lambda>found.
     if found then ret () else error_response e 404)"

section \<open>The first match is run\<close>

lemma andThen_ret_right [simp]: "andThen m ret = m"
  by (rule ext) (auto simp: andThen_def ret_def split: prod.split sum.split)

lemma andThen_done: "andThen (andThen m (\<lambda>_. ret True)) (\<lambda>d. if d then n else l) = andThen m (\<lambda>_. n)"
  by (rule ext) (auto simp: andThen_def ret_def split: prod.split sum.split)

lemma andThen_unit: "andThen m (\<lambda>_. ret ()) = m"
  by (rule ext) (auto simp: andThen_def ret_def split: prod.split sum.split)

lemma try_route_miss: "matches pcre meth r path = None \<Longrightarrow> try_route pcre meth r path = ret False"
  by (simp add: try_route_def)

lemma dispatch_skip:
  "(\<And>r. r \<in> set rs \<Longrightarrow> matches pcre meth r path = None) \<Longrightarrow>
     dispatch pcre meth (rs @ rs') path = dispatch pcre meth rs' path"
  by (induction rs) (simp_all add: try_route_miss)

lemma dispatch_none:
  "(\<And>r. r \<in> set rs \<Longrightarrow> matches pcre meth r path = None) \<Longrightarrow> dispatch pcre meth rs path = ret False"
  using dispatch_skip[where rs' = "[]" and rs = rs] by simp

lemma dispatch_keeps:
  assumes "\<And>r sub. r \<in> set rs \<Longrightarrow> keeps P (run_route r sub)"
  shows "keeps P (dispatch pcre meth rs path)"
  using assms
proof (induction rs)
  case (Cons r rs)
  have "keeps P (try_route pcre meth r path)"
    unfolding try_route_def by (intro keeps_intros Cons.prems) simp
  then show ?case using Cons by (auto intro!: keeps_intros)
qed (simp add: keeps_ret)


section \<open>A matcher for the expressions of the site\<close>

text \<open>
  The documented behaviour of PCRE on the small expressions the site's dispatchers use: single
  characters, greedy repetition of a class of characters, optional parts and groups, with
  backtracking; a match has to take the whole subject (\<open>\z\<close>). The last argument continues with
  the rest of the subject, its position and the groups closed so far.
\<close>

datatype rx =
    Eps
  | One "char \<Rightarrow> bool"
  | Many "char \<Rightarrow> bool"
  | Seq rx rx
  | Maybe rx
  | Group nat rx

type_synonym groups = "(nat \<times> int \<times> int) list"

primrec rx_many :: "(char \<Rightarrow> bool) \<Rightarrow> string \<Rightarrow> nat \<Rightarrow> (string \<Rightarrow> nat \<Rightarrow> groups option) \<Rightarrow> groups option" where
  "rx_many P [] i k = k [] i"
| "rx_many P (c # s) i k =
     (if P c then (case rx_many P s (i + 1) k of Some x \<Rightarrow> Some x | None \<Rightarrow> k (c # s) i)
      else k (c # s) i)"

primrec rx_run ::
    "rx \<Rightarrow> string \<Rightarrow> nat \<Rightarrow> groups \<Rightarrow> (string \<Rightarrow> nat \<Rightarrow> groups \<Rightarrow> groups option) \<Rightarrow> groups option" where
  "rx_run Eps s i g k = k s i g"
| "rx_run (One P) s i g k = (case s of [] \<Rightarrow> None | c # r \<Rightarrow> if P c then k r (i + 1) g else None)"
| "rx_run (Many P) s i g k = rx_many P s i (\<lambda>s i. k s i g)"
| "rx_run (Seq a b) s i g k = rx_run a s i g (\<lambda>s i g. rx_run b s i g k)"
| "rx_run (Maybe a) s i g k = (case rx_run a s i g k of Some x \<Rightarrow> Some x | None \<Rightarrow> k s i g)"
| "rx_run (Group n a) s i g k = rx_run a s i g (\<lambda>s' i' g'. k s' i' ((n, int i, int i') # g'))"

definition rx_exec :: "rx \<Rightarrow> nat \<Rightarrow> string \<Rightarrow> (int \<times> int) list option" where
  "rx_exec r n s =
     (case rx_run r s 0 [] (\<lambda>s i g. if s = [] then Some g else None) of
        None \<Rightarrow> None
      | Some g \<Rightarrow> Some ((0, int (length s)) #
          map (\<lambda>j. case map_of g j of Some m \<Rightarrow> m | None \<Rightarrow> (- 1, - 1)) [1..<Suc n]))"

definition pcre_documented :: "(string \<times> rx \<times> nat) list \<Rightarrow> pcre \<Rightarrow> bool" where
  "pcre_documented table pcre \<longleftrightarrow> (\<forall>(p, r, n) \<in> set table. pcre (anchored p) = rx_exec r n)"

definition table_pcre :: "(string \<times> rx \<times> nat) list \<Rightarrow> pcre" where
  "table_pcre table q s =
     (case find (\<lambda>(p, r, n). anchored p = q) table of None \<Rightarrow> None | Some (p, r, n) \<Rightarrow> rx_exec r n s)"

lemma regex_marks_documented:
  assumes "pcre_documented table pcre" "(p, r, n) \<in> set table"
  shows "regex_marks pcre p s = rx_exec r n s"
proof -
  have "pcre (anchored p) = rx_exec r n" using assms unfolding pcre_documented_def by fastforce
  then show ?thesis by (auto simp: regex_marks_def rx_exec_def split: option.split)
qed

section \<open>An example\<close>

definition char_is :: "char \<Rightarrow> rx" where
  "char_is c = One (\<lambda>d. d = c)"

definition example_table :: "(string \<times> rx \<times> nat) list" where
  "example_table =
     [(''/new'', Seq (char_is (CHR ''/'')) (Seq (char_is (CHR ''n'')) (Seq (char_is (CHR ''e'')) (char_is (CHR ''w'')))), 0),
      (''/(d+)'', Seq (char_is (CHR ''/'')) (Group 1 (Seq (One is_digit) (Many is_digit))), 1)]"


end
