(* ===== verification/Routes.thy ===== *)
theory Routes
  imports Media Url_Dispatcher
begin

text \<open>
  How a path becomes a handler: the dispatchers the constructors of the applications fill
  (\<open>apps/main.cpp\<close>, \<open>apps/blog/*.cpp\<close>, \<open>apps/feed/feed.cpp\<close>, \<open>apps/admin/*.cpp\<close>, \<open>apps/config.cpp\<close>,
  \<open>apps/media.cpp\<close>), mounted as the code mounts them, and the whole request.
\<close>

section \<open>Expressions\<close>

text \<open>The expressions of the site, with the documented meaning of each; \<open>.\<close> matches no line end.\<close>

definition number_expr :: string where
  "number_expr = ''('' @ [CHR 0x5C] @ ''d+)''"

definition lit :: "string \<Rightarrow> rx" where
  "lit s = foldr (\<lambda>c r. Seq (char_is c) r) s Eps"

definition any_char :: "char \<Rightarrow> bool" where
  "any_char c \<longleftrightarrow> c \<noteq> CHR 10"

definition digits_rx :: "nat \<Rightarrow> rx" where
  "digits_rx n = Group n (Seq (One is_digit) (Many is_digit))"

text \<open>\<open>((/.*)?)\<close>, \<open>((/?.*))\<close>, \<open>(/.+)\<close> and an optional last slash.\<close>

definition below_rx :: rx where
  "below_rx = Group 1 (Maybe (Group 2 (Seq (char_is (CHR ''/'')) (Many any_char))))"

definition rest_rx :: rx where
  "rest_rx = Group 1 (Group 2 (Seq (Maybe (char_is (CHR ''/''))) (Many any_char)))"

definition some_rx :: rx where
  "some_rx = Group 1 (Seq (char_is (CHR ''/'')) (Seq (One any_char) (Many any_char)))"

definition slash_rx :: rx where
  "slash_rx = Maybe (char_is (CHR ''/''))"

definition below_expr :: string where
  "below_expr = ''((/.*)?)''"

definition below_entry :: "string \<Rightarrow> string \<times> rx \<times> nat" where
  "below_entry name = (name @ below_expr, Seq (lit name) below_rx, 2)"

definition end_entry :: "string \<Rightarrow> string \<times> rx \<times> nat" where
  "end_entry name = (name @ ''/?'', Seq (lit name) slash_rx, 0)"

definition number_entry :: "string \<Rightarrow> string \<Rightarrow> string \<times> rx \<times> nat" where
  "number_entry a b = (a @ number_expr @ b, Seq (lit a) (Seq (digits_rx 1) (lit b)), 1)"

definition number_end_entry :: "string \<Rightarrow> string \<times> rx \<times> nat" where
  "number_end_entry a = (a @ number_expr @ ''/?'', Seq (lit a) (Seq (digits_rx 1) slash_rx), 1)"

definition site_exprs :: "(string \<times> rx \<times> nat) list" where
  "site_exprs =
     [(''/captcha((/?.*))'', Seq (lit ''/captcha'') rest_rx, 2), (''/config((/?.*))'', Seq (lit ''/config'') rest_rx, 2),
      below_entry ''/admin'', below_entry ''/rss'', (''/media(/.+)'', Seq (lit ''/media'') some_rx, 1), below_entry [],
      below_entry ''/page'', below_entry ''/post'', (''/download(/.+)'', Seq (lit ''/download'') some_rx, 1),
      (''.*'', Many any_char, 0),
      below_entry ''/cache'', below_entry ''/categories'', below_entry ''/options'', below_entry ''/comment'',
      below_entry ''/users'', below_entry ''/upload'',
      end_entry [], (''/version'', lit ''/version'', 0), end_entry ''/comments'', end_entry ''/list'', end_entry ''/add'',
      number_entry ''/'' [], number_entry ''/'' ''/preview'', number_entry ''/'' ''/postback'',
      number_end_entry ''/'', number_end_entry ''/from/'', number_end_entry ''/cat/'', number_end_entry ''/list/'',
      number_end_entry ''/del/'',
      (''/cat/'' @ number_expr @ ''/from/'' @ number_expr @ ''/?'',
        Seq (lit ''/cat/'') (Seq (digits_rx 1) (Seq (lit ''/from/'') (Seq (digits_rx 2) slash_rx))), 2),
      (''/(.+)/?'', Seq (char_is (CHR ''/'')) (Seq (Group 1 (Seq (One any_char) (Many any_char))) slash_rx), 1),
      (''/([0-9a-f]+)/'' @ number_expr @ ''/(.*)/?'',
        Seq (char_is (CHR ''/'')) (Seq (Group 1 (Seq (One is_low_x_digit) (Many is_low_x_digit)))
          (Seq (char_is (CHR ''/'')) (Seq (digits_rx 2) (Seq (char_is (CHR ''/'')) (Seq (Group 3 (Many any_char)) slash_rx))))), 3)]"

section \<open>Dispatchers\<close>

text \<open>An application whose \<open>main\<close> only dispatches.\<close>

definition number_slash :: string where
  "number_slash = number_expr @ ''/?''"

definition page_routes :: "site \<Rightarrow> world route list" where
  "page_routes st =
     [Handler (''/'' @ number_expr) [1] (\<lambda>ps. page_display st (ps ! 0)),
      Handler (''/'' @ number_expr @ ''/preview'') [1] (\<lambda>ps. page_preview st (ps ! 0))]"

definition post_routes :: "site \<Rightarrow> world route list" where
  "post_routes st =
     [Handler (''/'' @ number_expr) [1] (\<lambda>ps. post_display st (ps ! 0)),
      Handler (''/'' @ number_expr @ ''/preview'') [1] (\<lambda>ps. post_preview st (ps ! 0)),
      Handler (''/'' @ number_expr @ ''/postback'') [1] (\<lambda>ps. post_postback st (ps ! 0))]"

definition download_routes :: "site \<Rightarrow> world route list" where
  "download_routes st =
     [Handler (''/([0-9a-f]+)/'' @ number_expr @ ''/(.*)/?'') [1, 2, 3]
        (\<lambda>ps. download_prepare st (ps ! 0) (ps ! 1) (ps ! 2))]"

definition summary_routes :: "site \<Rightarrow> world route list" where
  "summary_routes st =
     [Handler ''/?'' [] (\<lambda>ps. summary_all st None),
      Handler ''/?'' [] (\<lambda>ps. summary_all st None),
      Handler (''/from/'' @ number_slash) [1] (\<lambda>ps. summary_all st (Some (ps ! 0))),
      Handler (''/cat/'' @ number_slash) [1] (\<lambda>ps. summary_category st (ps ! 0) None),
      Handler (''/cat/'' @ number_expr @ ''/from/'' @ number_slash) [1, 2]
        (\<lambda>ps. summary_category st (ps ! 0) (Some (ps ! 1)))]"

definition blog_routes :: "site \<Rightarrow> pcre \<Rightarrow> world route list" where
  "blog_routes st pcre =
     [Mounted (''/page'' @ below_expr) 1 (application_main (req st) pcre (page_routes st)),
      Mounted (''/post'' @ below_expr) 1 (application_main (req st) pcre (post_routes st)),
      Mounted ''/download(/.+)'' 1 (application_main (req st) pcre (download_routes st)),
      Mounted ''.*'' 0 (application_main (req st) pcre (summary_routes st))]"

definition feed_routes :: "site \<Rightarrow> world route list" where
  "feed_routes st =
     [Handler ''/?'' [] (\<lambda>ps. feed_posts st),
      Handler (''/cat/'' @ number_slash) [1] (\<lambda>ps. feed_cats st (ps ! 0)),
      Handler ''/comments/?'' [] (\<lambda>ps. feed_comments st)]"

definition config_routes :: "site \<Rightarrow> world route list" where
  "config_routes st =
     [Handler ''/?'' [] (\<lambda>ps. config_configure st), Handler ''/version'' [] (\<lambda>ps. config_version st)]"

definition media_routes :: "site \<Rightarrow> world route list" where
  "media_routes st = [Handler ''/(.+)/?'' [1] (\<lambda>ps. media_prepare st (ps ! 0))]"

definition caching_routes :: "site \<Rightarrow> world route list" where
  "caching_routes st = [Handler ''/?'' [] (\<lambda>ps. admin_caching st)]"

definition categories_routes :: "site \<Rightarrow> world route list" where
  "categories_routes st = [Handler ''/?'' [] (\<lambda>ps. admin_categories st)]"

definition options_routes :: "site \<Rightarrow> world route list" where
  "options_routes st = [Handler ''/?'' [] (\<lambda>ps. admin_options st)]"

definition comment_routes :: "site \<Rightarrow> world route list" where
  "comment_routes st = [Handler (''/'' @ number_slash) [1] (\<lambda>ps. admin_comment st (ps ! 0))]"

definition admin_post_routes :: "site \<Rightarrow> world route list" where
  "admin_post_routes st =
     [Handler (''/'' @ number_slash) [1] (\<lambda>ps. admin_post st (Some (ps ! 0))),
      Handler ''/?'' [] (\<lambda>ps. admin_post st None)]"

definition admin_page_routes :: "site \<Rightarrow> world route list" where
  "admin_page_routes st =
     [Handler (''/'' @ number_slash) [1] (\<lambda>ps. admin_page st (Some (ps ! 0))),
      Handler ''/?'' [] (\<lambda>ps. admin_page st None)]"

definition users_routes :: "site \<Rightarrow> world route list" where
  "users_routes st =
     [Handler ''/list/?'' [] (\<lambda>ps. users_list st 0),
      Handler (''/list/'' @ number_slash) [1] (\<lambda>ps. users_list st (atoi (ps ! 0))),
      Handler ''/add/?'' [] (\<lambda>ps. users_add st),
      Handler (''/del/'' @ number_slash) [1] (\<lambda>ps. users_del st (ps ! 0)),
      Handler (''/'' @ number_slash) [1] (\<lambda>ps. users_edit st (ps ! 0)),
      Handler ''/?'' [] (\<lambda>ps. users_prepare st)]"

definition upload_routes :: "site \<Rightarrow> world route list" where
  "upload_routes st = [Handler ''/?'' [] (\<lambda>ps. upload_prepare st)]"

definition admin_summary_routes :: "site \<Rightarrow> world route list" where
  "admin_summary_routes st =
     [Handler (''/'' @ number_slash) [1] (\<lambda>ps. admin_summary st (atoi (ps ! 0))),
      Handler ''/?'' [] (\<lambda>ps. admin_summary st 0)]"

definition admin_table :: "site \<Rightarrow> (string \<times> world route list) list" where
  "admin_table st =
     [(''/cache'', caching_routes st), (''/categories'', categories_routes st), (''/options'', options_routes st),
      (''/comment'', comment_routes st), (''/post'', admin_post_routes st), (''/page'', admin_page_routes st),
      (''/users'', users_routes st), (''/upload'', upload_routes st), ([], admin_summary_routes st)]"

definition admin_routes :: "site \<Rightarrow> pcre \<Rightarrow> world route list" where
  "admin_routes st pcre =
     map (\<lambda>(name, rs). Mounted (name @ below_expr) 1 (application_main (req st) pcre rs)) (admin_table st)"

text \<open>
  The topmost application. \<open>with_media\<close> is what the settings say of the media directory; the captcha
  draws random numbers \<open>rs\<close> and makes its picture whatever the path is.
\<close>

definition site_routes ::
    "site \<Rightarrow> pcre \<Rightarrow> bool \<Rightarrow> nat list \<Rightarrow> (string \<Rightarrow> string) \<Rightarrow> world route list" where
  "site_routes st pcre with_media rs picture =
     [Mounted ''/captcha((/?.*))'' 1 (\<lambda>_. captcha_main st rs picture),
      Mounted ''/config((/?.*))'' 1 (application_main (req st) pcre (config_routes st)),
      Mounted (''/admin'' @ below_expr) 1
        (\<lambda>path. admin_main st path (application_main (req st) pcre (admin_routes st pcre) path)),
      Mounted (''/rss'' @ below_expr) 1 (application_main (req st) pcre (feed_routes st))] @
     (if with_media then [Mounted ''/media(/.+)'' 1 (application_main (req st) pcre (media_routes st))] else []) @
     [Mounted below_expr 1 (application_main (req st) pcre (blog_routes st pcre))]"

text \<open>The topmost dispatcher, and a whole request.\<close>

definition site_main ::
    "site \<Rightarrow> pcre \<Rightarrow> bool \<Rightarrow> nat list \<Rightarrow> (string \<Rightarrow> string) \<Rightarrow> string \<Rightarrow> unit handler" where
  "site_main st pcre with_media rs picture =
     application_main (req st) pcre (site_routes st pcre with_media rs picture)"

definition serve_request ::
    "site \<Rightarrow> pcre \<Rightarrow> bool \<Rightarrow> nat list \<Rightarrow> (string \<Rightarrow> string) \<Rightarrow> string \<Rightarrow> unit handler" where
  "serve_request st pcre with_media rs picture path = serve st (site_main st pcre with_media rs picture path)"

section \<open>Every request keeps the site well formed\<close>

definition routes_ok :: "world route list \<Rightarrow> bool" where
  "routes_ok rs \<longleftrightarrow> (\<forall>r\<in>set rs. \<forall>sub. keeps world_ok (run_route r sub))"

named_theorems route_intros

lemma routes_ok_lists [route_intros]:
  "routes_ok []" "(\<And>sub. keeps world_ok (run_route r sub)) \<Longrightarrow> routes_ok rs \<Longrightarrow> routes_ok (r # rs)"
  "routes_ok rs \<Longrightarrow> routes_ok rs' \<Longrightarrow> routes_ok (rs @ rs')"
  "(c \<Longrightarrow> routes_ok rs) \<Longrightarrow> (\<not> c \<Longrightarrow> routes_ok rs') \<Longrightarrow> routes_ok (if c then rs else rs')"
  by (auto simp: routes_ok_def)

lemma routes_ok_run [route_intros]:
  "(\<And>ps. keeps P (h ps)) \<Longrightarrow> keeps P (run_route (Handler p sel h) sub)"
  "(\<And>path. keeps P (g path)) \<Longrightarrow> keeps P (run_route (Mounted p sel' g) sub)"
  by (simp_all add: run_route_def) (intro keeps_intros; assumption?)+

lemma application_main_ok [route_intros]:
  assumes "routes_ok rs"
  shows "keeps world_ok (application_main e pcre rs path)"
proof -
  have "keeps world_ok (error_response e 404 :: unit handler)"
    by (intro keeps_world keeps_error_response rest_error_response)
  moreover have "keeps world_ok (dispatch pcre (Some (request_method e)) rs path)"
    using assms by (intro dispatch_keeps) (simp add: routes_ok_def)
  ultimately show ?thesis unfolding application_main_def by (intro keeps_intros) simp_all
qed

lemma blog_parts_ok [route_intros]:
  "routes_ok (page_routes st)" "routes_ok (post_routes st)" "routes_ok (download_routes st)"
  "routes_ok (summary_routes st)" "routes_ok (feed_routes st)" "routes_ok (config_routes st)" "routes_ok (media_routes st)"
  unfolding page_routes_def post_routes_def download_routes_def summary_routes_def feed_routes_def
    config_routes_def media_routes_def summary_all_def summary_category_def
  by (intro route_intros keeps_intros)+

lemma admin_parts_ok [route_intros]:
  "routes_ok (caching_routes st)" "routes_ok (categories_routes st)" "routes_ok (options_routes st)"
  "routes_ok (comment_routes st)" "routes_ok (admin_post_routes st)" "routes_ok (admin_page_routes st)"
  "routes_ok (users_routes st)" "routes_ok (upload_routes st)" "routes_ok (admin_summary_routes st)"
  unfolding caching_routes_def categories_routes_def options_routes_def comment_routes_def admin_post_routes_def
    admin_page_routes_def users_routes_def upload_routes_def admin_summary_routes_def
  by (intro route_intros keeps_intros)+

lemma masters_ok [route_intros]: "routes_ok (admin_routes st pcre)" "routes_ok (blog_routes st pcre)"
  unfolding admin_routes_def admin_table_def blog_routes_def list.map case_prod_conv by (intro route_intros)+

lemma site_routes_ok: "routes_ok (site_routes st pcre with_media rs picture)"
  unfolding site_routes_def by (intro route_intros captcha_main_ok admin_main_ok)

lemma serve_request_ok: "keeps world_ok (serve_request st pcre with_media rs picture path)"
  unfolding serve_request_def site_main_def by (intro serve_ok application_main_ok site_routes_ok)

text \<open>
  Property C1. Whatever is asked, and however it ends, a request leaves the site well formed: the
  indexes of the page cache agree with its entries and stay within the limit, the table of sessions
  agrees with its queue of expiry times, and in the database the keys are unique, what refers to a
  post or a category refers to one that exists, the comment counts are right and the copies of a
  post's date and state in its categories agree with the post. This holds whatever the regular expressions match.
\<close>

theorem every_request_keeps_the_site:
  assumes "world_ok w"
  shows "world_ok (snd (serve_request st pcre with_media rs picture path w))"
  by (rule keepsD[OF serve_request_ok assms])

lemma every_request_keeps_the_site_witness:
  "world_ok (snd (serve_request (example_site (example_env ''POST'' [(''username'', ''x'')])) (table_pcre site_exprs)
     True [1, 2, 3, 4, 5, 6] id ''/config'' (example_world (\<lambda>_. None))))"
  by (rule every_request_keeps_the_site) (rule example_world_ok)

section \<open>Which handler a path reaches\<close>

text \<open>Expressions on subjects of which only the beginning is known.\<close>

lemma rx_many_all:
  assumes "list_all P s" "k [] (i + length s) \<noteq> None"
  shows "rx_many P s i k = k [] (i + length s)"
  using assms by (induction s arbitrary: i) (auto split: option.splits)

lemma rx_many_none: "(\<And>s i. k s i = None) \<Longrightarrow> rx_many P s i k = None"
  by (induction s arbitrary: i) auto

lemma rx_run_lit:
  "rx_run (lit p) s i g k = (if starts_with p s then k (drop (length p) s) (i + length p) g else None)"
  by (induction p s arbitrary: i rule: starts_with.induct) (auto simp: lit_def char_is_def)

lemma rx_exec_lit:
  "\<not> starts_with p s \<Longrightarrow> rx_exec (Seq (lit p) r) n s = None"
  by (simp add: rx_exec_def rx_run_lit)

lemma rx_exec_below:
  assumes "rest = [] \<or> (\<exists>t. rest = CHR ''/'' # t \<and> list_all any_char t)"
  shows "\<exists>m. rx_exec (Seq (lit p) below_rx) 2 (p @ rest) =
    Some [(0, int (length (p @ rest))), (int (length p), int (length (p @ rest))), m]"
proof (cases "rest = []")
  case True
  moreover have "starts_with p p" using starts_with_append[of p "[]"] by simp
  ultimately show ?thesis
    by (auto simp: rx_exec_def rx_run_lit below_rx_def char_is_def upt_rec)
next
  case False
  then obtain t where t: "rest = CHR ''/'' # t" "list_all any_char t" using assms by auto
  show ?thesis
    by (simp add: rx_exec_def rx_run_lit below_rx_def char_is_def upt_rec t(1) rx_many_all[OF t(2)])
qed

lemma rx_exec_number:
  assumes "list_all is_digit ds" "ds \<noteq> []"
  shows "rx_exec (Seq (lit p) (Seq (digits_rx 1) (lit []))) 1 (p @ ds) =
    Some [(0, int (length (p @ ds))), (int (length p), int (length (p @ ds)))]"
proof -
  obtain c t where c: "ds = c # t" "is_digit c" "list_all is_digit t" using assms by (cases ds) auto
  show ?thesis
    by (simp add: rx_exec_def rx_run_lit digits_rx_def upt_rec c(1,2) rx_many_all[OF c(3)])
qed

lemma rx_exec_end: "rx_exec (Seq (lit p) slash_rx) 0 p = Some [(0, int (length p))]"
proof -
  have "starts_with p p" using starts_with_append[of p "[]"] by simp
  then show ?thesis by (simp add: rx_exec_def rx_run_lit slash_rx_def char_is_def)
qed

text \<open>A path as the expressions see it: no line end and no NUL.\<close>

definition plain_path :: "string \<Rightarrow> bool" where
  "plain_path p \<longleftrightarrow> list_all any_char p \<and> CHR 0x00 \<notin> set p"

lemma c_str_plain: "plain_path p \<Longrightarrow> c_str p = p"
  by (auto simp: c_str_def plain_path_def takeWhile_eq_all_conv)

definition under :: "string \<Rightarrow> bool" where
  "under rest \<longleftrightarrow> rest = [] \<or> hd rest = CHR ''/''"

lemma main_hit:
  assumes "\<And>r. r \<in> set before \<Longrightarrow> matches pcre (Some (request_method e)) r path = None"
    and "try_route pcre (Some (request_method e)) r path = andThen m (\<lambda>_. ret True)"
  shows "application_main e pcre (before @ r # after) path = m"
  using assms(2)
  by (simp add: application_main_def dispatch_skip[OF assms(1)] andThen_done andThen_unit)

lemma lit_misses:
  assumes "pcre_documented site_exprs pcre" "(expr_of r, Seq (lit p) x, n) \<in> set site_exprs" "wanted_method r = None"
    "\<not> starts_with p path" "plain_path path"
  shows "matches pcre meth r path = None"
  using assms
  by (simp add: matches_def method_matches_def c_str_plain regex_marks_documented[OF assms(1,2)] rx_exec_lit)

lemma below_hits:
  assumes doc: "pcre_documented site_exprs pcre" and "below_entry name \<in> set site_exprs"
    and "plain_path (name @ rest)" "under rest"
  shows "try_route pcre meth (Mounted (name @ below_expr) 1 app) (name @ rest) = andThen (app rest) (\<lambda>_. ret True)"
proof -
  have r: "rest = [] \<or> (\<exists>t. rest = CHR ''/'' # t \<and> list_all any_char t)"
    using assms(3,4) by (cases rest) (auto simp: under_def plain_path_def)
  obtain m where m: "rx_exec (Seq (lit name) below_rx) 2 (name @ rest) =
    Some [(0, int (length (name @ rest))), (int (length name), int (length (name @ rest))), m]"
    using rx_exec_below[OF r] by blast
  have "regex_marks pcre (name @ below_expr) (name @ rest) = rx_exec (Seq (lit name) below_rx) 2 (name @ rest)"
    using regex_marks_documented[OF doc] assms(2) by (simp add: below_entry_def)
  then show ?thesis
    by (simp add: try_route_def matches_def method_matches_def wanted_method_def expr_of_def
        c_str_plain[OF assms(3)] m run_route_def submatch_def)
qed

lemma number_hits:
  assumes doc: "pcre_documented site_exprs pcre" and "number_entry p [] \<in> set site_exprs"
    and "list_all is_digit ds" "ds \<noteq> []" "plain_path (p @ ds)"
  shows "try_route pcre meth (Handler (p @ number_expr) [1] h) (p @ ds) = andThen (h [ds]) (\<lambda>_. ret True)"
proof -
  have "regex_marks pcre (p @ number_expr) (p @ ds) = rx_exec (Seq (lit p) (Seq (digits_rx 1) (lit []))) 1 (p @ ds)"
    using regex_marks_documented[OF doc] assms(2) by (simp add: number_entry_def)
  then show ?thesis
    using rx_exec_number[OF assms(3,4), of p]
    by (simp add: try_route_def matches_def method_matches_def wanted_method_def expr_of_def
        c_str_plain[OF assms(5)] run_route_def submatch_def)
qed

lemma end_hits:
  assumes doc: "pcre_documented site_exprs pcre" and "end_entry p \<in> set site_exprs" and "plain_path p"
  shows "try_route pcre meth (Handler (p @ ''/?'') [] h) p = andThen (h []) (\<lambda>_. ret True)"
proof -
  have "regex_marks pcre (p @ ''/?'') p = rx_exec (Seq (lit p) slash_rx) 0 p"
    using regex_marks_documented[OF doc] assms(2) by (simp add: end_entry_def)
  then show ?thesis
    using rx_exec_end[of p]
    by (simp add: try_route_def matches_def method_matches_def wanted_method_def expr_of_def
        c_str_plain[OF assms(3)] run_route_def submatch_def)
qed

lemma plain_digits: "list_all is_digit ds \<Longrightarrow> plain_path ds"
  by (induction ds) (auto simp: plain_path_def any_char_def is_digit_def less_eq_char_def)

lemma plain_parts: "plain_path (a @ b) \<longleftrightarrow> plain_path a \<and> plain_path b"
  by (auto simp: plain_path_def)

lemma named_misses:
  assumes doc: "pcre_documented site_exprs pcre" and path: "plain_path path"
  shows "\<not> starts_with ''/captcha'' path \<Longrightarrow> matches pcre meth (Mounted ''/captcha((/?.*))'' 1 a) path = None"
    "\<not> starts_with ''/config'' path \<Longrightarrow> matches pcre meth (Mounted ''/config((/?.*))'' 1 a) path = None"
    "\<not> starts_with ''/media'' path \<Longrightarrow> matches pcre meth (Mounted ''/media(/.+)'' 1 a) path = None"
    "below_entry name \<in> set site_exprs \<Longrightarrow> \<not> starts_with name path \<Longrightarrow>
       matches pcre meth (Mounted (name @ below_expr) 1 a) path = None"
    "end_entry name \<in> set site_exprs \<Longrightarrow> \<not> starts_with name path \<Longrightarrow>
       matches pcre meth (Handler (name @ ''/?'') sel h) path = None"
    "number_end_entry name \<in> set site_exprs \<Longrightarrow> \<not> starts_with name path \<Longrightarrow>
       matches pcre meth (Handler (name @ number_slash) sel h) path = None"
proof -
  assume "\<not> starts_with ''/captcha'' path"
  then show "matches pcre meth (Mounted ''/captcha((/?.*))'' 1 a) path = None"
    by (intro lit_misses[OF doc, of _ "''/captcha''" rest_rx 2])
      (simp_all add: path expr_of_def wanted_method_def site_exprs_def)
next
  assume "\<not> starts_with ''/config'' path"
  then show "matches pcre meth (Mounted ''/config((/?.*))'' 1 a) path = None"
    by (intro lit_misses[OF doc, of _ "''/config''" rest_rx 2])
      (simp_all add: path expr_of_def wanted_method_def site_exprs_def)
next
  assume "\<not> starts_with ''/media'' path"
  then show "matches pcre meth (Mounted ''/media(/.+)'' 1 a) path = None"
    by (intro lit_misses[OF doc, of _ "''/media''" some_rx 1])
      (simp_all add: path expr_of_def wanted_method_def site_exprs_def)
next
  assume "below_entry name \<in> set site_exprs" "\<not> starts_with name path"
  then show "matches pcre meth (Mounted (name @ below_expr) 1 a) path = None"
    by (intro lit_misses[OF doc, of _ name below_rx 2])
      (simp_all add: path expr_of_def wanted_method_def below_entry_def)
next
  assume "end_entry name \<in> set site_exprs" "\<not> starts_with name path"
  then show "matches pcre meth (Handler (name @ ''/?'') sel h) path = None"
    by (intro lit_misses[OF doc, of _ name slash_rx 0])
      (simp_all add: path expr_of_def wanted_method_def end_entry_def)
next
  assume "number_end_entry name \<in> set site_exprs" "\<not> starts_with name path"
  then show "matches pcre meth (Handler (name @ number_slash) sel h) path = None"
    by (intro lit_misses[OF doc, of _ name "Seq (digits_rx 1) slash_rx" 1])
      (simp_all add: path expr_of_def wanted_method_def number_end_entry_def number_slash_def)
qed

lemma site_entries:
  "n \<in> {''/admin'', ''/rss'', [], ''/page'', ''/post'', ''/cache'', ''/categories'', ''/options'', ''/comment'',
     ''/users'', ''/upload''} \<Longrightarrow> below_entry n \<in> set site_exprs"
  "e \<in> {[], ''/comments'', ''/list'', ''/add''} \<Longrightarrow> end_entry e \<in> set site_exprs"
  "k \<in> {''/'', ''/from/'', ''/cat/'', ''/list/'', ''/del/''} \<Longrightarrow> number_end_entry k \<in> set site_exprs"
  "number_entry ''/'' [] \<in> set site_exprs"
  by (auto simp: site_exprs_def)

lemma below_site:
  assumes doc: "pcre_documented site_exprs pcre" and path: "plain_path path" "under path"
    and no: "\<not> starts_with ''/captcha'' path" "\<not> starts_with ''/config'' path" "\<not> starts_with ''/admin'' path"
      "\<not> starts_with ''/rss'' path" "\<not> starts_with ''/media'' path"
  shows "site_main st pcre with_media rs picture path = application_main (req st) pcre (blog_routes st pcre) path"
proof -
  let ?blog = "Mounted below_expr 1 (application_main (req st) pcre (blog_routes st pcre))"
  obtain before where b: "site_routes st pcre with_media rs picture = before @ ?blog # []"
    "\<And>r. r \<in> set before \<Longrightarrow> matches pcre (Some (request_method (req st))) r path = None"
  proof
    show "site_routes st pcre with_media rs picture =
        butlast (site_routes st pcre with_media rs picture) @ ?blog # []"
      by (simp add: site_routes_def)
    fix r assume "r \<in> set (butlast (site_routes st pcre with_media rs picture))"
    then show "matches pcre (Some (request_method (req st))) r path = None"
      using no by (auto simp del: append_Cons append.simps simp: site_routes_def site_entries named_misses[OF doc path(1)] butlast_append split: if_splits)
  qed
  have hit: "try_route pcre m ?blog path =
      andThen (application_main (req st) pcre (blog_routes st pcre) path) (\<lambda>_. ret True)" for m
    using below_hits[OF doc site_entries(1)[of "[]"], where rest = path and meth = m
        and app = "application_main (req st) pcre (blog_routes st pcre)"] path by simp
  show ?thesis unfolding site_main_def b(1) by (rule main_hit[OF b(2) hit])
qed

lemma below_admin:
  assumes doc: "pcre_documented site_exprs pcre" and path: "plain_path rest" "under rest"
  shows "site_main st pcre with_media rs picture (''/admin'' @ rest) =
    admin_main st rest (application_main (req st) pcre (admin_routes st pcre) rest)"
proof -
  have plain: "plain_path (''/admin'' @ rest)" using path(1) by (simp add: plain_path_def any_char_def)
  let ?admin = "Mounted (''/admin'' @ below_expr) 1
    (\<lambda>path. admin_main st path (application_main (req st) pcre (admin_routes st pcre) path))"
  let ?before = "take 2 (site_routes st pcre with_media rs picture)"
  have b: "site_routes st pcre with_media rs picture = ?before @ ?admin # drop 3 (site_routes st pcre with_media rs picture)"
    by (simp add: site_routes_def)
  have no: "matches pcre (Some (request_method (req st))) r (''/admin'' @ rest) = None" if "r \<in> set ?before" for r
    using that by (auto simp: site_routes_def named_misses[OF doc, of "CHR ''/'' # _"] plain[simplified])
  have hit: "try_route pcre m ?admin (''/admin'' @ rest) =
      andThen (admin_main st rest (application_main (req st) pcre (admin_routes st pcre) rest)) (\<lambda>_. ret True)" for m
    by (rule below_hits[OF doc site_entries(1) plain path(2)]) simp
  show ?thesis unfolding site_main_def by (subst b) (rule main_hit[OF no hit])
qed

text \<open>
  Property C2. Nobody who is not logged in gets into the administration: whatever the path below
  \<open>/admin\<close> and whatever the request asks for, the answer is a redirection to the login page, no handler
  runs, and the database, the files, the session and the cache stay as they are. The only exception
  is the login page itself.
\<close>

theorem administration_needs_a_login:
  assumes "pcre_documented site_exprs pcre" "plain_path rest" "under rest"
    and "\<not> is_set ''user'' (ses w)" "rest \<notin> {''/users'', ''/users/''}"
    and "urls st = blog_mapper blog_root strict with_media"
  shows "site_main st pcre with_media rs picture (''/admin'' @ rest) w =
    (Inr (), w\<lparr>rsp := set_redirect_header (blog_root @ ''/admin/users'') (rsp w)\<rparr>)"
  unfolding below_admin[OF assms(1-3)] using assms(4-6)
  by (simp add: admin_main_def andThen_def session_set_def reads_apply redirect_def link_def
      link_to_login on_response_def changes_def)

lemma find_distinct: "distinct (map f xs) \<Longrightarrow> x \<in> set xs \<Longrightarrow> find (\<lambda>y. f y = f x) xs = Some x"
  by (induction xs) (auto simp: rev_image_eqI)

lemma table_documented: "pcre_documented site_exprs (table_pcre site_exprs)"
proof -
  have d: "distinct (map (\<lambda>(p, r, n). anchored p) site_exprs)"
    unfolding site_exprs_def by code_simp
  have "find (\<lambda>(q, s, m). anchored q = anchored p) site_exprs = Some (p, r, n)" if "(p, r, n) \<in> set site_exprs" for p r n
    using find_distinct[OF d that] by (simp add: split_def)
  then show ?thesis
    unfolding pcre_documented_def table_pcre_def by (auto simp: fun_eq_iff)
qed

lemma administration_needs_a_login_witness:
  "let st = example_site (example_env ''POST'' [(''md5'', ''0'')]); w = (example_world (\<lambda>_. None))\<lparr>ses := sclear example_session\<rparr>
   in site_main st (table_pcre site_exprs) True [] id ''/admin/upload'' w =
     (Inr (), w\<lparr>rsp := set_redirect_header ''/blog/admin/users'' (rsp w)\<rparr>)"
proof -
  let ?st = "example_site (example_env ''POST'' [(''md5'', ''0'')])"
  let ?w = "(example_world (\<lambda>_. None))\<lparr>ses := sclear example_session\<rparr>"
  have p: "plain_path ''/upload''" "under ''/upload''" by code_simp+
  have u: "\<not> is_set ''user'' (ses ?w)" by (simp add: is_set_def sclear_def)
  have m: "urls ?st = blog_mapper ''/blog'' True True" by (simp add: example_site_def)
  show ?thesis
    using administration_needs_a_login[OF table_documented p u _ m, where rs = "[]" and picture = id] by (simp add: Let_def)
qed

text \<open>
  Property C3. The links the site prints lead where they say: the URL of a post, of a page or of the
  login form is the root of the site followed by a path that the dispatchers hand to the handler of
  that post, that page or the login form, with the number that was printed and nothing else in between.
\<close>

theorem links_lead_to_their_handlers:
  assumes doc: "pcre_documented site_exprs pcre" and u: "urls st = blog_mapper blog_root strict with_media"
  shows "\<exists>post login.
    url (urls st) app ''/blog/post'' [dec (int n)] = Inr (blog_root @ post) \<and>
    site_main st pcre with_media rs picture post = post_display st (dec (int n)) \<and>
    url (urls st) app ''/admin/users'' [] = Inr (blog_root @ login) \<and>
    site_main st pcre with_media rs picture login = admin_main st ''/users'' (users_prepare st)"
proof (intro exI conjI)
  let ?m = "Some (request_method (req st))"
  let ?ds = "dec (int n)" let ?post = "''/post/'' @ ?ds" let ?rest = "''/'' @ ?ds"
  show "url (urls st) app ''/blog/post'' [?ds] = Inr (blog_root @ ?post)" by (simp add: u link_to_post)
  show "url (urls st) app ''/admin/users'' [] = Inr (blog_root @ ''/admin'' @ ''/users'')" by (simp add: u link_to_login)
  have ds: "list_all is_digit ?ds" "?ds \<noteq> []" using dec_nat_digits[of n] by (simp_all add: dec_def)
  have plain: "plain_path ?post" "plain_path ?rest" "under ?post" "under ?rest"
    using plain_digits[OF ds(1)] by (simp_all add: plain_path_def any_char_def under_def)
  have "application_main (req st) pcre (post_routes st) ?rest = post_display st ?ds"
  proof -
    have h: "try_route pcre ?m (Handler (''/'' @ number_expr) [1] (\<lambda>ps. post_display st (ps ! 0))) ?rest =
        andThen (post_display st ?ds) (\<lambda>_. ret True)"
      using number_hits[OF doc site_entries(4) ds plain(2), where h = "\<lambda>ps. post_display st (ps ! 0)" and meth = ?m] by simp
    show ?thesis unfolding post_routes_def using main_hit[of "[]", OF _ h] by simp
  qed
  moreover have "application_main (req st) pcre (blog_routes st pcre) ?post =
      application_main (req st) pcre (post_routes st) ?rest"
  proof -
    let ?r = "Mounted (''/post'' @ below_expr) 1 (application_main (req st) pcre (post_routes st))"
    let ?before = "take 1 (blog_routes st pcre)"
    have b: "blog_routes st pcre = ?before @ ?r # drop 2 (blog_routes st pcre)" by (simp add: blog_routes_def)
    have no: "matches pcre ?m r ?post = None" if "r \<in> set ?before" for r
      using that named_misses(4)[OF doc plain(1) site_entries(1)[of "''/page''"]] by (simp add: blog_routes_def)
    have h: "try_route pcre ?m ?r ?post = andThen (application_main (req st) pcre (post_routes st) ?rest) (\<lambda>_. ret True)"
      using below_hits[OF doc site_entries(1)[of "''/post''"], where rest = ?rest and meth = ?m
          and app = "application_main (req st) pcre (post_routes st)"] plain by simp
    show ?thesis by (subst b) (rule main_hit[OF no h])
  qed
  moreover have "site_main st pcre with_media rs picture ?post = application_main (req st) pcre (blog_routes st pcre) ?post"
    by (rule below_site[OF doc plain(1,3)]) simp_all
  ultimately show "site_main st pcre with_media rs picture ?post = post_display st ?ds" by simp
  have "application_main (req st) pcre (users_routes st) [] = users_prepare st"
  proof -
    let ?r = "Handler ''/?'' [] (\<lambda>ps. users_prepare st)" let ?before = "take 5 (users_routes st)"
    have b: "users_routes st = ?before @ ?r # []" by (simp add: users_routes_def)
    have e: "plain_path []" by (simp add: plain_path_def)
    have no: "matches pcre ?m r [] = None" if "r \<in> set ?before" for r
      using that named_misses(5)[OF doc e site_entries(2)[of "''/list''"]] named_misses(5)[OF doc e site_entries(2)[of "''/add''"]]
        named_misses(6)[OF doc e site_entries(3)[of "''/list/''"]] named_misses(6)[OF doc e site_entries(3)[of "''/del/''"]]
        named_misses(6)[OF doc e site_entries(3)[of "''/''"]]
      by (auto simp: users_routes_def)
    have h: "try_route pcre ?m ?r [] = andThen (users_prepare st) (\<lambda>_. ret True)"
      using end_hits[OF doc site_entries(2)[of "[]"] e, where h = "\<lambda>ps. users_prepare st" and meth = ?m] by simp
    show ?thesis by (subst b) (rule main_hit[OF no h])
  qed
  moreover have "application_main (req st) pcre (admin_routes st pcre) ''/users'' =
      application_main (req st) pcre (users_routes st) []"
  proof -
    let ?r = "Mounted (''/users'' @ below_expr) 1 (application_main (req st) pcre (users_routes st))"
    let ?before = "take 6 (admin_routes st pcre)"
    have b: "admin_routes st pcre = ?before @ ?r # drop 7 (admin_routes st pcre)" by (simp add: admin_routes_def admin_table_def)
    have e: "plain_path ''/users''" by (simp add: plain_path_def any_char_def)
    have no: "matches pcre ?m r ''/users'' = None" if "r \<in> set ?before" for r
    proof -
      have "r \<in> (\<lambda>(name, rs). Mounted (name @ below_expr) 1 (application_main (req st) pcre rs)) ` set (take 6 (admin_table st))"
        using that unfolding admin_routes_def take_map set_map .
      then obtain name rs where r: "r = Mounted (name @ below_expr) 1 (application_main (req st) pcre rs)"
        "(name, rs) \<in> set (take 6 (admin_table st))"
        by (elim imageE) (simp add: case_prod_beta)
      then have n: "name \<in> {''/cache'', ''/categories'', ''/options'', ''/comment'', ''/post'', ''/page''}"
        by (auto simp: admin_table_def)
      have "below_entry name \<in> set site_exprs" using n by (intro site_entries(1)) auto
      moreover have "\<not> starts_with name ''/users''" using n by auto
      ultimately show ?thesis unfolding r(1) by (rule named_misses(4)[OF doc e])
    qed
    have h: "try_route pcre ?m ?r ''/users'' = andThen (application_main (req st) pcre (users_routes st) []) (\<lambda>_. ret True)"
      using below_hits[OF doc site_entries(1)[of "''/users''"], where rest = "[]" and meth = ?m
          and app = "application_main (req st) pcre (users_routes st)"] e by (simp add: under_def)
    show ?thesis by (subst b) (rule main_hit[OF no h])
  qed
  moreover have "site_main st pcre with_media rs picture (''/admin'' @ ''/users'') =
      admin_main st ''/users'' (application_main (req st) pcre (admin_routes st pcre) ''/users'')"
    by (rule below_admin[OF doc]) (simp_all add: plain_path_def any_char_def under_def)
  ultimately show "site_main st pcre with_media rs picture (''/admin'' @ ''/users'') = admin_main st ''/users'' (users_prepare st)"
    by simp
qed

lemma links_lead_to_their_handlers_witness:
  "let st = example_site (example_env ''GET'' []); pcre = table_pcre site_exprs in
   \<exists>post login.
    url (urls st) [''blog''] ''/blog/post'' [dec 7] = Inr (''/blog'' @ post) \<and>
    site_main st pcre True [] id post = post_display st (dec 7) \<and>
    url (urls st) [''blog''] ''/admin/users'' [] = Inr (''/blog'' @ login) \<and>
    site_main st pcre True [] id login = admin_main st ''/users'' (users_prepare st)"
proof -
  have m: "urls (example_site (example_env ''GET'' [])) = blog_mapper ''/blog'' True True" by (simp add: example_site_def)
  show ?thesis
    using links_lead_to_their_handlers[OF table_documented m, of "[''blog'']" 7 "[]" id] by (simp add: Let_def)
qed

end
