(* ===== verification/Http_Request.thy ===== *)
theory Http_Request
  imports Http_Util
begin

text \<open>
  What a request says beside its body (\<open>lib/cppcms/src/http_request.cpp\<close>, \<open>http_content_type.cpp\<close>,
  \<open>http_cookie.cpp\<close>): the parameters of a query or an urlencoded form, the media type of the body,
  the cookies, and how a cookie is written into a response. Iterator pairs are the list of the bytes
  between them, and an iterator that moves is the rest of the list.
\<close>

section \<open>Maps filled in by \<open>insert\<close>\<close>

text \<open>\<open>std::map::insert\<close> leaves a key alone that is there; \<open>std::multimap::insert\<close> puts the new
  entry behind the equal ones.\<close>

definition map_insert :: "'k::linorder \<Rightarrow> 'v \<Rightarrow> ('k \<times> 'v) list \<Rightarrow> ('k \<times> 'v) list" where
  "map_insert k v m = (if map_of m k = None then omap_set k v m else m)"

fun multimap_insert :: "'k::linorder \<Rightarrow> 'v \<Rightarrow> ('k \<times> 'v) list \<Rightarrow> ('k \<times> 'v) list" where
  "multimap_insert k v [] = [(k, v)]"
| "multimap_insert k v ((a, b) # m) = (if k < a then (k, v) # (a, b) # m else (a, b) # multimap_insert k v m)"

lemma omap_ok_map_insert [inv_intros]: "omap_ok m \<Longrightarrow> omap_ok (map_insert k v m)"
  by (simp add: map_insert_def omap_ok_set)

lemma map_of_map_insert [omap_simps]:
  "map_of (map_insert k v m) j = (case map_of m j of Some w \<Rightarrow> Some w | None \<Rightarrow> if j = k then Some v else None)"
  by (auto simp: map_insert_def omap_simps split: option.split)

lemma sorted_multimap_insert: "sorted (map fst m) \<Longrightarrow> sorted (map fst (multimap_insert k v m))"
proof (induction k v m rule: multimap_insert.induct)
  case (2 k v a b m)
  have "fst ` set (multimap_insert k v m) = insert k (fst ` set m)"
    by (induction k v m rule: multimap_insert.induct) auto
  then show ?case using 2 by auto
qed simp

text \<open>What is found under a key: the values in the order in which they came.\<close>

definition values_of :: "'k \<Rightarrow> ('k \<times> 'v) list \<Rightarrow> 'v list" where
  "values_of k m = map snd (filter (\<lambda>(a, _). a = k) m)"

lemma values_of_simps [simp]:
  "values_of k [] = []"
  "values_of k ((a, b) # m) = (if a = k then b # values_of k m else values_of k m)"
  by (simp_all add: values_of_def)

lemma values_of_append: "values_of k (m @ n) = values_of k m @ values_of k n"
  by (simp add: values_of_def)

lemma values_of_above: "\<forall>a \<in> fst ` set m. (k :: 'k :: linorder) < a \<Longrightarrow> values_of k m = []"
  by (induction m) auto

lemma values_of_multimap_insert:
  "sorted (map fst m) \<Longrightarrow> values_of j (multimap_insert k v m) = values_of j m @ (if j = k then [v] else [])"
proof (induction k v m rule: multimap_insert.induct)
  case (2 k v a b m)
  then show ?case
    using values_of_above[of "(a, b) # m" k] by (auto simp: less_le_trans)
qed simp

section \<open>Urlencoded forms\<close>

function parse_form_urlencoded :: "string \<Rightarrow> (string \<times> string) list \<Rightarrow> bool \<times> (string \<times> string) list" where
  "parse_form_urlencoded s out =
     (if s = [] then (True, out)
      else
        let part = takeWhile (\<lambda>c. c \<noteq> CHR ''&'') s;
            name = takeWhile (\<lambda>c. c \<noteq> CHR ''='') part
        in if name = part \<or> name = [] then (False, out)
           else parse_form_urlencoded (drop (length part + 1) s)
                  (multimap_insert (urldecode name) (urldecode (drop (length name + 1) part)) out))"
  by pat_completeness auto
termination by (relation "measure (\<lambda>(s, _). length s)") auto

declare parse_form_urlencoded.simps [simp del]

section \<open>Media types\<close>

record media_info =
  mi_type :: string
  mi_subtype :: string
  mi_media :: string
  mi_params :: "(string \<times> string) list"

definition no_media :: media_info where
  "no_media = \<lparr>mi_type = [], mi_subtype = [], mi_media = [], mi_params = []\<rparr>"

lemma length_skip_ws: "length (skip_ws s) \<le> length s"
  by (metis skip_ws_suffix length_append le_add2)

lemma length_tocken: "length (tocken s) \<le> length s"
  by (simp add: tocken_def length_dropWhile_le)

lemma unquote_loop_length: "unquote_loop acc s = Some (t, r) \<Longrightarrow> length r < length s"
  by (induction acc s rule: unquote_loop.induct) (fastforce split: if_splits list.splits)+

lemma unquote_shorter: "length (snd (unquote s)) \<le> length s"
  by (auto simp: unquote_def split: list.splits option.splits dest: unquote_loop_length)

text \<open>One \<open>; name=value\<close>: the name in lower case and the value, and what follows.\<close>

definition parse_parameter :: "string \<Rightarrow> ((string \<times> string) \<times> string) option" where
  "parse_parameter s =
     (case skip_ws s of
        [] \<Rightarrow> None
      | c # r \<Rightarrow>
          if c \<noteq> CHR '';'' \<or> skip_ws r = [] then None
          else
            let p = skip_ws r; param = takeWhile token_char p
            in if param = [] then None
               else case skip_ws (tocken p) of
                      [] \<Rightarrow> None
                    | d # v \<Rightarrow>
                        if d \<noteq> CHR ''='' \<or> skip_ws v = [] then None
                        else
                          let b = skip_ws v;
                              (val, rest) = (if hd b = CHR 0x22 then unquote b
                                             else (takeWhile token_char b, tocken b))
                          in if rest = b then None else Some ((map ascii_to_lower param, val), rest))"

lemma parse_parameter_shorter: "parse_parameter s = Some (p, rest) \<Longrightarrow> length rest < length s"
proof -
  assume p: "parse_parameter s = Some (p, rest)"
  obtain c r where c: "skip_ws s = c # r" using p by (cases "skip_ws s") (auto simp: parse_parameter_def)
  obtain d v where d: "skip_ws (tocken (skip_ws r)) = d # v"
    using p c by (cases "skip_ws (tocken (skip_ws r))") (auto simp: parse_parameter_def Let_def split: if_splits)
  let ?b = "skip_ws v"
  have "rest = snd (if hd ?b = CHR 0x22 then unquote ?b else (takeWhile token_char ?b, tocken ?b))"
    using p by (auto simp: parse_parameter_def c d Let_def split: if_splits prod.splits)
  then have "length rest \<le> length ?b" using unquote_shorter[of ?b] length_tocken[of ?b] by (simp split: if_splits)
  moreover have "length ?b \<le> length v" "length (d # v) \<le> length (tocken (skip_ws r))" "length (skip_ws r) \<le> length r"
    "length (c # r) \<le> length s" "length (tocken (skip_ws r)) \<le> length (skip_ws r)"
    using length_skip_ws[of v] length_skip_ws[of "tocken (skip_ws r)"] length_skip_ws[of r] length_skip_ws[of s]
      length_tocken[of "skip_ws r"] by (simp_all add: c d)
  ultimately show ?thesis by simp
qed

function parse_parameters :: "string \<Rightarrow> (string \<times> string) list \<Rightarrow> (string \<times> string) list" where
  "parse_parameters s ps =
     (if s = [] then ps
      else case parse_parameter s of
             None \<Rightarrow> ps
           | Some ((param, val), rest) \<Rightarrow> parse_parameters rest (map_insert param val ps))"
  by pat_completeness auto
termination by (relation "measure (\<lambda>(s, _). length s)") (auto dest: parse_parameter_shorter)

declare parse_parameters.simps [simp del]

text \<open>\<open>content_type::parse\<close>; what is found before an error stays.\<close>

definition parse_content_type :: "string \<Rightarrow> media_info" where
  "parse_content_type s =
     (let b = skip_ws s; ty = takeWhile token_char b
      in if b = [] \<or> ty = [] then no_media
         else case tocken b of
                [] \<Rightarrow> no_media
              | c # r \<Rightarrow>
                  let st = takeWhile token_char r
                  in if c \<noteq> CHR ''/'' \<or> st = [] then no_media
                     else let ty = map ascii_to_lower ty; st = map ascii_to_lower st
                          in \<lparr>mi_type = ty, mi_subtype = st, mi_media = ty @ ''/'' @ st,
                              mi_params = parse_parameters (tocken r) []\<rparr>)"

definition parameter_by_key :: "media_info \<Rightarrow> string \<Rightarrow> string" where
  "parameter_by_key m key = (case map_of (mi_params m) key of None \<Rightarrow> [] | Some v \<Rightarrow> v)"

definition parameter_is_set :: "media_info \<Rightarrow> string \<Rightarrow> bool" where
  "parameter_is_set m key \<longleftrightarrow> map_of (mi_params m) key \<noteq> None"

definition charset_of :: "media_info \<Rightarrow> string" where
  "charset_of m = parameter_by_key m ''charset''"

definition is_form_urlencoded :: "media_info \<Rightarrow> bool" where
  "is_form_urlencoded m \<longleftrightarrow> mi_media m = ''application/x-www-form-urlencoded''"

definition is_multipart_form_data :: "media_info \<Rightarrow> bool" where
  "is_multipart_form_data m \<longleftrightarrow> mi_media m = ''multipart/form-data''"

section \<open>Cookies of a request\<close>

record cookie =
  ck_name :: string
  ck_value :: string
  ck_path :: string
  ck_domain :: string
  ck_comment :: string
  ck_max_age :: "nat option"
  ck_expires :: "int option"
  ck_secure :: bool

definition new_cookie :: "string \<Rightarrow> string \<Rightarrow> cookie" where
  "new_cookie name v = \<lparr>ck_name = name, ck_value = v, ck_path = [], ck_domain = [], ck_comment = [],
     ck_max_age = None, ck_expires = None, ck_secure = False\<rparr>"

fun skip_after_period :: "string \<Rightarrow> string" where
  "skip_after_period [] = []"
| "skip_after_period (c # s) = (if c = CHR '';'' \<or> c = CHR '','' then s else skip_after_period s)"

text \<open>
  \<open>read_key_value\<close>: whether it succeeded, the key and the value, and the position afterwards. The
  key may be followed by any character but \<open>;\<close> and \<open>,\<close>; it is taken for the equals sign.
\<close>

definition ends_pair :: "string \<Rightarrow> string" where
  "ends_pair s = (case skip_ws s of c # r \<Rightarrow> if c = CHR '';'' \<or> c = CHR '','' then skip_ws r else c # r | [] \<Rightarrow> [])"

definition read_value :: "string \<Rightarrow> (bool \<times> string) \<times> string" where
  "read_value b =
     (if b = [] then ((True, []), [])
      else if hd b = CHR 0x22 then
        (if snd (unquote b) = b then ((False, fst (unquote b)), []) else ((True, fst (unquote b)), ends_pair (snd (unquote b))))
      else if tocken b = b \<and> hd b \<noteq> CHR '';'' \<and> hd b \<noteq> CHR '','' then ((False, []), skip_after_period b)
      else ((True, takeWhile token_char b), ends_pair (tocken b)))"

definition read_key_value :: "string \<Rightarrow> (bool \<times> string \<times> string) \<times> string" where
  "read_key_value s =
     (let p = skip_ws s; key = takeWhile token_char p
      in if key = [] \<and> p \<noteq> [] then ((False, [], []), skip_after_period p)
         else case skip_ws (tocken p) of
                [] \<Rightarrow> ((True, key, []), [])
              | c # r \<Rightarrow>
                  if c = CHR '';'' \<or> c = CHR '','' then ((True, key, []), r)
                  else case read_value (skip_ws r) of ((ok, v), rest) \<Rightarrow> ((ok, key, v), rest))"

lemma skip_after_period_shorter: "s \<noteq> [] \<Longrightarrow> length (skip_after_period s) < length s"
  by (induction s) (auto, force)

lemma length_ends_pair: "length (ends_pair s) \<le> length s"
proof (cases "skip_ws s")
  case (Cons c r)
  then show ?thesis using length_skip_ws[of s] length_skip_ws[of r] by (auto simp: ends_pair_def)
qed (simp add: ends_pair_def)

lemma read_value_length: "length (snd (read_value b)) \<le> length b"
proof (cases "b = []")
  case False
  then have "length (skip_after_period b) < length b" by (rule skip_after_period_shorter)
  moreover have "length (ends_pair (snd (unquote b))) \<le> length b" "length (ends_pair (tocken b)) \<le> length b"
    using unquote_shorter[of b] length_ends_pair length_tocken[of b] le_trans by blast+
  ultimately show ?thesis unfolding read_value_def by simp
qed (simp add: read_value_def)

lemma read_key_value_shorter: "s \<noteq> [] \<Longrightarrow> length (snd (read_key_value s)) < length s"
proof -
  assume s: "s \<noteq> []"
  let ?p = "skip_ws s"
  show ?thesis
  proof (cases "takeWhile token_char ?p = [] \<and> ?p \<noteq> []")
    case True
    then show ?thesis using skip_after_period_shorter[of ?p] length_skip_ws[of s] by (simp add: read_key_value_def)
  next
    case False
    show ?thesis
    proof (cases "skip_ws (tocken ?p)")
      case Nil
      then show ?thesis using False s by (auto simp: read_key_value_def Let_def)
    next
      case (Cons c r)
      have "length (c # r) \<le> length s"
        using length_skip_ws[of "tocken ?p"] length_tocken[of ?p] length_skip_ws[of s] unfolding Cons by simp
      moreover have "length (snd (read_value (skip_ws r))) \<le> length r"
        using read_value_length[of "skip_ws r"] length_skip_ws[of r] by simp
      ultimately show ?thesis using False Cons
        by (cases "read_value (skip_ws r)") (auto simp: read_key_value_def Let_def split: prod.split)
    qed
  qed
qed

lemma read_key_value_rest: "(x, rest) = read_key_value s \<Longrightarrow> s \<noteq> [] \<Longrightarrow> length rest < length s"
  using read_key_value_shorter[of s] by (metis snd_conv)

text \<open>
  \<open>parse_cookies\<close>. (A \<open>$Path\<close> or \<open>$Domain\<close> is heeded only while the cookie has no name, and
  \<open>$Path\<close> becomes the name.)
\<close>

definition keep_cookie :: "cookie \<Rightarrow> (string \<times> cookie) list \<Rightarrow> (string \<times> cookie) list" where
  "keep_cookie c cs = (if ck_name c = [] then cs else map_insert (ck_name c) c cs)"

definition dollar_key :: "string \<Rightarrow> string \<Rightarrow> cookie \<Rightarrow> cookie" where
  "dollar_key key v c =
     (if ck_name c \<noteq> [] then c
      else if compare_nocase key ''$Path'' = 0 then c\<lparr>ck_name := v\<rparr>
      else if compare_nocase key ''$Domain'' = 0 then c\<lparr>ck_domain := v\<rparr>
      else c)"

function cookie_loop :: "string \<Rightarrow> cookie \<Rightarrow> (string \<times> cookie) list \<Rightarrow> (string \<times> cookie) list" where
  "cookie_loop s c cs =
     (if s = [] then keep_cookie c cs
      else case read_key_value s of
             ((False, _), rest) \<Rightarrow> cookie_loop rest (new_cookie [] []) cs
           | ((True, key, v), rest) \<Rightarrow>
               if key \<noteq> [] \<and> hd key = CHR ''$'' then cookie_loop rest (dollar_key key v c) cs
               else cookie_loop rest (new_cookie key v) (keep_cookie c cs))"
  by pat_completeness auto
termination
  by (relation "measure (\<lambda>(s, _). length s)") (auto dest: read_key_value_rest)

declare cookie_loop.simps [simp del]

definition parse_cookies :: "string \<Rightarrow> (string \<times> cookie) list" where
  "parse_cookies s = cookie_loop (skip_ws s) (new_cookie [] []) []"

definition cookie_by_name :: "(string \<times> cookie) list \<Rightarrow> string \<Rightarrow> cookie" where
  "cookie_by_name cs name = (case map_of cs name of None \<Rightarrow> new_cookie [] [] | Some c \<Rightarrow> c)"

section \<open>Cookies of a response\<close>

text \<open>\<open>cookie::write\<close>; the date is formatted by the C++ library (\<open>gmt\<close>).\<close>

definition write_cookie :: "(int \<Rightarrow> string) \<Rightarrow> cookie \<Rightarrow> exn + string" where
  "write_cookie gmt c =
     (if ck_name c = [] then Inl (Cppcms_error ''Cookie's name is not defined'')
      else Inr
        (''Set-Cookie:'' @ ck_name c @ ''='' @
         (if tocken (ck_value c) = [] then ck_value c else quote (ck_value c)) @
         (if ck_comment c = [] then [] else ''; Comment='' @ quote (ck_comment c)) @
         (if ck_domain c = [] then [] else ''; Domain='' @ ck_domain c) @
         (case ck_max_age c of None \<Rightarrow> [] | Some a \<Rightarrow> ''; Max-Age='' @ dec_nat a) @
         (case ck_expires c of None \<Rightarrow> [] | Some t \<Rightarrow> ''; Expires='' @ gmt t) @
         (if ck_path c = [] then [] else ''; Path='' @ ck_path c) @
         (if ck_secure c then ''; Secure'' else []) @ ''; Version=1''))"

section \<open>A form survives the trip\<close>

text \<open>What a browser makes of the fields of a form.\<close>

definition form_field :: "string \<times> string \<Rightarrow> string" where
  "form_field p = urlencode (fst p) @ ''='' @ urlencode (snd p)"

fun form_text :: "(string \<times> string) list \<Rightarrow> string" where
  "form_text [] = []"
| "form_text [p] = form_field p"
| "form_text (p # ps) = form_field p @ ''&'' @ form_text ps"

lemma form_text_Cons: "form_text (p # ps) = form_field p @ (if ps = [] then [] else CHR ''&'' # form_text ps)"
  by (cases ps) simp_all

lemma urlencode_plain: "c \<in> set (urlencode s) \<Longrightarrow> c \<noteq> CHR ''&'' \<and> c \<noteq> CHR ''=''"
  by (auto dest!: urlencode_chars simp: unreserved_def is_lower_def is_upper_def is_digit_def less_eq_char_def)

lemma urlencode_not_Nil: "s \<noteq> [] \<Longrightarrow> urlencode s \<noteq> []"
  by (cases s) auto

lemma takeWhile_stops: "(\<forall>x \<in> set xs. P x) \<Longrightarrow> \<not> P y \<Longrightarrow> takeWhile P (xs @ y # ys) = xs"
  by (simp add: takeWhile_append2)

lemma parse_form_field:
  assumes "k \<noteq> []" "r = [] \<or> hd r = CHR ''&''"
  shows "parse_form_urlencoded (form_field (k, v) @ r) out =
    parse_form_urlencoded (tl r) (multimap_insert k v out)"
proof -
  let ?f = "form_field (k, v)"
  have amp: "c \<noteq> CHR ''&''" if "c \<in> set ?f" for c
    using that by (auto simp: form_field_def dest: urlencode_plain)
  have part: "takeWhile (\<lambda>c. c \<noteq> CHR ''&'') (?f @ r) = ?f"
    using assms(2) amp by (cases r) (auto simp: takeWhile_append takeWhile_eq_all_conv)
  have name: "takeWhile (\<lambda>c. c \<noteq> CHR ''='') ?f = urlencode k"
    unfolding form_field_def by simp (rule takeWhile_stops, auto dest: urlencode_plain)
  have "?f @ r \<noteq> []" by (simp add: form_field_def)
  moreover have "urlencode k \<noteq> ?f" "urlencode k \<noteq> []"
    using urlencode_not_Nil[OF assms(1)] by (auto simp: form_field_def)
  moreover have "drop (length ?f + 1) (?f @ r) = tl r" by (simp add: drop_Suc)
  moreover have "drop (length (urlencode k) + 1) ?f = urlencode v" by (simp add: form_field_def)
  ultimately show ?thesis
    by (subst parse_form_urlencoded.simps) (simp only: Let_def part name if_False simp_thms urldecode_urlencode fst_conv snd_conv)
qed

lemma parse_form_text:
  assumes "\<forall>(k, v) \<in> set ps. k \<noteq> []"
  shows "parse_form_urlencoded (form_text ps) out = (True, fold (\<lambda>(k, v). multimap_insert k v) ps out)"
  using assms
proof (induction ps arbitrary: out)
  case Nil
  then show ?case by (simp add: parse_form_urlencoded.simps)
next
  case (Cons p ps)
  obtain k v where p: "p = (k, v)" by (cases p)
  show ?case
    using Cons parse_form_field[of k "if ps = [] then [] else CHR ''&'' # form_text ps" v out]
    by (cases "ps = []") (auto simp: p form_text_Cons parse_form_urlencoded.simps)
qed

lemma values_of_fold_insert:
  "sorted (map fst m) \<Longrightarrow> sorted (map fst (fold (\<lambda>(k, v). multimap_insert k v) ps m)) \<and>
     values_of j (fold (\<lambda>(k, v). multimap_insert k v) ps m) = values_of j m @ values_of j ps"
proof (induction ps arbitrary: m)
  case (Cons p ps)
  obtain k v where p: "p = (k, v)" by (cases p)
  show ?case
    using Cons.IH[OF sorted_multimap_insert[OF Cons.prems, of k v]] values_of_multimap_insert[OF Cons.prems, of j k v]
    by (simp add: p)
qed simp

text \<open>
  Property C9. The fields of a form with names that are not empty, in any number and with any bytes in
  them, arrive as they were sent: parsing the urlencoded text succeeds, the fields are sorted by name,
  and under each name are its values, in the order of the form.
\<close>

theorem form_fields_arrive:
  assumes "\<forall>(k, v) \<in> set ps. k \<noteq> []" "parse_form_urlencoded (form_text ps) [] = (ok, m)"
  shows "ok \<and> sorted (map fst m) \<and> values_of name m = values_of name ps"
  using assms parse_form_text[OF assms(1), of "[]"] values_of_fold_insert[of "[]" ps name] by simp

theorem form_fields_arrive_witness:
  "values_of ''b'' (snd (parse_form_urlencoded (form_text [(''b'', ''1&2''), (''a'', ''=''), (''b'', ''0'')]) [])) = [''1&2'', ''0'']"
proof -
  let ?ps = "[(''b'', ''1&2''), (''a'', ''=''), (''b'', ''0'')]"
  have "\<forall>(k, v) \<in> set ?ps. k \<noteq> []" by simp
  from form_fields_arrive[OF this prod.collapse[symmetric], of "''b''"] show ?thesis by simp
qed

section \<open>A cookie survives the trip\<close>

definition clean_name :: "string \<Rightarrow> bool" where
  "clean_name n \<longleftrightarrow> n \<noteq> [] \<and> list_all token_char n \<and> hd n \<noteq> CHR ''$''"

definition clean_value :: "string \<Rightarrow> bool" where
  "clean_value v \<longleftrightarrow> CHR 0x22 \<notin> set v \<and> CHR 0x5C \<notin> set v"

definition value_text :: "string \<Rightarrow> string" where
  "value_text v = (if tocken v = [] then v else quote v)"

text \<open>What a browser sends back: name and value as they were written, \<open>; \<close> between two cookies.\<close>

fun cookie_header :: "(string \<times> string) list \<Rightarrow> string" where
  "cookie_header [] = []"
| "cookie_header [(n, v)] = n @ ''='' @ value_text v"
| "cookie_header ((n, v) # cs) = n @ ''='' @ value_text v @ ''; '' @ cookie_header cs"

lemma cookie_header_Cons:
  "cookie_header ((n, v) # cs) = n @ ''='' @ value_text v @ (if cs = [] then [] else ''; '' @ cookie_header cs)"
  by (cases cs) simp_all

lemma token_char_plain:
  "token_char c \<Longrightarrow> c \<noteq> CHR 0x0D \<and> c \<noteq> CHR '' '' \<and> c \<noteq> CHR 0x09 \<and> c \<noteq> CHR '';'' \<and> c \<noteq> CHR '','' \<and> c \<noteq> CHR ''='' \<and> c \<noteq> CHR 0x22"
proof -
  have "\<forall>x \<in> set [CHR 0x0D, CHR '' '', CHR 0x09, CHR '';'', CHR '','', CHR ''='', CHR 0x22]. \<not> token_char x"
    by code_simp
  then show "token_char c \<Longrightarrow> ?thesis" by auto
qed

lemma skip_ws_stays: "s = [] \<or> hd s \<notin> {CHR 0x0D, CHR '' '', CHR 0x09} \<Longrightarrow> skip_ws s = s"
  by (cases s) auto

lemma not_token: "\<not> token_char (CHR '';'')" "\<not> token_char (CHR ''='')" "\<not> token_char (CHR 0x22)"
  by (simp_all add: token_char_def separator_def)

lemma tocken_run:
  assumes "list_all token_char n" "r = [] \<or> \<not> token_char (hd r)"
  shows "takeWhile token_char (n @ r) = n" "tocken (n @ r) = r"
  using assms by (cases r; auto simp: list_all_iff tocken_def takeWhile_append2 dropWhile_append2 takeWhile_eq_all_conv dropWhile_eq_Nil_conv)+

lemma ends_pair_next:
  assumes "r = [] \<or> (\<exists>u. r = ''; '' @ u \<and> (u = [] \<or> token_char (hd u)))"
  shows "ends_pair r = drop 2 r"
  using assms
proof
  assume "\<exists>u. r = ''; '' @ u \<and> (u = [] \<or> token_char (hd u))"
  then obtain u where u: "r = ''; '' @ u" "u = [] \<or> token_char (hd u)" by blast
  then have "skip_ws u = u" by (intro skip_ws_stays) (auto dest: token_char_plain)
  then show ?thesis by (simp add: ends_pair_def u)
qed (simp add: ends_pair_def)

lemma read_value_text:
  assumes v: "clean_value v" and r: "r = [] \<or> (\<exists>u. r = ''; '' @ u \<and> (u = [] \<or> token_char (hd u)))"
  shows "read_value (skip_ws (value_text v @ r)) = ((True, v), drop 2 r)"
proof (cases "tocken v = []")
  case True
  then have tok: "list_all token_char v" by (auto simp: tocken_def list_all_iff dropWhile_eq_Nil_conv)
  have stop: "r = [] \<or> \<not> token_char (hd r)" using r by (auto simp: not_token)
  have "skip_ws (v @ r) = v @ r"
  proof (rule skip_ws_stays)
    show "v @ r = [] \<or> hd (v @ r) \<notin> {CHR 0x0D, CHR '' '', CHR 0x09}"
      using tok r token_char_plain by (cases v) auto
  qed
  moreover have "read_value (v @ r) = ((True, v), drop 2 r)"
  proof (cases v)
    case Nil
    then show ?thesis using r ends_pair_next[OF r] tocken_run[OF tok stop] by (auto simp: read_value_def)
  next
    case (Cons c v')
    then have "tocken (v @ r) \<noteq> v @ r" using tocken_run[OF tok stop] by simp
    moreover have "hd (v @ r) \<noteq> CHR 0x22" using tok Cons token_char_plain by auto
    ultimately show ?thesis using Cons tocken_run[OF tok stop] ends_pair_next[OF r] by (simp add: read_value_def)
  qed
  ultimately show ?thesis using True by (simp add: value_text_def)
next
  case False
  have q: "skip_ws (quote v @ r) = quote v @ r" by (rule skip_ws_stays) (simp add: quote_def)
  have u: "unquote (quote v @ r) = (v, r)" using v by (intro unquote_quote) (auto simp: clean_value_def)
  have "r \<noteq> quote v @ r" "quote v @ r \<noteq> []" "hd (quote v @ r) = CHR 0x22" by (simp_all add: quote_def)
  then show ?thesis using False q u ends_pair_next[OF r] by (simp add: value_text_def read_value_def)
qed

lemma read_key_value_pair:
  assumes n: "clean_name n" and v: "clean_value v"
    and r: "r = [] \<or> (\<exists>u. r = ''; '' @ u \<and> (u = [] \<or> token_char (hd u)))"
  shows "read_key_value (n @ ''='' @ value_text v @ r) = ((True, n, v), drop 2 r)"
proof -
  let ?s = "n @ ''='' @ value_text v @ r"
  have tok: "list_all token_char n" and ne: "n \<noteq> []" using n by (auto simp: clean_name_def)
  have "token_char (hd n)" using tok ne by (cases n) auto
  then have p: "skip_ws ?s = ?s" using ne by (intro skip_ws_stays) (auto dest: token_char_plain)
  have run: "takeWhile token_char ?s = n" "tocken ?s = ''='' @ value_text v @ r"
    using tocken_run[OF tok, of "''='' @ value_text v @ r"] by (simp_all add: not_token)
  have eq: "skip_ws (''='' @ value_text v @ r) = CHR ''='' # value_text v @ r" by (simp add: skip_ws_stays)
  show ?thesis
    unfolding read_key_value_def Let_def p run eq using ne read_value_text[OF v r] by simp
qed

lemma cookie_loop_header:
  assumes "\<forall>(n, v) \<in> set cs. clean_name n \<and> clean_value v"
  shows "cookie_loop (cookie_header cs) c acc = fold keep_cookie (c # map (\<lambda>(n, v). new_cookie n v) cs) acc"
  using assms
proof (induction cs arbitrary: c acc)
  case Nil
  then show ?case by (simp add: cookie_loop.simps)
next
  case (Cons p cs)
  obtain n v where p: "p = (n, v)" by (cases p)
  let ?r = "if cs = [] then [] else ''; '' @ cookie_header cs"
  have nv: "clean_name n" "clean_value v" using Cons.prems by (auto simp: p)
  have "cs \<noteq> [] \<Longrightarrow> cookie_header cs \<noteq> [] \<and> token_char (hd (cookie_header cs))"
    using Cons.prems by (cases cs) (auto simp: cookie_header_Cons clean_name_def hd_append list_all_iff split: if_splits)
  then have r: "?r = [] \<or> (\<exists>u. ?r = ''; '' @ u \<and> (u = [] \<or> token_char (hd u)))" by auto
  have s: "cookie_header (p # cs) = n @ ''='' @ value_text v @ ?r" unfolding p by (rule cookie_header_Cons)
  have step: "read_key_value (cookie_header (p # cs)) = ((True, n, v), cookie_header cs)"
    unfolding s read_key_value_pair[OF nv r] by simp
  have "cookie_header (p # cs) \<noteq> []" unfolding s by simp
  then have "cookie_loop (cookie_header (p # cs)) c acc = cookie_loop (cookie_header cs) (new_cookie n v) (keep_cookie c acc)"
    using nv(1) by (subst cookie_loop.simps) (simp add: step clean_name_def)
  then show ?case using Cons by (simp add: p)
qed

lemma map_of_kept:
  "(\<forall>c \<in> set cs. ck_name c \<noteq> []) \<Longrightarrow>
     map_of (fold keep_cookie cs acc) n =
       (case map_of acc n of Some x \<Rightarrow> Some x | None \<Rightarrow> map_of (map (\<lambda>c. (ck_name c, c)) cs) n)"
  by (induction cs arbitrary: acc) (auto simp: keep_cookie_def omap_simps split: option.split)

text \<open>
  Property C10. Cookies come back: each cookie of a response, with a token for its name and without quotes
  and backslashes in its value, is written as its name and value before any attributes, and when a
  client sends all of them back, in any order, the value found under the name of each is the one that
  was written.
\<close>

theorem cookies_come_back:
  assumes "\<forall>c \<in> set cs. clean_name (ck_name c) \<and> clean_value (ck_value c)" "distinct (map ck_name cs)" "c \<in> set cs"
  shows "(\<exists>attrs. write_cookie gmt c = Inr (''Set-Cookie:'' @ cookie_header [(ck_name c, ck_value c)] @ attrs)) \<and>
    ck_value (cookie_by_name (parse_cookies (cookie_header (map (\<lambda>c. (ck_name c, ck_value c)) cs))) (ck_name c)) = ck_value c"
proof -
  let ?ps = "map (\<lambda>c. (ck_name c, ck_value c)) cs"
  let ?cs = "map (\<lambda>(n, v). new_cookie n v) ?ps"
  have clean: "\<forall>(n, v) \<in> set ?ps. clean_name n \<and> clean_value v" using assms(1) by auto
  have "skip_ws (cookie_header ?ps) = cookie_header ?ps"
  proof (rule skip_ws_stays)
    show "cookie_header ?ps = [] \<or> hd (cookie_header ?ps) \<notin> {CHR 0x0D, CHR '' '', CHR 0x09}"
      using assms(1) token_char_plain
      by (cases cs) (auto simp: cookie_header_Cons clean_name_def hd_append list_all_iff split: if_splits)
  qed
  then have parsed: "parse_cookies (cookie_header ?ps) = fold keep_cookie ?cs []"
    using cookie_loop_header[OF clean] by (simp add: parse_cookies_def keep_cookie_def new_cookie_def)
  have named: "\<forall>c \<in> set ?cs. ck_name c \<noteq> []" using assms(1) by (auto simp: new_cookie_def clean_name_def)
  have names: "map (\<lambda>c. (ck_name c, c)) ?cs = map (\<lambda>c. (ck_name c, new_cookie (ck_name c) (ck_value c))) cs"
    by (simp add: new_cookie_def)
  have "map_of (map (\<lambda>c. (ck_name c, new_cookie (ck_name c) (ck_value c))) cs) (ck_name c) =
      Some (new_cookie (ck_name c) (ck_value c))"
    using assms(2,3) by (intro map_of_is_SomeI) (auto simp: o_def)
  then have "cookie_by_name (fold keep_cookie ?cs []) (ck_name c) = new_cookie (ck_name c) (ck_value c)"
    unfolding cookie_by_name_def map_of_kept[OF named] names by simp
  then show ?thesis using assms(1,3) parsed
    by (auto simp: write_cookie_def clean_name_def new_cookie_def value_text_def)
qed

theorem cookies_come_back_witness:
  "ck_value (cookie_by_name (parse_cookies (''lang=zh; note='' @ quote ''a b'')) ''note'') = ''a b''"
proof -
  let ?a = "new_cookie ''lang'' ''zh''" and ?b = "new_cookie ''note'' ''a b''"
  have sent: "cookie_header (map (\<lambda>c. (ck_name c, ck_value c)) [?a, ?b]) = ''lang=zh; note='' @ quote ''a b''" by code_simp
  have "\<forall>c \<in> set [?a, ?b]. clean_name (ck_name c) \<and> clean_value (ck_value c)" by code_simp
  moreover have "distinct (map ck_name [?a, ?b])" by (simp add: new_cookie_def)
  ultimately show ?thesis
    using cookies_come_back[of "[?a, ?b]" ?b] sent by (simp add: new_cookie_def)
qed

text \<open>
  A pair that can not be read takes the cookie before it along: the cookie is kept only when the next
  one has been read.
\<close>

lemma cookie_before_an_error_is_lost: "parse_cookies ''sid=1; goto=/home'' = []"
  by code_simp

end
