(* ===== verification/Multipart.thy ===== *)
theory Multipart
  imports Http_Request
begin

text \<open>
  Bodies of type \<open>multipart/form-data\<close>: the parser of \<open>private/multipart_parser.h\<close>, a state machine that
  is fed pieces of the body as they arrive. A file (\<open>http_file.h\<close>, \<open>private/http_file_buffer.h\<close>) is its
  contents; how many bytes it takes before memory and temporary directory are full is the parameter
  \<open>quota\<close>.
\<close>

section \<open>Parts\<close>

record upload_file =
  uf_name :: string
  uf_mime :: string
  uf_filename :: string
  uf_data :: string

definition new_file :: upload_file where
  "new_file = \<lparr>uf_name = [], uf_mime = [], uf_filename = [], uf_data = []\<rparr>"

definition has_mime :: "upload_file \<Rightarrow> bool" where
  "has_mime f \<longleftrightarrow> uf_mime f \<noteq> []"

text \<open>\<open>parse_pair\<close>: one \<open>; name=value\<close>, and what follows.\<close>

definition parse_pair :: "string \<Rightarrow> ((string \<times> string) \<times> string) option" where
  "parse_pair p =
     (if p = [] \<or> hd p \<noteq> CHR '';'' then None
      else
        let s = skip_ws (tl p); name = takeWhile token_char s; e = tocken s
        in if name = [] \<or> e = [] \<or> hd e \<noteq> CHR ''='' then None
           else
             let v = skip_ws (tl e)
             in if v = [] then None
                else if hd v = CHR 0x22
                then (if snd (unquote v) = v then None else Some ((name, fst (unquote v)), snd (unquote v)))
                else (if tocken v = v then None else Some ((name, takeWhile token_char v), tocken v)))"

lemma parse_pair_shorter: "parse_pair p = Some (x, r) \<Longrightarrow> length r < length p"
proof -
  assume a: "parse_pair p = Some (x, r)"
  let ?e = "tocken (skip_ws (tl p))" and ?v = "skip_ws (tl (tocken (skip_ws (tl p))))"
  have p: "p \<noteq> []" using a by (auto simp: parse_pair_def)
  have "r = snd (unquote ?v) \<or> r = tocken ?v"
    using a by (auto simp: parse_pair_def Let_def split: if_splits)
  then have "length r \<le> length ?v" using unquote_shorter[of ?v] length_tocken[of ?v] by auto
  also have "\<dots> \<le> length (tl ?e)" by (rule length_skip_ws)
  also have "\<dots> \<le> length ?e" by simp
  also have "\<dots> \<le> length (skip_ws (tl p))" by (rule length_tocken)
  also have "\<dots> \<le> length (tl p)" by (rule length_skip_ws)
  also have "\<dots> < length p" using p by simp
  finally show ?thesis .
qed

function parse_content_disposition :: "string \<Rightarrow> upload_file \<Rightarrow> upload_file option" where
  "parse_content_disposition s f =
     (let p = skip_ws s
      in if p = [] then Some f
         else case parse_pair p of
                None \<Rightarrow> None
              | Some ((name, v), r) \<Rightarrow>
                  let n = map ascii_to_lower name
                  in parse_content_disposition r
                       (if n = ''filename'' then f\<lparr>uf_filename := v\<rparr>
                        else if n = ''name'' then f\<lparr>uf_name := v\<rparr> else f))"
  by pat_completeness auto
termination
  by (relation "measure (\<lambda>(s, _). length s)") (auto dest!: parse_pair_shorter intro: less_le_trans length_skip_ws)

declare parse_content_disposition.simps [simp del]

text \<open>One line of the header of a part; \<open>None\<close> for an error.\<close>

definition process_line :: "string \<Rightarrow> upload_file \<Rightarrow> upload_file option" where
  "process_line h f =
     (let s = skip_ws h; name = takeWhile token_char s; p = skip_ws (tocken s)
      in if p = [] \<or> hd p \<noteq> CHR '':'' then None
         else
           let p = skip_ws (tl p)
           in if compare_nocase name ''Content-Disposition'' = 0
              then (if compare_nocase (takeWhile token_char p) ''form-data'' \<noteq> 0 then None
                    else parse_content_disposition (tocken p) f)
              else if compare_nocase name ''Content-Type'' = 0
              then Some (f\<lparr>uf_mime := mi_media (parse_content_type p)\<rparr>)
              else Some f)"

text \<open>\<open>process_header\<close>: the lines up to the empty one. (The position moves past each line.)\<close>

definition crlf :: string where
  "crlf = [CHR 0x0D, CHR 0x0A]"

function process_header :: "string \<Rightarrow> upload_file \<Rightarrow> upload_file option" where
  "process_header hdr f =
     (if hdr = [] then None
      else case find_str crlf hdr of
             None \<Rightarrow> None
           | Some 0 \<Rightarrow> Some f
           | Some next \<Rightarrow>
               (case process_line (take next hdr) f of
                  None \<Rightarrow> None
                | Some f \<Rightarrow> process_header (drop (next + 2) hdr) f))"
  by pat_completeness auto
termination by (relation "measure (\<lambda>(s, _). length s)") auto

declare process_header.simps [simp del]

section \<open>The state machine\<close>

datatype mp_state =
    Expecting_first_boundary
  | Expecting_one_crlf_or_eof
  | Expecting_minus
  | Expecting_eof_cr
  | Expecting_eof_lf
  | Expecting_lf
  | Expecting_crlfcrlf
  | Expecting_separator_boundary

datatype mp_result =
    Parsing_error
  | Meta_ready
  | Content_partial
  | Content_ready
  | Continue_input
  | Eof
  | No_room_left

record multipart =
  mp_state :: mp_state
  mp_file :: upload_file
  mp_files :: "upload_file list"
  mp_position :: nat
  mp_header :: string
  mp_boundary :: string
  mp_ready :: bool

text \<open>\<open>set_content_type\<close>: the parser of a body whose type has a boundary. The first line break of the
  boundary does not appear at the beginning.\<close>

definition new_multipart :: "media_info \<Rightarrow> multipart option" where
  "new_multipart m =
     (let key = parameter_by_key m ''boundary''
      in if key = [] then None
         else Some \<lparr>mp_state = Expecting_first_boundary, mp_file = new_file, mp_files = [], mp_position = 2,
                    mp_header = [], mp_boundary = crlf @ ''--'' @ key, mp_ready = False\<rparr>)"

definition crlfcrlf :: string where
  "crlfcrlf = crlf @ crlf"

text \<open>\<open>sputn\<close> and \<open>sputc\<close> on the buffer of the file that is received.\<close>

definition put_part :: "nat \<Rightarrow> string \<Rightarrow> multipart \<Rightarrow> nat \<times> multipart" where
  "put_part quota s m =
     (let n = min (length s) (quota - length (uf_data (mp_file m)))
      in (n, m\<lparr>mp_file := (mp_file m)\<lparr>uf_data := uf_data (mp_file m) @ take n s\<rparr>\<rparr>))"

text \<open>
  The inner loop, over the contents of a part; its body for one byte first. \<open>position\<close> bytes of the
  boundary were read and are not yet in the file. The next byte of a C string is read with \<open>!\<close>: the
  position is below the length here.
\<close>

definition match_byte :: "nat \<Rightarrow> multipart \<Rightarrow> char \<Rightarrow> bool \<times> multipart" where
  "match_byte quota m c =
     (let b = mp_boundary m; pos = mp_position m
      in if c = b ! pos then (True, m\<lparr>mp_position := pos + 1\<rparr>)
         else if pos > 0 then
           (case put_part quota (take pos b) m of
              (n, m) \<Rightarrow> (n = pos, m\<lparr>mp_position := if c = b ! 0 then 1 else 0\<rparr>))
         else (True, m))"

definition content_byte :: "nat \<Rightarrow> multipart \<Rightarrow> char \<Rightarrow> mp_result \<times> multipart" where
  "content_byte quota m c =
     (case match_byte quota m c of
        (fits, m) \<Rightarrow>
          if \<not> fits then (No_room_left, m)
          else if mp_position m = 0 then
            (case put_part quota [c] m of (n, m) \<Rightarrow> (if n = 1 then Content_partial else No_room_left, m))
          else if mp_position m = length (mp_boundary m) then
            (Content_ready,
             m\<lparr>mp_state := Expecting_one_crlf_or_eof, mp_position := 0, mp_files := mp_files m @ [mp_file m],
               mp_file := new_file, mp_ready := False\<rparr>)
          else (Content_partial, m))"

fun consume_content :: "nat \<Rightarrow> multipart \<Rightarrow> string \<Rightarrow> (mp_result \<times> string) \<times> multipart" where
  "consume_content quota m [] = ((Content_partial, []), m)"
| "consume_content quota m (c # s) =
     (case content_byte quota m c of
        (Content_partial, m) \<Rightarrow> consume_content quota m s
      | (Content_ready, m) \<Rightarrow> ((Content_ready, s), m)
      | (r, m) \<Rightarrow> ((r, c # s), m))"

text \<open>The outer loop: one byte between the contents of two parts, except the very last of the body.\<close>

definition meta_byte :: "multipart \<Rightarrow> char \<Rightarrow> mp_result \<times> multipart" where
  "meta_byte m c =
     (let expect = (\<lambda>d st. if c \<noteq> d then (Parsing_error, m) else (Continue_input, m\<lparr>mp_state := st\<rparr>)) in
      case mp_state m of
        Expecting_first_boundary \<Rightarrow>
          if c \<noteq> mp_boundary m ! mp_position m then (Parsing_error, m)
          else let m = m\<lparr>mp_position := mp_position m + 1\<rparr>
               in (Continue_input,
                   if mp_position m = length (mp_boundary m)
                   then m\<lparr>mp_state := Expecting_one_crlf_or_eof, mp_position := 0\<rparr> else m)
      | Expecting_one_crlf_or_eof \<Rightarrow>
          if c = CHR 0x0D then (Continue_input, m\<lparr>mp_state := Expecting_lf\<rparr>)
          else if c = CHR ''-'' then (Continue_input, m\<lparr>mp_state := Expecting_minus\<rparr>)
          else (Parsing_error, m)
      | Expecting_minus \<Rightarrow> expect (CHR ''-'') Expecting_eof_cr
      | Expecting_eof_cr \<Rightarrow> expect (CHR 0x0D) Expecting_eof_lf
      | Expecting_lf \<Rightarrow> expect (CHR 0x0A) Expecting_crlfcrlf
      | Expecting_crlfcrlf \<Rightarrow>
          let m = m\<lparr>mp_header := mp_header m @ [c],
                    mp_position := if c = crlfcrlf ! mp_position m then mp_position m + 1 else 0\<rparr>
          in if mp_position m = length crlfcrlf
             then (case process_header (mp_header m) (mp_file m) of
                     None \<Rightarrow> (Parsing_error, m)
                   | Some f \<Rightarrow>
                       (Meta_ready,
                        m\<lparr>mp_file := f, mp_header := [], mp_position := 0,
                          mp_state := Expecting_separator_boundary, mp_ready := True\<rparr>))
             else (Continue_input, m)
      | _ \<Rightarrow> (Parsing_error, m))"

text \<open>\<open>consume\<close>: how it returns, what is left of the buffer, and the parser.\<close>

fun consume :: "nat \<Rightarrow> multipart \<Rightarrow> string \<Rightarrow> (mp_result \<times> string) \<times> multipart" where
  "consume quota m [] = ((if mp_ready m then Content_partial else Continue_input, []), m)"
| "consume quota m (c # s) =
     (if mp_state m = Expecting_separator_boundary then consume_content quota m (c # s)
      else if mp_state m = Expecting_eof_lf then
        (if c = CHR 0x0A \<and> s = [] then ((Eof, []), m) else ((Parsing_error, c # s), m))
      else case meta_byte m c of
             (Continue_input, m) \<Rightarrow> consume quota m s
           | (Meta_ready, m) \<Rightarrow> ((Meta_ready, s), m)
           | (r, m) \<Rightarrow> ((r, c # s), m))"

section \<open>How much of the buffer is left\<close>

lemma content_byte_result:
  "content_byte q m c = (r, m') \<Longrightarrow> r = Content_partial \<or> r = Content_ready \<or> r = No_room_left"
  by (auto simp: content_byte_def split: prod.splits if_splits)

lemma meta_byte_result:
  "meta_byte m c = (r, m') \<Longrightarrow> r = Continue_input \<or> r = Meta_ready \<or> r = Parsing_error"
  by (auto simp: meta_byte_def Let_def split: mp_state.splits if_splits option.splits)

lemma consume_content_rest:
  "consume_content q m s = ((r, rest), m') \<Longrightarrow>
     (r = Content_partial \<and> rest = []) \<or> (r = Content_ready \<and> length rest < length s) \<or> r = No_room_left"
proof (induction s arbitrary: m)
  case (Cons c s)
  obtain x k where "content_byte q m c = (x, k)" by (cases "content_byte q m c")
  then show ?case using Cons content_byte_result[of q m c x k] by fastforce
qed simp

lemma consume_rest:
  "consume q m s = ((r, rest), m') \<Longrightarrow> s \<noteq> [] \<Longrightarrow>
     length rest < length s \<or> r = Parsing_error \<or> r = No_room_left"
proof (induction s arbitrary: m)
  case (Cons c s)
  show ?case
  proof (cases "mp_state m = Expecting_separator_boundary")
    case True
    then show ?thesis using Cons.prems consume_content_rest[of q m "c # s" r rest m'] by auto
  next
    case False
    obtain x k where "meta_byte m c = (x, k)" by (cases "meta_byte m c")
    then show ?thesis
      using Cons False meta_byte_result[of m c x k] by (cases "s = []") (fastforce split: if_splits)+
  qed
qed simp

section \<open>The body of a request\<close>

text \<open>
  \<open>content_limits\<close> and the room for one file; the progress of a body. \<open>bd_data\<close> is the part of
  \<open>post_data\<close> that has arrived, for a body that is kept whole. No content filter is installed by the
  site, so the branches for filters are left out.
\<close>

record limits =
  content_length_limit :: int
  multipart_limit :: int
  file_quota :: nat

record body =
  bd_data :: string
  bd_read :: nat
  bd_full :: bool
  bd_multipart :: "multipart option"
  bd_post :: "(string \<times> string) list"
  bd_files :: "upload_file list"
  bd_ready :: bool

definition new_body :: "int \<Rightarrow> body" where
  "new_body len = \<lparr>bd_data = [], bd_read = 0, bd_full = False, bd_multipart = None, bd_post = [], bd_files = [],
     bd_ready = (len = 0)\<rparr>"

definition size_ok :: "upload_file \<Rightarrow> int \<Rightarrow> bool" where
  "size_ok f sz \<longleftrightarrow> has_mime f \<or> int (length (uf_data f)) \<le> sz"

text \<open>
  \<open>on_content_start\<close>: the status of an error, or 0. A negative length passes the comparison with the
  limit, and \<open>vector::resize\<close> throws.
\<close>

definition on_content_start :: "limits \<Rightarrow> media_info \<Rightarrow> int \<Rightarrow> body \<Rightarrow> (exn + int) \<times> body" where
  "on_content_start l ct len b =
     (if len = 0 then (Inr 0, b)
      else if is_multipart_form_data ct then
        (if len > multipart_limit l then (Inr 413, b)
         else case new_multipart ct of
                None \<Rightarrow> (Inr 400, b)
              | Some m \<Rightarrow> (Inr 0, b\<lparr>bd_multipart := Some m\<rparr>))
      else if len > content_length_limit l then (Inr 413, b)
      else if len < 0 then (Inl Length_error, b)
      else (Inr 0, b\<lparr>bd_full := True\<rparr>))"

text \<open>The loop of \<open>on_content_progress\<close> over what has arrived: a status, or the last result.\<close>

function feed :: "limits \<Rightarrow> bool \<Rightarrow> mp_result \<Rightarrow> multipart \<Rightarrow> string \<Rightarrow> (int + mp_result) \<times> multipart" where
  "feed l complete r m s =
     (if s = [] then (Inr r, m)
      else case consume (file_quota l) m s of
             ((Meta_ready, rest), m) \<Rightarrow> feed l complete Meta_ready m rest
           | ((Content_partial, rest), m) \<Rightarrow>
               if \<not> size_ok (mp_file m) (content_length_limit l) then (Inl 413, m)
               else feed l complete Content_partial m rest
           | ((Content_ready, rest), m) \<Rightarrow>
               if \<not> size_ok (last (mp_files m)) (content_length_limit l) then (Inl 413, m)
               else feed l complete Content_ready m rest
           | ((Continue_input, rest), m) \<Rightarrow> feed l complete Continue_input m rest
           | ((No_room_left, rest), m) \<Rightarrow> (Inl 413, m)
           | ((Eof, rest), m) \<Rightarrow>
               if rest \<noteq> [] \<or> \<not> complete then (Inl 400, m) else feed l complete Eof m rest
           | ((Parsing_error, rest), m) \<Rightarrow> (Inl 400, m))"
  by pat_completeness auto
termination
  by (relation "measure (\<lambda>(l, c, r, m, s). length s)") (auto dest!: sym[THEN consume_rest])

declare feed.simps [simp del]

text \<open>What becomes of the parts at the end: fields without a type are form fields.\<close>

definition sort_part :: "upload_file \<Rightarrow> body \<Rightarrow> body" where
  "sort_part f b =
     (if has_mime f then b\<lparr>bd_files := bd_files b @ [f]\<rparr>
      else b\<lparr>bd_post := multimap_insert (uf_name f) (uf_data f) (bd_post b)\<rparr>)"

definition content_complete :: "media_info \<Rightarrow> body \<Rightarrow> body" where
  "content_complete ct b =
     (let b = (if bd_full b \<and> is_form_urlencoded ct
               then b\<lparr>bd_post := snd (parse_form_urlencoded (bd_data b) (bd_post b))\<rparr> else b);
          b = (case bd_multipart b of
                 None \<Rightarrow> b
               | Some m \<Rightarrow> fold sort_part (mp_files m) (b\<lparr>bd_multipart := None\<rparr>))
      in b\<lparr>bd_ready := True\<rparr>)"

definition on_content_progress :: "limits \<Rightarrow> media_info \<Rightarrow> int \<Rightarrow> string \<Rightarrow> body \<Rightarrow> int \<times> body" where
  "on_content_progress l ct len chunk b =
     (if chunk = [] then (0, b)
      else
        let b = b\<lparr>bd_read := bd_read b + length chunk,
                  bd_data := if bd_full b then bd_data b @ chunk else bd_data b\<rparr>;
            complete = (int (bd_read b) = len);
            (r, b) = (case bd_multipart b of
                        None \<Rightarrow> (0, b)
                      | Some m \<Rightarrow>
                          (case feed l complete Continue_input m chunk of
                             (Inl e, m) \<Rightarrow> (e, b\<lparr>bd_multipart := Some m\<rparr>)
                           | (Inr r, m) \<Rightarrow>
                               (if complete \<and> r \<noteq> Eof then 400 else 0, b\<lparr>bd_multipart := Some m\<rparr>)))
        in if r \<noteq> 0 then (r, b)
           else (0, if complete then content_complete ct b else b))"

text \<open>One call for each piece that arrives, up to the first error (\<open>connection::on_some_content_read\<close>).\<close>

fun receive_pieces :: "limits \<Rightarrow> media_info \<Rightarrow> int \<Rightarrow> string list \<Rightarrow> body \<Rightarrow> int \<times> body" where
  "receive_pieces l ct len [] b = (0, b)"
| "receive_pieces l ct len (c # cs) b =
     (case on_content_progress l ct len c b of
        (r, b) \<Rightarrow> if r \<noteq> 0 then (r, b) else receive_pieces l ct len cs b)"

section \<open>Pieces of a body\<close>

definition mp_ok :: "multipart \<Rightarrow> bool" where
  "mp_ok m \<longleftrightarrow> (mp_ready m \<longleftrightarrow> mp_state m = Expecting_separator_boundary)"

lemma put_part_fields [simp]:
  "mp_state (snd (put_part q s m)) = mp_state m" "mp_position (snd (put_part q s m)) = mp_position m"
  "mp_boundary (snd (put_part q s m)) = mp_boundary m" "mp_ready (snd (put_part q s m)) = mp_ready m"
  "mp_files (snd (put_part q s m)) = mp_files m" "mp_header (snd (put_part q s m)) = mp_header m"
  by (simp_all add: put_part_def Let_def)

text \<open>What one byte does to the rest of the parser.\<close>

lemma match_byte_fields:
  assumes "match_byte q m c = (b, m')"
  shows "mp_state m' = mp_state m" "mp_ready m' = mp_ready m" "mp_files m' = mp_files m" "mp_boundary m' = mp_boundary m"
    "mp_header m' = mp_header m" "\<exists>x. mp_file m' = (mp_file m)\<lparr>uf_data := uf_data (mp_file m) @ x\<rparr>"
  using assms by (auto simp: match_byte_def put_part_def Let_def split: if_splits intro: exI[of _ "[]"])

lemma put_part_file: "\<exists>x. mp_file (snd (put_part q s m)) = (mp_file m)\<lparr>uf_data := uf_data (mp_file m) @ x\<rparr>"
  by (auto simp: put_part_def Let_def)

lemma content_byte_partial:
  assumes "content_byte q m c = (Content_partial, m')"
  shows "mp_state m' = mp_state m" "mp_ready m' = mp_ready m" "mp_files m' = mp_files m" "mp_boundary m' = mp_boundary m"
    "\<exists>x. mp_file m' = (mp_file m)\<lparr>uf_data := uf_data (mp_file m) @ x\<rparr>"
proof -
  obtain b k where k: "match_byte q m c = (b, k)" by (cases "match_byte q m c")
  note f = match_byte_fields[OF k]
  obtain x where x: "mp_file k = (mp_file m)\<lparr>uf_data := uf_data (mp_file m) @ x\<rparr>" using f(6) by blast
  have m': "m' = k \<or> m' = snd (put_part q [c] k)"
    using assms by (auto simp: content_byte_def k split: if_splits prod.splits)
  then show "mp_state m' = mp_state m" "mp_ready m' = mp_ready m" "mp_files m' = mp_files m" "mp_boundary m' = mp_boundary m"
    using f by auto
  from m' show "\<exists>x. mp_file m' = (mp_file m)\<lparr>uf_data := uf_data (mp_file m) @ x\<rparr>"
    using put_part_file[of q "[c]" k] x by auto
qed

lemma content_byte_ready:
  assumes "content_byte q m c = (Content_ready, m')"
  shows "mp_state m' = Expecting_one_crlf_or_eof" "\<not> mp_ready m'" "mp_boundary m' = mp_boundary m"
    "\<exists>x. mp_files m' = mp_files m @ [(mp_file m)\<lparr>uf_data := uf_data (mp_file m) @ x\<rparr>]"
proof -
  obtain b k where k: "match_byte q m c = (b, k)" by (cases "match_byte q m c")
  note f = match_byte_fields[OF k]
  have "m' = k\<lparr>mp_state := Expecting_one_crlf_or_eof, mp_position := 0, mp_files := mp_files k @ [mp_file k],
               mp_file := new_file, mp_ready := False\<rparr>"
    using assms by (auto simp: content_byte_def k split: if_splits prod.splits)
  then show "mp_state m' = Expecting_one_crlf_or_eof" "\<not> mp_ready m'" "mp_boundary m' = mp_boundary m"
    "\<exists>x. mp_files m' = mp_files m @ [(mp_file m)\<lparr>uf_data := uf_data (mp_file m) @ x\<rparr>]"
    using f by auto
qed

text \<open>The inner loop on a buffer that is cut, and what it does to the file that is received.\<close>

lemma consume_content_append:
  "consume_content q m (s @ t) =
     (case consume_content q m s of
        ((r, rest), m') \<Rightarrow> if r = Content_partial then consume_content q m' t else ((r, rest @ t), m'))"
proof (induction s arbitrary: m)
  case (Cons c s)
  obtain x k where "content_byte q m c = (x, k)" by (cases "content_byte q m c")
  then show ?case using Cons content_byte_result[of q m c x k] by auto
qed simp

lemma consume_content_partial:
  assumes "consume_content q m s = ((Content_partial, rest), m')"
  shows "mp_state m' = mp_state m \<and> mp_ready m' = mp_ready m \<and> mp_files m' = mp_files m \<and>
    (\<exists>x. mp_file m' = (mp_file m)\<lparr>uf_data := uf_data (mp_file m) @ x\<rparr>)"
  using assms
proof (induction s arbitrary: m)
  case Nil
  then show ?case by (auto intro!: exI[of _ "[]"])
next
  case (Cons c s)
  obtain x k where k: "content_byte q m c = (x, k)" by (cases "content_byte q m c")
  then have p: "x = Content_partial" using Cons.prems content_byte_result[OF k] by auto
  note f = content_byte_partial[OF k[unfolded p]]
  have "consume_content q k s = ((Content_partial, rest), m')" using Cons.prems k p by simp
  from Cons.IH[OF this] f show ?case by auto
qed

lemma consume_content_ready:
  assumes "consume_content q m s = ((Content_ready, rest), m')"
  shows "mp_state m' = Expecting_one_crlf_or_eof \<and> \<not> mp_ready m' \<and>
    (\<exists>x. mp_files m' = mp_files m @ [(mp_file m)\<lparr>uf_data := uf_data (mp_file m) @ x\<rparr>])"
  using assms
proof (induction s arbitrary: m)
  case (Cons c s)
  obtain x k where k: "content_byte q m c = (x, k)" by (cases "content_byte q m c")
  then consider "x = Content_partial" | "x = Content_ready" using Cons.prems content_byte_result[OF k] by auto
  then show ?case
  proof cases
    case 1
    note f = content_byte_partial[OF k[unfolded 1]]
    have "consume_content q k s = ((Content_ready, rest), m')" using Cons.prems k 1 by simp
    from Cons.IH[OF this] f show ?thesis by auto
  next
    case 2
    then show ?thesis using Cons.prems k content_byte_ready[OF k[unfolded 2]] by simp
  qed
qed simp

lemma meta_byte_ok:
  assumes "meta_byte m c = (r, m')" "mp_ok m" "mp_state m \<noteq> Expecting_separator_boundary" "r \<noteq> Parsing_error"
  shows "mp_ok m'" "r = Meta_ready \<longleftrightarrow> mp_state m' = Expecting_separator_boundary"
  using assms by (auto simp: meta_byte_def mp_ok_def Let_def split: mp_state.splits if_splits option.splits)

lemma consume_ok:
  assumes "consume q m s = ((r, rest), m')" "mp_ok m" "r \<notin> {Parsing_error, No_room_left}"
  shows "mp_ok m'"
  using assms
proof (induction s arbitrary: m)
  case (Cons c s)
  show ?case
  proof (cases "mp_state m = Expecting_separator_boundary")
    case True
    then have "consume_content q m (c # s) = ((r, rest), m')" using Cons.prems by simp
    then show ?thesis using Cons.prems(2,3) True consume_content_rest[of q m "c # s" r rest m']
      consume_content_partial[of q m "c # s" rest m'] consume_content_ready[of q m "c # s" rest m']
      by (auto simp: mp_ok_def)
  next
    case False
    obtain x k where k: "meta_byte m c = (x, k)" by (cases "meta_byte m c")
    show ?thesis
      using Cons False k meta_byte_result[OF k] meta_byte_ok[OF k Cons.prems(2) False] by (auto split: if_splits)
  qed
qed simp

text \<open>The outer loop on a buffer that is cut: what ends it inside the first piece ends it there; at the
  end of the piece it goes on, but the end of the body has to be the end of the buffer.\<close>

lemma consume_append:
  assumes "mp_ok m" "consume q m s = ((r, rest), m')" "t \<noteq> []"
  shows "consume q m (s @ t) =
      (if r = Content_partial \<or> r = Continue_input then consume q m' t
       else if r = Eof then ((Parsing_error, CHR 0x0A # t), m')
       else ((r, rest @ t), m'))"
  using assms
proof (induction s arbitrary: m)
  case (Cons c s)
  show ?case
  proof (cases "mp_state m = Expecting_separator_boundary")
    case True
    then have c: "consume_content q m (c # s) = ((r, rest), m')" using Cons.prems by simp
    have "consume q m ((c # s) @ t) =
        (if r = Content_partial then consume_content q m' t else ((r, rest @ t), m'))"
      using True consume_content_append[of q m "c # s" t] unfolding c by simp
    moreover have "r = Content_partial \<Longrightarrow> consume q m' t = consume_content q m' t"
      using consume_content_partial[of q m "c # s" rest m'] c True assms(3) by (cases t) auto
    moreover have "r = Content_partial \<or> r = Content_ready \<or> r = No_room_left"
      using consume_content_rest[OF c] by auto
    ultimately show ?thesis by auto
  next
    case False
    obtain x k where k: "meta_byte m c = (x, k)" by (cases "meta_byte m c")
    show ?thesis
      using Cons False k meta_byte_result[OF k] meta_byte_ok(1)[OF k Cons.prems(1) False] by (auto split: if_splits)
  qed
qed (auto split: if_splits)

lemma consume_pause:
  assumes "consume q m s = ((r, rest), m')" "mp_ok m" "r = Content_partial \<or> r = Continue_input"
  shows "rest = [] \<and> (r = Content_partial \<longrightarrow> mp_state m' = Expecting_separator_boundary)"
  using assms
proof (induction s arbitrary: m)
  case Nil
  then show ?case by (auto simp: mp_ok_def split: if_splits)
next
  case (Cons c s)
  show ?case
  proof (cases "mp_state m = Expecting_separator_boundary")
    case True
    then have "consume_content q m (c # s) = ((r, rest), m')" using Cons.prems by simp
    then show ?thesis using Cons.prems(3) True consume_content_rest[of q m "c # s" r rest m']
      consume_content_partial[of q m "c # s" rest m'] by auto
  next
    case False
    obtain x k where k: "meta_byte m c = (x, k)" by (cases "meta_byte m c")
    show ?thesis
      using Cons False k meta_byte_result[OF k] meta_byte_ok(1)[OF k Cons.prems(2) False] by (auto split: if_splits)
  qed
qed

lemma feed_again: "s \<noteq> [] \<Longrightarrow> feed l c r m s = feed l c r' m s"
  by (subst (1 2) feed.simps) simp

lemma feed_Nil: "feed l c r m [] = (Inr r, m)"
  by (simp add: feed.simps)

text \<open>A field that is too long already is refused sooner or later.\<close>

lemma feed_too_long:
  assumes "mp_state m = Expecting_separator_boundary" "\<not> size_ok (mp_file m) (content_length_limit l)" "t \<noteq> []"
  shows "fst (feed l c r m t) = Inl 413"
proof -
  obtain x rest k where k: "consume (file_quota l) m t = ((x, rest), k)" by (metis surj_pair)
  then have c: "consume_content (file_quota l) m t = ((x, rest), k)" using assms(1,3) by (cases t) auto
  have big: "\<not> size_ok ((mp_file m)\<lparr>uf_data := uf_data (mp_file m) @ y\<rparr>) (content_length_limit l)" for y
    using assms(2) by (auto simp: size_ok_def has_mime_def)
  consider "x = Content_partial" | "x = Content_ready" | "x = No_room_left" using consume_content_rest[OF c] by auto
  then show ?thesis
  proof cases
    case 1
    then have "\<not> size_ok (mp_file k) (content_length_limit l)"
      using consume_content_partial[OF c[unfolded 1]] big by auto
    then show ?thesis using assms(3) k 1 by (subst feed.simps) simp
  next
    case 2
    then have "\<not> size_ok (last (mp_files k)) (content_length_limit l)"
      using consume_content_ready[OF c[unfolded 2]] big by auto
    then show ?thesis using assms(3) k 2 by (subst feed.simps) simp
  qed (use assms(3) k in \<open>subst feed.simps, simp\<close>)
qed

lemma feed_append:
  assumes "mp_ok m" "t \<noteq> []"
  shows "case feed l False r m s of
      (Inl e, m') \<Rightarrow> fst (feed l c r m (s @ t)) = Inl e
    | (Inr r', m') \<Rightarrow> mp_ok m' \<and> feed l c r m (s @ t) = feed l c r' m' t"
  using assms(1)
proof (induction "length s" arbitrary: r m s rule: less_induct)
  case less
  show ?case
  proof (cases "s = []")
    case True
    then show ?thesis using less.prems by (simp add: feed_Nil)
  next
    case False
    obtain x rest k where k: "consume (file_quota l) m s = ((x, rest), k)" by (metis surj_pair)
    note both = consume_append[OF less.prems k assms(2)]
    have ok: "x \<notin> {Parsing_error, No_room_left} \<Longrightarrow> mp_ok k" by (rule consume_ok[OF k less.prems])
    have shorter: "x \<notin> {Parsing_error, No_room_left} \<Longrightarrow> length rest < length s"
      using consume_rest[OF k False] by auto
    have IH: "case feed l False x k rest of
        (Inl e, m') \<Rightarrow> fst (feed l c x k (rest @ t)) = Inl e
      | (Inr r', m') \<Rightarrow> mp_ok m' \<and> feed l c x k (rest @ t) = feed l c r' m' t"
      if "x \<notin> {Parsing_error, No_room_left}" by (rule less.hyps[OF shorter[OF that] ok[OF that]])
    have st: "s @ t \<noteq> []" using False by simp
    show ?thesis
    proof (cases "x = Content_partial \<or> x = Continue_input")
      case True
      then have pause: "rest = []" "x = Content_partial \<longrightarrow> mp_state k = Expecting_separator_boundary" "mp_ok k"
        using consume_pause[OF k less.prems True] ok by auto
      have on: "feed l c r m (s @ t) = feed l c x k t"
        using both True st assms(2) by (subst (1 2) feed.simps) simp
      show ?thesis
        unfolding feed.simps[of l False r m s] k on using True pause assms(2) False
        by (auto simp: feed_Nil feed_too_long)
    next
      case stop: False
      then have cut: "consume (file_quota l) m (s @ t) =
          (if x = Eof then ((Parsing_error, CHR 0x0A # t), k) else ((x, rest @ t), k))" using both by simp
      show ?thesis
        using stop IH False
        by (cases x) (simp_all add: feed.simps[of l False r m s] feed.simps[of l c r m "s @ t"] cut k split: sum.splits prod.splits)
    qed
  qed
qed

lemma feed_error: "feed l c r m s = (Inl e, k) \<Longrightarrow> e = 413 \<or> e = 400"
proof (induction "length s" arbitrary: r m s rule: less_induct)
  case less
  obtain x rest j where j: "consume (file_quota l) m s = ((x, rest), j)" by (metis surj_pair)
  have s: "s \<noteq> []" using less.prems by (auto simp: feed_Nil)
  have shorter: "x \<notin> {Parsing_error, No_room_left} \<Longrightarrow> length rest < length s" using consume_rest[OF j s] by auto
  show ?case using less.prems less.hyps[OF shorter] s
    by (cases x) (auto simp: feed.simps[of l c r m s] j split: if_splits)
qed

definition body_ok :: "body \<Rightarrow> bool" where
  "body_ok b \<longleftrightarrow> (case bd_multipart b of None \<Rightarrow> True | Some m \<Rightarrow> mp_ok m)"

lemma progress_append:
  assumes "c \<noteq> []" "t \<noteq> []" "body_ok b" "int (bd_read b + length c) \<noteq> len"
    and "on_content_progress l ct len c b = (r, b')"
  shows "fst (on_content_progress l ct len (c @ t) b) = r \<and> r \<noteq> 0 \<or>
    r = 0 \<and> body_ok b' \<and> bd_read b' = bd_read b + length c \<and>
      on_content_progress l ct len (c @ t) b = on_content_progress l ct len t b'"
proof (cases "bd_multipart b")
  case None
  then have "r = 0" "b' = b\<lparr>bd_read := bd_read b + length c, bd_data := if bd_full b then bd_data b @ c else bd_data b\<rparr>"
    using assms(1,4,5) by (auto simp: on_content_progress_def Let_def split: if_splits)
  then show ?thesis using None assms(1,2) by (simp add: on_content_progress_def Let_def body_ok_def add.assoc)
next
  case (Some m)
  have m: "mp_ok m" using assms(3) Some by (simp add: body_ok_def)
  let ?c = "int (bd_read b + (length c + length t)) = len"
  obtain x k where k: "feed l False Continue_input m c = (x, k)" by (metis surj_pair)
  have inc: "(int (bd_read b + length c) = len) = False" using assms(4) by simp
  note both = feed_append[OF m assms(2), where l = l and r = Continue_input and s = c and c = ?c, unfolded k]
  show ?thesis
  proof (cases x)
    case (Inl e)
    obtain y j where j: "feed l ?c Continue_input m (c @ t) = (y, j)" by (metis surj_pair)
    have pos: "e \<noteq> 0" using feed_error[of l False Continue_input m c e k] k Inl by auto
    show ?thesis using both Inl j k Some assms(1,2,5) inc pos
      by (simp add: on_content_progress_def Let_def add.assoc)
  next
    case (Inr r')
    then have on: "mp_ok k" "feed l ?c Continue_input m (c @ t) = feed l ?c Continue_input k t"
      using both feed_again[OF assms(2)] by auto
    have "r = 0" "b' = b\<lparr>bd_read := bd_read b + length c, bd_data := if bd_full b then bd_data b @ c else bd_data b, bd_multipart := Some k\<rparr>"
      using assms(1,5) Some k Inr inc by (auto simp: on_content_progress_def Let_def split: if_splits)
    moreover obtain y j where "feed l ?c Continue_input k t = (y, j)" by (metis surj_pair)
    ultimately show ?thesis using Some assms(1,2) on
      by (cases y) (simp_all add: on_content_progress_def Let_def body_ok_def add.assoc)
  qed
qed


lemma receive_pieces_whole:
  assumes "int (length (concat ps)) = len" "on_content_start l ct len (new_body len) = (Inr 0, b)"
  shows "fst (receive_pieces l ct len ps b) = fst (on_content_progress l ct len (concat ps) b) \<and>
    (fst (receive_pieces l ct len ps b) = 0 \<longrightarrow>
      receive_pieces l ct len ps b = on_content_progress l ct len (concat ps) b)"
proof -
  have "bd_read b = 0 \<and> body_ok b"
    using assms(2) by (auto simp: on_content_start_def new_body_def body_ok_def new_multipart_def mp_ok_def Let_def
        split: if_splits option.splits)
  then have "int (bd_read b + length (concat ps)) = len" "body_ok b" using assms(1) by auto
  then show ?thesis
  proof (induction ps arbitrary: b)
    case Nil
    then show ?case by (simp add: on_content_progress_def)
  next
    case (Cons c ps)
    obtain r b' where p: "on_content_progress l ct len c b = (r, b')" by (metis surj_pair)
    consider "c = []" | "c \<noteq> []" "concat ps = []" | "c \<noteq> []" "concat ps \<noteq> []" by blast
    then show ?case
    proof cases
      case 1
      have same: "receive_pieces l ct len (c # ps) b = receive_pieces l ct len ps b" "concat (c # ps) = concat ps"
        using 1 by (simp_all add: on_content_progress_def)
      show ?thesis unfolding same using Cons.prems[unfolded same] by (rule Cons.IH)
    next
      case 2
      have "receive_pieces l ct len qs d = (0, d)" if "concat qs = []" for qs d
        using that by (induction qs) (simp_all add: on_content_progress_def)
      from this[OF 2(2)] have "receive_pieces l ct len ps b' = (0, b')" .
      moreover have "concat (c # ps) = c" using 2(2) by simp
      ultimately show ?thesis using p by (auto simp del: concat.simps)
    next
      case 3
      have inc: "int (bd_read b + length c) \<noteq> len" using Cons.prems(1) 3 by (cases "concat ps") auto
      from progress_append[OF 3 Cons.prems(2) inc p] show ?thesis
      proof (elim disjE conjE)
        assume "r = 0" "body_ok b'" "bd_read b' = bd_read b + length c"
          and one: "on_content_progress l ct len (c @ concat ps) b = on_content_progress l ct len (concat ps) b'"
        have "int (bd_read b' + length (concat ps)) = len"
          using Cons.prems(1) \<open>bd_read b' = bd_read b + length c\<close> by simp
        note IH = Cons.IH[OF this \<open>body_ok b'\<close>]
        have on: "receive_pieces l ct len (c # ps) b = receive_pieces l ct len ps b'" by (simp add: p \<open>r = 0\<close>)
        show ?thesis unfolding on concat.simps one by (rule IH)
      qed (simp add: p)
    qed
  qed
qed

text \<open>
  How the body of a request is cut into pieces on its way makes no difference: whatever the
  sizes of the pieces that arrive, the status is the one of the body in one piece, and if it is no error,
  so is everything the request then holds: form fields, files, and that it is ready.
\<close>

theorem pieces_do_not_matter:
  assumes "int (length (concat ps)) = len" "on_content_start l ct len (new_body len) = (Inr 0, b)"
  shows "fst (receive_pieces l ct len ps b) = fst (on_content_progress l ct len (concat ps) b) \<and>
    (fst (receive_pieces l ct len ps b) = 0 \<longrightarrow>
      receive_pieces l ct len ps b = on_content_progress l ct len (concat ps) b)"
  by (rule receive_pieces_whole[OF assms])

section \<open>A form with files survives the trip\<close>

text \<open>Only the first byte of the boundary is a carriage return, so a match that fails can start again only
  at the byte that made it fail: what the loop relies on.\<close>

definition plain_boundary :: "string \<Rightarrow> bool" where
  "plain_boundary b \<longleftrightarrow> (\<exists>r. b = CHR 0x0D # r \<and> r \<noteq> [] \<and> CHR 0x0D \<notin> set r)"

lemma find_str_shift:
  assumes "\<And>j. j < k \<Longrightarrow> \<not> starts_with b (drop j s)" "k \<le> length s"
  shows "find_str b s = map_option (\<lambda>i. k + i) (find_str b (drop k s))"
  using assms
proof (induction k arbitrary: s)
  case 0
  then show ?case by (cases "find_str b s") simp_all
next
  case (Suc k)
  obtain c u where s: "s = c # u" using Suc.prems(2) by (cases s) auto
  have "\<not> starts_with b (c # u)" using Suc.prems(1)[of 0] s by simp
  moreover have "find_str b u = map_option (\<lambda>i. k + i) (find_str b (drop k u))"
    using Suc.IH[of u] Suc.prems(1)[of "Suc _"] Suc.prems(2) s by auto
  ultimately show ?case by (cases "find_str b (drop k u)") (auto simp: s)
qed

lemma find_mismatch:
  assumes b: "plain_boundary b" and p: "p < length b" "c \<noteq> b ! p"
  shows "find_str b (take p b @ c # s) = map_option (\<lambda>i. p + i) (find_str b (c # s))"
proof -
  obtain r where r: "b = CHR 0x0D # r" "CHR 0x0D \<notin> set r" using b by (auto simp: plain_boundary_def)
  have "\<not> starts_with b (drop j (take p b @ c # s))" if j: "j < p" for j
  proof
    assume "starts_with b (drop j (take p b @ c # s))"
    then have pre: "take (length b) (drop j (take p b @ c # s)) = b" by (simp only: starts_with_take)
    show False
    proof (cases j)
      case 0
      then have "(take p b @ c # s) ! p = b ! p" using pre p(1) by (metis drop0 nth_take)
      then show False using p by (simp add: nth_append)
    next
      case (Suc i)
      have "(drop j (take p b @ c # s)) ! 0 = b ! 0" using pre r(1) by (metis length_greater_0_conv list.distinct(1) nth_take)
      then have "b ! j = CHR 0x0D" using j p(1) r(1) by (simp add: nth_append)
      then show False using r Suc j p(1) by (auto simp: in_set_conv_nth)
    qed
  qed
  from find_str_shift[OF this, of p] p(1) show ?thesis by simp
qed

lemma find_str_prefix: "find_str b (b @ s) = Some 0"
  using starts_with_append[of b s] by (cases "b @ s") simp_all

text \<open>The inner loop stops behind the first boundary, and keeps what is before it.\<close>

lemma consume_content_find:
  assumes "plain_boundary b" "mp_boundary m = b" "mp_position m < length b"
    and "find_str b (take (mp_position m) b @ s) = Some i"
    and "length (uf_data (mp_file m)) + i \<le> quota"
  shows "consume_content quota m s =
    ((Content_ready, drop (i + length b - mp_position m) s),
     m\<lparr>mp_state := Expecting_one_crlf_or_eof, mp_position := 0,
       mp_files := mp_files m @
         [(mp_file m)\<lparr>uf_data := uf_data (mp_file m) @ take i (take (mp_position m) b @ s)\<rparr>],
       mp_file := new_file, mp_ready := False\<rparr>)"
  using assms(2-)
proof (induction s arbitrary: m i)
  case Nil
  then have "i + length b \<le> length (take (mp_position m) b)"
    using find_str_SomeD[of b "take (mp_position m) b" i] by simp
  then show ?case using Nil.prems(2) by simp
next
  case (Cons c s)
  obtain r where r: "b = CHR 0x0D # r" "r \<noteq> []" using assms(1) by (auto simp: plain_boundary_def)
  let ?p = "mp_position m"
  show ?case
  proof (cases "c = b ! ?p")
    case True
    have eq: "take ?p b @ c # s = take (Suc ?p) b @ s"
      using Cons.prems(2) True by (simp add: take_Suc_conv_app_nth)
    show ?thesis
    proof (cases "Suc ?p = length b")
      case last: True
      then have "i = 0" using Cons.prems(3) eq find_str_prefix[of b s] by simp
      then show ?thesis using True last Cons.prems(1) r
        by (auto simp: content_byte_def match_byte_def Suc_diff_le)
    next
      case False
      let ?m = "m\<lparr>mp_position := Suc ?p\<rparr>"
      have "content_byte quota m c = (Content_partial, ?m)"
        using True False Cons.prems(1) by (simp add: content_byte_def match_byte_def)
      moreover have "Suc ?p < length b" using False Cons.prems(2) by simp
      ultimately show ?thesis
        using Cons.IH[of ?m i] Cons.prems eq by (simp add: Suc_diff_le diff_Suc split: nat.split)
    qed
  next
    case False
    obtain j where j: "find_str b (c # s) = Some j" "i = ?p + j"
      using Cons.prems(3) find_mismatch[OF assms(1) Cons.prems(2) False] by auto
    let ?d = "uf_data (mp_file m)"
    let ?k = "m\<lparr>mp_file := (mp_file m)\<lparr>uf_data := ?d @ take ?p b\<rparr>, mp_position := if c = b ! 0 then 1 else 0\<rparr>"
    have fit: "match_byte quota m c = (True, ?k)"
      using False Cons.prems(1,2,4) j(2) by (auto simp: match_byte_def put_part_def Let_def)
    show ?thesis
    proof (cases "c = b ! 0")
      case True
      then have one: "content_byte quota m c = (Content_partial, ?k)"
        using fit Cons.prems(1) r by (simp add: content_byte_def)
      have "take (mp_position ?k) b @ s = c # s" using True r by simp
      then have "find_str b (take (mp_position ?k) b @ s) = Some j" using j(1) by simp
      from Cons.IH[OF _ _ this] show ?thesis
        using one True Cons.prems j(2) r by (simp add: Suc_diff_le)
    next
      case other: False
      obtain u where u: "find_str b s = Some u" "j = Suc u"
        using j(1) other r by (auto split: if_splits)
      let ?n = "?k\<lparr>mp_file := (mp_file ?k)\<lparr>uf_data := uf_data (mp_file ?k) @ [c]\<rparr>\<rparr>"
      have one: "content_byte quota m c = (Content_partial, ?n)"
        using fit other Cons.prems(4) j(2) u(2) Cons.prems(2) by (simp add: content_byte_def put_part_def Let_def)
      have "find_str b (take (mp_position ?n) b @ s) = Some u" using other u(1) by simp
      from Cons.IH[OF _ _ this] show ?thesis
        using one other Cons.prems j(2) u(2) r by (simp add: Suc_diff_le)
    qed
  qed
qed

text \<open>The contents of a part do not contain the boundary; then neither do they together with it, before its end.\<close>

lemma find_str_before:
  assumes "plain_boundary b" "find_str b s = None"
  shows "find_str b (s @ b @ t) = Some (length s)"
  using assms(2)
proof (induction s)
  case Nil
  then show ?case using find_str_prefix[of b t] by simp
next
  case (Cons c s)
  obtain r where r: "b = CHR 0x0D # r" "CHR 0x0D \<notin> set r" using assms(1) by (auto simp: plain_boundary_def)
  have n: "\<not> starts_with b (c # s)" "find_str b s = None" using Cons.prems by (auto split: if_splits)
  have "\<not> starts_with b (c # s @ b @ t)"
  proof
    assume "starts_with b (c # s @ b @ t)"
    then have pre: "take (length b) ((c # s) @ b @ t) = b" by (simp add: starts_with_take)
    have short: "length (c # s) < length b"
    proof (rule ccontr)
      assume "\<not> length (c # s) < length b"
      then have "take (length b) (c # s) = b" using pre by (simp del: append_Cons)
      then show False using n(1) by (simp add: starts_with_take)
    qed
    then have "((c # s) @ b @ t) ! length (c # s) = b ! length (c # s)" using pre by (metis nth_take)
    then have "b ! length (c # s) = CHR 0x0D" using r(1) by (metis nth_append_length append_Cons)
    then have "r ! length s = CHR 0x0D" "length s < length r" using short r(1) by simp_all
    then show False using r(2) by (auto simp: in_set_conv_nth)
  qed
  then show ?case using Cons.IH n(2) by (simp add: Suc_length_conv)
qed

text \<open>What a browser makes of a form with files.\<close>

datatype form_part =
    Field string string
  | Upload string string string string string

fun part_header :: "form_part \<Rightarrow> string" where
  "part_header (Field n v) = ''Content-Disposition: form-data; name='' @ quote n @ crlf @ crlf"
| "part_header (Upload n fn ty st d) =
     ''Content-Disposition: form-data; name='' @ quote n @ ''; filename='' @ quote fn @ crlf @
     ''Content-Type: '' @ ty @ ''/'' @ st @ crlf @ crlf"

fun part_data :: "form_part \<Rightarrow> string" where
  "part_data (Field n v) = v"
| "part_data (Upload n fn ty st d) = d"

fun part_file :: "form_part \<Rightarrow> upload_file" where
  "part_file (Field n v) = \<lparr>uf_name = n, uf_mime = [], uf_filename = [], uf_data = v\<rparr>"
| "part_file (Upload n fn ty st d) = \<lparr>uf_name = n, uf_mime = ty @ ''/'' @ st, uf_filename = fn, uf_data = d\<rparr>"

definition clean_text :: "string \<Rightarrow> bool" where
  "clean_text s \<longleftrightarrow> list_all (\<lambda>c. 32 \<le> byte c) s \<and> CHR 0x22 \<notin> set s \<and> CHR 0x5C \<notin> set s"

definition lower_token :: "string \<Rightarrow> bool" where
  "lower_token s \<longleftrightarrow> s \<noteq> [] \<and> list_all token_char s \<and> map ascii_to_lower s = s"

fun clean_part :: "form_part \<Rightarrow> bool" where
  "clean_part (Field n v) \<longleftrightarrow> clean_text n"
| "clean_part (Upload n fn ty st d) \<longleftrightarrow> clean_text n \<and> clean_text fn \<and> lower_token ty \<and> lower_token st"

definition separator_of :: "string \<Rightarrow> string" where
  "separator_of key = crlf @ ''--'' @ key"

definition form_body :: "string \<Rightarrow> form_part list \<Rightarrow> string" where
  "form_body key ps =
     ''--'' @ key @ concat (map (\<lambda>p. crlf @ part_header p @ part_data p @ separator_of key) ps) @ ''--'' @ crlf"

text \<open>The header of a part is read as it was meant.\<close>

lemma skip_ws_Cons: "c \<notin> {CHR 0x0D, CHR '' '', CHR 0x09} \<Longrightarrow> skip_ws (c # s) = c # s"
  by simp

lemma token_start: "list_all token_char n \<Longrightarrow> n \<noteq> [] \<Longrightarrow> skip_ws (n @ s) = n @ s"
  by (rule skip_ws_stays) (cases n, auto dest: token_char_plain)

lemma parse_pair_quoted:
  assumes "list_all token_char key" "key \<noteq> []" "clean_text v"
  shows "parse_pair (''; '' @ key @ ''='' @ quote v @ r) = Some ((key, v), r)"
proof -
  have s: "skip_ws (tl (''; '' @ key @ ''='' @ quote v @ r)) = key @ ''='' @ quote v @ r"
    using token_start[OF assms(1,2)] by simp
  have run: "takeWhile token_char (key @ ''='' @ quote v @ r) = key" "tocken (key @ ''='' @ quote v @ r) = ''='' @ quote v @ r"
    using tocken_run[OF assms(1), of "''='' @ quote v @ r"] by (simp_all add: not_token)
  have v: "skip_ws (quote v @ r) = quote v @ r" by (rule skip_ws_stays) (simp add: quote_def)
  have u: "unquote (quote v @ r) = (v, r)" using assms(3) by (intro unquote_quote) (auto simp: clean_text_def)
  have q: "quote v @ r \<noteq> []" "hd (quote v @ r) = CHR 0x22" "r \<noteq> quote v @ r" by (simp_all add: quote_def)
  show ?thesis unfolding parse_pair_def Let_def s run using assms(2) v u q by simp
qed

lemma header_names:
  "list_all token_char ''Content-Disposition''" "list_all token_char ''Content-Type''" "list_all token_char ''form-data''"
  "list_all token_char ''name''" "list_all token_char ''filename''"
  "compare_nocase ''Content-Disposition'' ''Content-Disposition'' = 0" "compare_nocase ''Content-Type'' ''Content-Disposition'' \<noteq> 0"
  "compare_nocase ''Content-Type'' ''Content-Type'' = 0" "compare_nocase ''form-data'' ''form-data'' = 0"
  "map ascii_to_lower ''name'' = ''name''" "map ascii_to_lower ''filename'' = ''filename''"
  "\<not> token_char (CHR '':'')" "\<not> token_char (CHR ''/'')" "''name'' \<noteq> ''filename''"
  by code_simp+

lemma process_line_named:
  assumes "list_all token_char n" "n \<noteq> []"
  shows "process_line (n @ '': '' @ v) f =
    (let p = skip_ws v
     in if compare_nocase n ''Content-Disposition'' = 0
        then (if compare_nocase (takeWhile token_char p) ''form-data'' \<noteq> 0 then None
              else parse_content_disposition (tocken p) f)
        else if compare_nocase n ''Content-Type'' = 0
        then Some (f\<lparr>uf_mime := mi_media (parse_content_type p)\<rparr>)
        else Some f)"
proof -
  have "skip_ws (n @ '': '' @ v) = n @ '': '' @ v" by (rule token_start[OF assms])
  moreover have "takeWhile token_char (n @ '': '' @ v) = n" "tocken (n @ '': '' @ v) = '': '' @ v"
    using tocken_run[OF assms(1), of "'': '' @ v"] by (simp_all add: header_names)
  ultimately show ?thesis by (simp add: process_line_def Let_def)
qed

lemma disposition_step:
  assumes "list_all token_char key" "key \<noteq> []" "clean_text v"
  shows "parse_content_disposition (''; '' @ key @ ''='' @ quote v @ r) f =
    parse_content_disposition r
      (let n = map ascii_to_lower key
       in if n = ''filename'' then f\<lparr>uf_filename := v\<rparr> else if n = ''name'' then f\<lparr>uf_name := v\<rparr> else f)"
proof -
  let ?s = "''; '' @ key @ ''='' @ quote v @ r"
  have "skip_ws ?s = ?s" "?s \<noteq> []" by simp_all
  then show ?thesis
    using parse_pair_quoted[OF assms, of r] by (subst parse_content_disposition.simps) (simp add: Let_def)
qed

lemma disposition_end: "parse_content_disposition [] f = Some f"
  by (simp add: parse_content_disposition.simps)

lemma parse_content_type_plain:
  assumes "lower_token ty" "lower_token st"
  shows "mi_media (parse_content_type (ty @ ''/'' @ st)) = ty @ ''/'' @ st"
proof -
  have t: "list_all token_char ty" "ty \<noteq> []" "list_all token_char st" "st \<noteq> []" using assms by (auto simp: lower_token_def)
  have "takeWhile token_char (ty @ ''/'' @ st) = ty" "tocken (ty @ ''/'' @ st) = ''/'' @ st"
    using tocken_run[OF t(1), of "''/'' @ st"] by (simp_all add: header_names)
  moreover have st: "takeWhile token_char st = st" using tocken_run(1)[OF t(3), of "[]"] unfolding append_Nil2 by blast
  ultimately show ?thesis
    using token_start[OF t(1,2), of "''/'' @ st"] t(2,4) assms by (simp add: parse_content_type_def Let_def lower_token_def st)
qed

lemma process_header_line:
  assumes "CHR 0x0D \<notin> set h" "h \<noteq> []"
  shows "process_header (h @ crlf @ s) f = (case process_line h f of None \<Rightarrow> None | Some f \<Rightarrow> process_header s f)"
proof -
  have found: "find_str crlf (h @ crlf @ s) = Some (length h)"
  proof (rule find_str_before)
    show "plain_boundary crlf" by (simp add: plain_boundary_def crlf_def)
    have "find_str crlf h \<noteq> Some i" for i
    proof
      assume "find_str crlf h = Some i"
      from find_str_split[OF this] have "CHR 0x0D \<in> set h" by (metis crlf_def in_set_conv_decomp append_Cons)
      then show False using assms(1) by simp
    qed
    then show "find_str crlf h = None" by (cases "find_str crlf h") auto
  qed
  obtain n where n: "length h = Suc n" using assms(2) by (cases h) auto
  have cut: "drop (Suc n + 2) (h @ crlf @ s) = s" "take (Suc n) (h @ crlf @ s) = h" by (simp_all add: crlf_def flip: n)
  have "(h @ crlf @ s = []) = False" by (simp add: crlf_def)
  then show ?thesis by (subst process_header.simps) (simp only: found n cut option.case nat.case if_False)
qed

lemma process_header_end: "process_header (crlf @ s) f = Some f"
  using find_str_prefix[of crlf s] by (subst process_header.simps) (auto simp: crlf_def)

lemma clean_text_no_cr:
  assumes "clean_text s"
  shows "CHR 0x0D \<notin> set s" "CHR 0x0A \<notin> set s" "quote s = CHR 0x22 # s @ [CHR 0x22]"
proof -
  have big: "c \<in> set s \<Longrightarrow> 32 \<le> byte c" for c using assms by (auto simp: clean_text_def list_all_iff)
  show "CHR 0x0D \<notin> set s" "CHR 0x0A \<notin> set s" using big[of "CHR 0x0D"] big[of "CHR 0x0A"] by auto
  have "quote_body s = s" using big by (induction s) (auto simp: not_less)
  then show "quote s = CHR 0x22 # s @ [CHR 0x22]" by (simp add: quote_def)
qed

definition one_line :: "string \<Rightarrow> bool" where
  "one_line h \<longleftrightarrow> h \<noteq> [] \<and> CHR 0x0D \<notin> set h \<and> CHR 0x0A \<notin> set h"

lemma token_no_cr: "list_all token_char s \<Longrightarrow> CHR 0x0D \<notin> set s \<and> CHR 0x0A \<notin> set s"
proof -
  have "\<forall>c \<in> set [CHR 0x0D, CHR 0x0A]. \<not> token_char c" by code_simp
  then show "list_all token_char s \<Longrightarrow> ?thesis" by (auto simp: list_all_iff)
qed

fun header_lines :: "form_part \<Rightarrow> string list" where
  "header_lines (Field n v) = [''Content-Disposition: form-data; name='' @ quote n]"
| "header_lines (Upload n fn ty st d) =
     [''Content-Disposition: form-data; name='' @ quote n @ ''; filename='' @ quote fn,
      ''Content-Type: '' @ ty @ ''/'' @ st]"

lemma part_header_lines: "part_header p = concat (map (\<lambda>h. h @ crlf) (header_lines p)) @ crlf"
  by (cases p) simp_all

lemma header_lines_ok: "clean_part p \<Longrightarrow> \<forall>h \<in> set (header_lines p). one_line h"
  by (cases p) (auto simp: one_line_def clean_text_no_cr lower_token_def dest: token_no_cr)

lemma header_names_there: "''Content-Disposition'' \<noteq> []" "''Content-Type'' \<noteq> []" "''form-data'' \<noteq> []" "''name'' \<noteq> []" "''filename'' \<noteq> []"
  by simp_all

lemma disposition_name:
  assumes "clean_text v"
  shows "parse_content_disposition (''; name='' @ quote v @ r) f = parse_content_disposition r (f\<lparr>uf_name := v\<rparr>)"
  using disposition_step[OF header_names(4) header_names_there(4) assms, of r f]
  unfolding Let_def header_names(10) by simp

lemma disposition_filename:
  assumes "clean_text v"
  shows "parse_content_disposition (''; filename='' @ quote v @ r) f = parse_content_disposition r (f\<lparr>uf_filename := v\<rparr>)"
  using disposition_step[OF header_names(5) header_names_there(5) assms, of r f]
  unfolding Let_def header_names(11) by simp

lemma disposition_line:
  "process_line (''Content-Disposition: form-data; name='' @ r) f = parse_content_disposition (''; name='' @ r) f"
proof -
  have start: "skip_ws (''form-data'' @ ''; name='' @ r) = ''form-data'' @ ''; name='' @ r"
    by (rule token_start[OF header_names(3) header_names_there(3)])
  have run: "takeWhile token_char (''form-data'' @ ''; name='' @ r) = ''form-data''"
      "tocken (''form-data'' @ ''; name='' @ r) = ''; name='' @ r"
    by (rule tocken_run[OF header_names(3)], simp add: not_token)+
  have "process_line (''Content-Disposition'' @ '': '' @ (''form-data'' @ ''; name='' @ r)) f =
     parse_content_disposition (''; name='' @ r) f"
    unfolding process_line_named[OF header_names(1) header_names_there(1)] Let_def start run
    by (simp only: header_names simp_thms if_True if_False)
  then show ?thesis by simp
qed

lemma content_type_line:
  assumes "lower_token ty" "lower_token st"
  shows "process_line (''Content-Type: '' @ ty @ ''/'' @ st) f = Some (f\<lparr>uf_mime := ty @ ''/'' @ st\<rparr>)"
proof -
  have start: "skip_ws (ty @ ''/'' @ st) = ty @ ''/'' @ st"
    using assms(1) by (intro token_start) (auto simp: lower_token_def)
  have "process_line (''Content-Type'' @ '': '' @ (ty @ ''/'' @ st)) f = Some (f\<lparr>uf_mime := ty @ ''/'' @ st\<rparr>)"
    unfolding process_line_named[OF header_names(2) header_names_there(2)] Let_def start parse_content_type_plain[OF assms]
    using header_names(7,8) by (simp only: simp_thms if_True if_False)
  then show ?thesis by simp
qed

lemma process_part_header:
  assumes "clean_part p"
  shows "process_header (part_header p) new_file = Some ((part_file p)\<lparr>uf_data := []\<rparr>)"
proof (cases p)
  case (Field n v)
  let ?h = "''Content-Disposition: form-data; name='' @ quote n"
  have n: "clean_text n" and h: "one_line ?h" using assms header_lines_ok[OF assms] by (simp_all add: Field)
  have one: "process_line ?h new_file = Some (new_file\<lparr>uf_name := n\<rparr>)"
    unfolding disposition_line using disposition_name[OF n, of "[]"] unfolding append_Nil2 disposition_end .
  show ?thesis
    using process_header_line[of ?h "crlf @ []" new_file] process_header_end[of "[]"] h
    unfolding Field part_header.simps one append_assoc append_Nil2 by (simp add: one_line_def new_file_def)
next
  case (Upload n fn ty st d)
  let ?h = "''Content-Disposition: form-data; name='' @ quote n @ ''; filename='' @ quote fn"
  let ?t = "''Content-Type: '' @ ty @ ''/'' @ st"
  have c: "clean_text n" "clean_text fn" "lower_token ty" "lower_token st" and h: "one_line ?h" "one_line ?t"
    using assms header_lines_ok[OF assms] by (simp_all add: Upload)
  have one: "process_line ?h new_file = Some (new_file\<lparr>uf_name := n, uf_filename := fn\<rparr>)"
    unfolding disposition_line disposition_name[OF c(1)]
    using disposition_filename[OF c(2), of "[]"] unfolding append_Nil2 disposition_end .
  have cr: "CHR 0x0D \<notin> set ?h" "?h \<noteq> []" "CHR 0x0D \<notin> set ?t" "?t \<noteq> []" using h unfolding one_line_def by blast+
  have "process_header (?h @ crlf @ ?t @ crlf @ crlf @ []) new_file =
      Some (new_file\<lparr>uf_name := n, uf_filename := fn, uf_mime := ty @ ''/'' @ st\<rparr>)"
    unfolding process_header_line[OF cr(1,2)] one option.case process_header_line[OF cr(3,4)]
      content_type_line[OF c(3,4)] process_header_end ..
  then show ?thesis unfolding Upload part_header.simps append_assoc append_Nil2 by (simp add: new_file_def)
qed

text \<open>The state machine runs over the boundary, the header, and the contents of a part.\<close>

lemma consume_step:
  assumes "mp_state m \<noteq> Expecting_separator_boundary" "mp_state m \<noteq> Expecting_eof_lf"
    and "meta_byte m c = (Continue_input, m')"
  shows "consume q m (c # s) = consume q m' s"
  using assms by simp

lemma scan_first_boundary:
  assumes "mp_state m = Expecting_first_boundary" "mp_boundary m = b" "mp_position m < length b"
  shows "consume q m (drop (mp_position m) b @ s) =
    consume q (m\<lparr>mp_state := Expecting_one_crlf_or_eof, mp_position := 0\<rparr>) s"
  using assms
proof (induction "length b - mp_position m" arbitrary: m)
  case (Suc n)
  let ?p = "mp_position m"
  have d: "drop ?p b = b ! ?p # drop (Suc ?p) b" using Suc.prems(3) by (simp add: Cons_nth_drop_Suc)
  show ?case
  proof (cases "Suc ?p = length b")
    case True
    then have "meta_byte m (b ! ?p) = (Continue_input, m\<lparr>mp_state := Expecting_one_crlf_or_eof, mp_position := 0\<rparr>)"
      using Suc.prems by (simp add: meta_byte_def Let_def)
    then show ?thesis using Suc.prems True d by (simp add: consume_step)
  next
    case False
    let ?m = "m\<lparr>mp_position := Suc ?p\<rparr>"
    have "meta_byte m (b ! ?p) = (Continue_input, ?m)" using Suc.prems False by (simp add: meta_byte_def Let_def)
    then have "consume q m (drop ?p b @ s) = consume q ?m (drop (Suc ?p) b @ s)"
      using Suc.prems d by (simp add: consume_step)
    moreover have "n = length b - mp_position ?m" "mp_position ?m < length b" using Suc False by simp_all
    ultimately show ?thesis using Suc.hyps(1)[of ?m] Suc.prems by simp
  qed
qed simp

lemma scan_text:
  assumes "mp_state m = Expecting_crlfcrlf" "CHR 0x0D \<notin> set h" "CHR 0x0A \<notin> set h" "mp_position m < 4" "h \<noteq> []"
  shows "consume q m (h @ s) = consume q (m\<lparr>mp_header := mp_header m @ h, mp_position := 0\<rparr>) s"
  using assms
proof (induction h arbitrary: m)
  case (Cons c h)
  have "crlfcrlf ! mp_position m \<in> set crlfcrlf" using Cons.prems(4) by (intro nth_mem) (simp add: crlfcrlf_def crlf_def)
  then have "c \<noteq> crlfcrlf ! mp_position m" using Cons.prems(2,3) by (auto simp: crlfcrlf_def crlf_def)
  then have step: "meta_byte m c = (Continue_input, m\<lparr>mp_header := mp_header m @ [c], mp_position := 0\<rparr>)"
    using Cons.prems(1) by (simp add: meta_byte_def Let_def crlfcrlf_def crlf_def)
  show ?case
    using Cons.IH[of "m\<lparr>mp_header := mp_header m @ [c], mp_position := 0\<rparr>"] Cons.prems
    by (cases "h = []") (simp_all add: step)
qed simp

lemma scan_crlf:
  assumes "mp_state m = Expecting_crlfcrlf" "mp_position m = 0"
  shows "consume q m (crlf @ s) = consume q (m\<lparr>mp_header := mp_header m @ crlf, mp_position := 2\<rparr>) s"
proof -
  let ?m = "m\<lparr>mp_header := mp_header m @ [CHR 0x0D], mp_position := 1\<rparr>"
  have "meta_byte m (CHR 0x0D) = (Continue_input, ?m)"
    "meta_byte ?m (CHR 0x0A) = (Continue_input, m\<lparr>mp_header := mp_header m @ crlf, mp_position := 2\<rparr>)"
    using assms by (simp_all add: meta_byte_def Let_def crlfcrlf_def crlf_def)
  then show ?thesis using assms(1) by (simp add: crlf_def consume_step)
qed

lemma scan_lines:
  assumes "mp_state m = Expecting_crlfcrlf" "\<forall>h \<in> set hs. one_line h" "mp_position m < 4" "hs \<noteq> []"
  shows "consume q m (concat (map (\<lambda>h. h @ crlf) hs) @ s) =
    consume q (m\<lparr>mp_header := mp_header m @ concat (map (\<lambda>h. h @ crlf) hs), mp_position := 2\<rparr>) s"
  using assms
proof (induction hs arbitrary: m)
  case (Cons h hs)
  let ?m = "m\<lparr>mp_header := mp_header m @ h @ crlf, mp_position := 2\<rparr>"
  have "consume q m (h @ crlf @ t) = consume q ?m t" for t
    using Cons.prems scan_text[of m h q "crlf @ t"] scan_crlf[of "m\<lparr>mp_header := mp_header m @ h, mp_position := 0\<rparr>" q t]
    by (simp add: one_line_def)
  then show ?case using Cons.IH[of ?m] Cons.prems by (cases "hs = []") simp_all
qed simp

lemma scan_header:
  assumes "mp_state m = Expecting_crlfcrlf" "mp_header m = []" "mp_position m = 0" "mp_file m = new_file" "clean_part p"
  shows "consume q m (part_header p @ s) =
    ((Meta_ready, s), m\<lparr>mp_file := (part_file p)\<lparr>uf_data := []\<rparr>, mp_state := Expecting_separator_boundary, mp_ready := True\<rparr>)"
proof -
  let ?h = "concat (map (\<lambda>h. h @ crlf) (header_lines p))"
  let ?m = "m\<lparr>mp_header := ?h, mp_position := 2\<rparr>"
  let ?n = "m\<lparr>mp_header := ?h @ [CHR 0x0D], mp_position := 3\<rparr>"
  have "header_lines p \<noteq> []" by (cases p) simp_all
  then have "consume q m (part_header p @ s) = consume q ?m (crlf @ s)"
    using scan_lines[of m "header_lines p" q "crlf @ s"] header_lines_ok[OF assms(5)] assms(1-3)
    by (simp add: part_header_lines)
  also have "\<dots> = consume q ?n (CHR 0x0A # s)"
  proof -
    have "meta_byte ?m (CHR 0x0D) = (Continue_input, ?n)"
      using assms(1) by (simp add: meta_byte_def Let_def crlfcrlf_def crlf_def)
    then show ?thesis using assms(1) by (simp add: crlf_def consume_step)
  qed
  also have "\<dots> = ((Meta_ready, s), m\<lparr>mp_file := (part_file p)\<lparr>uf_data := []\<rparr>, mp_state := Expecting_separator_boundary, mp_ready := True\<rparr>)"
  proof -
    have "process_header (?h @ [CHR 0x0D, CHR 0x0A]) new_file = Some ((part_file p)\<lparr>uf_data := []\<rparr>)"
      using process_part_header[OF assms(5)] by (simp add: part_header_lines crlf_def)
    then have "meta_byte ?n (CHR 0x0A) =
        (Meta_ready, m\<lparr>mp_file := (part_file p)\<lparr>uf_data := []\<rparr>, mp_state := Expecting_separator_boundary, mp_ready := True\<rparr>)"
      using assms(1-4) by (simp add: meta_byte_def Let_def crlfcrlf_def crlf_def)
    then show ?thesis using assms(1) by simp
  qed
  finally show ?thesis .
qed

definition between_parts :: "string \<Rightarrow> multipart \<Rightarrow> bool" where
  "between_parts key m \<longleftrightarrow> mp_state m = Expecting_one_crlf_or_eof \<and> mp_header m = [] \<and> mp_position m = 0 \<and>
     mp_file m = new_file \<and> \<not> mp_ready m \<and> mp_boundary m = separator_of key"

lemma scan_part_start:
  assumes "mp_state m = Expecting_one_crlf_or_eof" "mp_header m = []" "mp_position m = 0" "mp_file m = new_file" "clean_part p"
  shows "consume q m (crlf @ part_header p @ s) =
    ((Meta_ready, s), m\<lparr>mp_file := (part_file p)\<lparr>uf_data := []\<rparr>, mp_state := Expecting_separator_boundary, mp_ready := True\<rparr>)"
proof -
  have "consume q m (crlf @ t) = consume q (m\<lparr>mp_state := Expecting_crlfcrlf\<rparr>) t" for t
  proof -
    have "meta_byte m (CHR 0x0D) = (Continue_input, m\<lparr>mp_state := Expecting_lf\<rparr>)"
      "meta_byte (m\<lparr>mp_state := Expecting_lf\<rparr>) (CHR 0x0A) = (Continue_input, m\<lparr>mp_state := Expecting_crlfcrlf\<rparr>)"
      using assms(1) by (simp_all add: meta_byte_def Let_def)
    then show ?thesis using assms(1) by (simp add: crlf_def consume_step)
  qed
  then show ?thesis using scan_header[of "m\<lparr>mp_state := Expecting_crlfcrlf\<rparr>" p q s] assms by simp
qed

text \<open>A part that fits is received.\<close>

definition part_fits :: "limits \<Rightarrow> string \<Rightarrow> form_part \<Rightarrow> bool" where
  "part_fits l key p \<longleftrightarrow> clean_part p \<and> find_str (separator_of key) (part_data p) = None \<and>
     length (part_data p) \<le> file_quota l \<and> size_ok (part_file p) (content_length_limit l)"

lemma plain_separator: "list_all token_char key \<Longrightarrow> plain_boundary (separator_of key)"
  using token_no_cr by (auto simp: plain_boundary_def separator_of_def crlf_def)

lemma feed_meta:
  "s \<noteq> [] \<Longrightarrow> consume (file_quota l) m s = ((Meta_ready, rest), k) \<Longrightarrow> feed l c r m s = feed l c Meta_ready k rest"
  by (simp add: feed.simps[of l c r m s])

lemma feed_ready:
  "s \<noteq> [] \<Longrightarrow> consume (file_quota l) m s = ((Content_ready, rest), k) \<Longrightarrow>
     size_ok (last (mp_files k)) (content_length_limit l) \<Longrightarrow> feed l c r m s = feed l c Content_ready k rest"
  by (simp add: feed.simps[of l c r m s])

lemma feed_part:
  assumes m: "between_parts key m" and p: "part_fits l key p" and key: "list_all token_char key"
  shows "feed l c r m (crlf @ part_header p @ part_data p @ separator_of key @ s) =
    feed l c Content_ready (m\<lparr>mp_files := mp_files m @ [part_file p]\<rparr>) s"
proof -
  let ?b = "separator_of key" and ?d = "part_data p" and ?q = "file_quota l"
  let ?k = "m\<lparr>mp_file := (part_file p)\<lparr>uf_data := []\<rparr>, mp_state := Expecting_separator_boundary, mp_ready := True\<rparr>"
  let ?m = "m\<lparr>mp_files := mp_files m @ [part_file p]\<rparr>"
  have f: "clean_part p" "find_str ?b ?d = None" "length ?d \<le> ?q" "size_ok (part_file p) (content_length_limit l)"
    using p by (auto simp: part_fits_def)
  have start: "consume ?q m (crlf @ part_header p @ ?d @ ?b @ s) = ((Meta_ready, ?d @ ?b @ s), ?k)"
    using m f(1) by (intro scan_part_start) (auto simp: between_parts_def)
  have nonempty: "crlf @ part_header p @ ?d @ ?b @ s \<noteq> []" "?d @ ?b @ s \<noteq> []" by (simp_all add: crlf_def separator_of_def)
  have "consume_content ?q ?k (?d @ ?b @ s) =
    ((Content_ready, drop (length ?d + length ?b - mp_position ?k) (?d @ ?b @ s)),
     ?k\<lparr>mp_state := Expecting_one_crlf_or_eof, mp_position := 0,
       mp_files := mp_files ?k @ [(mp_file ?k)\<lparr>uf_data := uf_data (mp_file ?k) @ take (length ?d) (take (mp_position ?k) ?b @ ?d @ ?b @ s)\<rparr>],
       mp_file := new_file, mp_ready := False\<rparr>)"
  proof (rule consume_content_find)
    show "find_str ?b (take (mp_position ?k) ?b @ ?d @ ?b @ s) = Some (length ?d)"
      using find_str_before[OF plain_separator[OF key] f(2)] m by (simp add: between_parts_def)
  qed (use m f key plain_separator in \<open>auto simp: between_parts_def separator_of_def crlf_def\<close>)
  moreover have "(part_file p)\<lparr>uf_data := ?d\<rparr> = part_file p" by (cases p) simp_all
  ultimately have "consume_content ?q ?k (?d @ ?b @ s) = ((Content_ready, s), ?m)"
    using m by (simp add: between_parts_def)
  then have content: "consume ?q ?k (?d @ ?b @ s) = ((Content_ready, s), ?m)"
    using nonempty(2) by (cases "?d @ ?b @ s") simp_all
  have "feed l c r m (crlf @ part_header p @ ?d @ ?b @ s) = feed l c Meta_ready ?k (?d @ ?b @ s)"
    by (rule feed_meta[OF nonempty(1) start])
  also have "\<dots> = feed l c Content_ready ?m s"
    by (rule feed_ready[OF nonempty(2) content]) (simp add: f(4))
  finally show ?thesis .
qed

lemma feed_parts:
  assumes "between_parts key m" "\<forall>p \<in> set ps. part_fits l key p" "list_all token_char key"
  shows "\<exists>r'. feed l c r m (concat (map (\<lambda>p. crlf @ part_header p @ part_data p @ separator_of key) ps) @ s) =
    feed l c r' (m\<lparr>mp_files := mp_files m @ map part_file ps\<rparr>) s"
  using assms
proof (induction ps arbitrary: m r)
  case (Cons p ps)
  let ?m = "m\<lparr>mp_files := mp_files m @ [part_file p]\<rparr>"
  have "between_parts key ?m" using Cons.prems(1) by (simp add: between_parts_def)
  with Cons.IH[of ?m Content_ready] Cons.prems feed_part[of key m l p c r]
  show ?case by simp
qed auto

lemma feed_end:
  assumes "between_parts key m"
  shows "\<exists>m'. feed l True r m (''--'' @ crlf) = (Inr Eof, m') \<and> mp_files m' = mp_files m"
proof -
  let ?m = "m\<lparr>mp_state := Expecting_eof_lf\<rparr>"
  have "consume (file_quota l) m (''--'' @ crlf) = ((Eof, []), ?m)"
    using assms by (simp add: between_parts_def meta_byte_def Let_def crlf_def)
  then have "feed l True r m (''--'' @ crlf) = (Inr Eof, ?m)"
    by (subst feed.simps) (simp add: feed_Nil crlf_def)
  then show ?thesis by auto
qed

lemma feed_form_body:
  assumes "mp_state m = Expecting_first_boundary" "mp_position m = 2" "mp_header m = []" "mp_file m = new_file"
    "mp_files m = []" "\<not> mp_ready m" "mp_boundary m = separator_of key" "list_all token_char key"
    "\<forall>p \<in> set ps. part_fits l key p"
  shows "\<exists>m'. feed l True r m (form_body key ps) = (Inr Eof, m') \<and> mp_files m' = map part_file ps"
proof -
  let ?s = "concat (map (\<lambda>p. crlf @ part_header p @ part_data p @ separator_of key) ps) @ ''--'' @ crlf"
  let ?m = "m\<lparr>mp_state := Expecting_one_crlf_or_eof, mp_position := 0\<rparr>"
  have "form_body key ps = drop (mp_position m) (separator_of key) @ ?s"
    using assms(2) by (simp add: form_body_def separator_of_def crlf_def)
  moreover have "mp_position m < length (separator_of key)" using assms(2) by (simp add: separator_of_def crlf_def)
  ultimately have "consume (file_quota l) m (form_body key ps) = consume (file_quota l) ?m ?s"
    using scan_first_boundary[of m "separator_of key"] assms by simp
  moreover have "form_body key ps \<noteq> []" "?s \<noteq> []" by (simp_all add: form_body_def)
  ultimately have one: "feed l True r m (form_body key ps) = feed l True r ?m ?s"
    by (subst (1 2) feed.simps) simp
  have b: "between_parts key ?m" using assms by (simp add: between_parts_def)
  from feed_parts[OF b assms(9,8), of True r "''--'' @ crlf"] obtain r' where
    two: "feed l True r ?m ?s = feed l True r' (?m\<lparr>mp_files := mp_files ?m @ map part_file ps\<rparr>) (''--'' @ crlf)" by blast
  have "between_parts key (?m\<lparr>mp_files := mp_files ?m @ map part_file ps\<rparr>)" using b by (simp add: between_parts_def)
  from feed_end[OF this] show ?thesis using one two assms(5) by auto
qed

definition is_field :: "form_part \<Rightarrow> bool" where
  "is_field p \<longleftrightarrow> (case p of Field _ _ \<Rightarrow> True | _ \<Rightarrow> False)"

lemma fold_sort_part:
  assumes "\<forall>p \<in> set ps. clean_part p"
  shows "fold sort_part (map part_file ps) b =
    b\<lparr>bd_post := fold (\<lambda>(k, v). multimap_insert k v) (map (\<lambda>p. (uf_name (part_file p), part_data p)) (filter is_field ps)) (bd_post b),
      bd_files := bd_files b @ map part_file (filter (\<lambda>p. \<not> is_field p) ps)\<rparr>"
  using assms
proof (induction ps arbitrary: b)
  case (Cons p ps)
  then show ?case by (cases p) (simp_all add: sort_part_def has_mime_def is_field_def lower_token_def)
qed simp

text \<open>
  Property C7. A form with files arrives as it was sent. The body a browser makes of fields and files is
  received without an error, in whatever pieces it comes, and then the request has under each field name
  the values of the form in their order, and the files with their names, types and contents in theirs.
  Names may hold anything but quotes, backslashes and control characters; no contents may hold the
  boundary; everything has to be within the limits.
\<close>

theorem multipart_form_arrives:
  assumes "mi_media ct = ''multipart/form-data''" "parameter_by_key ct ''boundary'' = key" "key \<noteq> []" "list_all token_char key"
    and "\<forall>p \<in> set ps. part_fits l key p" "concat pieces = form_body key ps"
    and "len = int (length (form_body key ps))" "len \<le> multipart_limit l"
    and "on_content_start l ct len (new_body len) = (started, b)" "receive_pieces l ct len pieces b = (stat, b')"
  shows "started = Inr 0 \<and> stat = 0 \<and> bd_ready b' \<and>
    values_of name (bd_post b') = [part_data p. p \<leftarrow> ps, is_field p, uf_name (part_file p) = name] \<and>
    bd_files b' = [part_file p. p \<leftarrow> ps, \<not> is_field p]"
proof -
  let ?m = "\<lparr>mp_state = Expecting_first_boundary, mp_file = new_file, mp_files = [], mp_position = 2,
                    mp_header = [], mp_boundary = separator_of key, mp_ready = False\<rparr>"
  have len: "len \<noteq> 0" using assms(7) by (simp add: form_body_def)
  have "new_multipart ct = Some ?m" using assms(2,3) by (simp add: new_multipart_def separator_of_def)
  then have start: "started = Inr 0" "b = (new_body len)\<lparr>bd_multipart := Some ?m\<rparr>"
    using assms(1,8,9) len by (simp_all add: on_content_start_def is_multipart_form_data_def)
  obtain m' where fed: "feed l True Continue_input ?m (form_body key ps) = (Inr Eof, m')" "mp_files m' = map part_file ps"
    using feed_form_body[of ?m key ps l Continue_input] assms(4,5) by auto
  have "form_body key ps \<noteq> []" by (simp add: form_body_def)
  then have one: "on_content_progress l ct len (form_body key ps) b =
      (0, content_complete ct (b\<lparr>bd_read := length (form_body key ps), bd_multipart := Some m'\<rparr>))"
    using fed(1) assms(7) by (simp add: on_content_progress_def Let_def start(2) new_body_def)
  have "int (length (concat pieces)) = len" using assms(6,7) by simp
  from pieces_do_not_matter[OF this assms(9)[unfolded start(1)]]
  have "receive_pieces l ct len pieces b =
      (0, content_complete ct (b\<lparr>bd_read := length (form_body key ps), bd_multipart := Some m'\<rparr>))"
    unfolding assms(6) one by simp
  then have stat: "stat = 0"
    and b': "b' = content_complete ct (b\<lparr>bd_read := length (form_body key ps), bd_multipart := Some m'\<rparr>)"
    using assms(10) by simp_all
  let ?fs = "map (\<lambda>p. (uf_name (part_file p), part_data p)) (filter is_field ps)"
  have clean: "\<forall>p \<in> set ps. clean_part p" using assms(5) by (auto simp: part_fits_def)
  have body: "bd_post b' = fold (\<lambda>(k, v). multimap_insert k v) ?fs []" "bd_ready b'"
      "bd_files b' = map part_file (filter (\<lambda>p. \<not> is_field p) ps)"
    unfolding b' by (simp_all add: content_complete_def Let_def start(2) new_body_def fed(2) fold_sort_part[OF clean])
  have "values_of name (bd_post b') = values_of name ?fs"
    using values_of_fold_insert[of "[]" ?fs name] by (simp add: body(1))
  also have "\<dots> = [part_data p. p \<leftarrow> ps, is_field p, uf_name (part_file p) = name]"
    by (induction ps) auto
  moreover have "bd_files b' = [part_file p. p \<leftarrow> ps, \<not> is_field p]" unfolding body(3) by (induction ps) auto
  ultimately show ?thesis using start(1) stat body(2) by simp
qed

definition example_limits :: limits where
  "example_limits = \<lparr>content_length_limit = 1024, multipart_limit = 65536, file_quota = 100\<rparr>"

definition example_parts :: "form_part list" where
  "example_parts = [Field ''name'' ''a&b'', Upload ''file'' ''x.txt'' ''text'' ''plain'' (''ab'' @ crlf @ ''--X'')]"

definition example_type :: media_info where
  "example_type = parse_content_type ''Multipart/Form-Data; boundary=XX''"

theorem multipart_form_arrives_witness:
  "let s = form_body ''XX'' example_parts; len = int (length s);
       b = snd (on_content_start example_limits example_type len (new_body len));
       r = snd (receive_pieces example_limits example_type len [take 50 s, drop 50 s] b)
   in values_of ''name'' (bd_post r) = [''a&b''] \<and> map uf_filename (bd_files r) = [''x.txt'']"
proof -
  let ?s = "form_body ''XX'' example_parts" let ?len = "int (length ?s)"
  have t: "mi_media example_type = ''multipart/form-data''" "parameter_by_key example_type ''boundary'' = ''XX''"
    "list_all token_char ''XX''" by code_simp+
  have fits: "\<forall>p \<in> set example_parts. part_fits example_limits ''XX'' p" by code_simp
  have cut: "concat [take 50 ?s, drop 50 ?s] = ?s" by simp
  have small: "?len \<le> multipart_limit example_limits" by code_simp
  have kinds: "[part_data p. p \<leftarrow> example_parts, is_field p, uf_name (part_file p) = ''name''] = [''a&b'']"
    "map uf_filename [part_file p. p \<leftarrow> example_parts, \<not> is_field p] = [''x.txt'']" by code_simp+
  from multipart_form_arrives[OF t(1,2) _ t(3) fits cut refl small prod.collapse[symmetric] prod.collapse[symmetric], of "''name''"]
  show ?thesis unfolding Let_def using kinds by simp
qed

theorem pieces_do_not_matter_witness:
  "let s = ''a=1&b=2''; len = int (length s); ct = parse_content_type ''application/x-www-form-urlencoded'';
       b = snd (on_content_start example_limits ct len (new_body len))
   in receive_pieces example_limits ct len [''a='', ''1&b'', ''=2''] b = on_content_progress example_limits ct len s b"
proof -
  let ?s = "''a=1&b=2''" and ?ct = "parse_content_type ''application/x-www-form-urlencoded''"
  let ?len = "int (length ?s)"
  let ?start = "on_content_start example_limits ?ct ?len (new_body ?len)"
  have len: "int (length (concat [''a='', ''1&b'', ''=2''])) = ?len" by simp
  have "fst ?start = Inr 0" by code_simp
  then have start: "?start = (Inr 0, snd ?start)" by (simp add: prod_eq_iff)
  have "fst (on_content_progress example_limits ?ct ?len ?s (snd ?start)) = 0" by code_simp
  then show ?thesis using pieces_do_not_matter[OF len start] unfolding Let_def by simp
qed

end
