(* ===== verification/Http_Parser.thy ===== *)
theory Http_Parser
  imports Http_Request Url_Dispatcher
begin

text \<open>
  From bytes on a connection to CGI variables: the tokenizer of HTTP headers
  (\<open>private/http_parser.h\<close>), what the embedded server makes of the headers (\<open>src/http_api.cpp\<close>, with
  \<open>private/rewrite.h\<close>), and the netstring of an SCGI request (\<open>src/scgi_api.cpp\<close>). The sockets are left
  out: a piece of input is an argument, and what the code would read next is the next argument.
\<close>

section \<open>Header lines\<close>

datatype hp_state =
    Idle
  | Input_observed
  | Last_lf_expected
  | Lf_expected
  | Space_or_other_expected
  | Quote_expected
  | Pass_quote_expected
  | Closing_bracket_expected
  | Pass_closing_bracket_expected

datatype hp_result = More_data | Got_header | End_of_headers | Error_observed

record hparser =
  hp_state :: hp_state
  hp_brackets :: "32 word"
  hp_line :: string

definition new_hparser :: hparser where
  "new_hparser = \<lparr>hp_state = Idle, hp_brackets = 0, hp_line = []\<rparr>"

text \<open>The beginning of something, in the states \<open>idle\<close> and \<open>input_observed\<close>, but for a line break.\<close>

definition observe :: "char \<Rightarrow> hparser \<Rightarrow> hparser" where
  "observe c p =
     (if c = CHR 0x22 then p\<lparr>hp_state := Quote_expected\<rparr>
      else if c = CHR ''('' then p\<lparr>hp_state := Closing_bracket_expected, hp_brackets := hp_brackets p + 1\<rparr>
      else p\<lparr>hp_state := Input_observed\<rparr>)"

definition chop2 :: "string \<Rightarrow> string" where
  "chop2 s = take (length s - 2) s"

text \<open>
  One turn of the loop in \<open>step\<close>: it returns, or goes on with the next byte. The byte is given ungot
  (\<open>ungetc\<close>) in one case, when a line turns out to be complete.
\<close>

datatype hp_turn = Returns hp_result bool | Goes_on

definition hp_byte :: "hparser \<Rightarrow> char \<Rightarrow> hp_turn \<times> hparser" where
  "hp_byte p c =
     (let keep = (\<lambda>p. (Goes_on, p\<lparr>hp_line := hp_line p @ [c]\<rparr>)) in
      case hp_state p of
        Idle \<Rightarrow>
          let p = p\<lparr>hp_line := []\<rparr>
          in keep (if c = CHR 0x0D then p\<lparr>hp_state := Last_lf_expected\<rparr> else observe c p)
      | Last_lf_expected \<Rightarrow>
          if c \<noteq> CHR 0x0A then (Returns Error_observed False, p)
          else (Returns End_of_headers False, p\<lparr>hp_line := []\<rparr>)
      | Lf_expected \<Rightarrow>
          if c \<noteq> CHR 0x0A then (Returns Error_observed False, p)
          else keep (p\<lparr>hp_state := Space_or_other_expected\<rparr>)
      | Space_or_other_expected \<Rightarrow>
          if c = CHR '' '' \<or> c = CHR 0x09
          then keep (p\<lparr>hp_line := chop2 (hp_line p), hp_state := Input_observed\<rparr>)
          else (Returns Got_header True, p\<lparr>hp_line := chop2 (hp_line p), hp_state := Idle\<rparr>)
      | Input_observed \<Rightarrow>
          keep (if c = CHR 0x0D then p\<lparr>hp_state := Lf_expected\<rparr> else observe c p)
      | Quote_expected \<Rightarrow>
          keep (if c = CHR 0x22 then p\<lparr>hp_state := Input_observed\<rparr>
                else if c = CHR 0x5C then p\<lparr>hp_state := Pass_quote_expected\<rparr> else p)
      | Pass_quote_expected \<Rightarrow>
          if byte c \<ge> 127 then (Returns Error_observed False, p)
          else keep (p\<lparr>hp_state := Quote_expected\<rparr>)
      | Closing_bracket_expected \<Rightarrow>
          keep (if c = CHR '')'' then
                  (let p = p\<lparr>hp_brackets := hp_brackets p - 1\<rparr>
                   in if hp_brackets p = 0 then p\<lparr>hp_state := Input_observed\<rparr> else p)
                else if c = CHR 0x5C then p\<lparr>hp_state := Pass_closing_bracket_expected\<rparr> else p)
      | Pass_closing_bracket_expected \<Rightarrow>
          if byte c \<ge> 127 then (Returns Error_observed False, p)
          else keep (p\<lparr>hp_state := Closing_bracket_expected\<rparr>))"

fun hp_step :: "hparser \<Rightarrow> string \<Rightarrow> (hp_result \<times> string) \<times> hparser" where
  "hp_step p [] = ((More_data, []), p)"
| "hp_step p (c # s) =
     (case hp_byte p c of
        (Goes_on, p) \<Rightarrow> hp_step p s
      | (Returns r ungot, p) \<Rightarrow> ((r, if ungot then c # s else s), p))"

lemma hp_byte_back: "hp_byte p c = (Returns r ungot, p') \<Longrightarrow> r = Got_header \<longleftrightarrow> ungot"
  by (auto simp: hp_byte_def Let_def split: hp_state.splits if_splits)

lemma hp_byte_more: "hp_byte p c \<noteq> (Returns More_data ungot, p')"
  by (auto simp: hp_byte_def Let_def split: hp_state.splits if_splits)

lemma hp_byte_header:
  "hp_byte p c = (Returns r True, p') \<Longrightarrow> hp_state p = Space_or_other_expected \<and> hp_state p' = Idle"
  by (auto simp: hp_byte_def Let_def split: hp_state.splits if_splits)

lemma hp_step_header:
  "hp_step p s = ((Got_header, rest), p') \<Longrightarrow>
     hp_state p' = Idle \<and> (length rest < length s \<or> length rest = length s \<and> hp_state p = Space_or_other_expected)"
proof (induction s arbitrary: p)
  case (Cons c s)
  obtain t k where k: "hp_byte p c = (t, k)" by (cases "hp_byte p c")
  show ?case
  proof (cases t)
    case (Returns r ungot)
    then show ?thesis using Cons.prems k hp_byte_back[of p c r ungot k] hp_byte_header[of p c r k] by auto
  next
    case Goes_on
    then have "hp_step k s = ((Got_header, rest), p')" using Cons.prems k by simp
    from Cons.IH[OF this] show ?thesis by auto
  qed
qed simp

section \<open>Rewriting the path\<close>

record rewrite_rule =
  rr_expression :: string
  rr_pattern :: "string list"
  rr_index :: "int list"
  rr_final :: bool

lemma dropped_two: "drop n s = a # c # r \<Longrightarrow> length r < length s"
  by (drule arg_cong[where f = length]) simp

text \<open>
  The pattern of a rule: texts, and between two of them the index of a group. The test that is meant to
  refuse other characters after a dollar sign (\<open>c < '0' && '9' < c\<close>) is never true.
\<close>

function rewrite_pattern :: "string \<Rightarrow> bool \<Rightarrow> string list \<Rightarrow> int list \<Rightarrow> (string list \<times> int list) option" where
  "rewrite_pattern s app ps idx =
     (let sub = takeWhile (\<lambda>c. c \<noteq> CHR ''$'') s;
          ps = (if app then butlast ps @ [last ps @ sub] else ps @ [sub])
      in case drop (length sub) s of
           [] \<Rightarrow> Some (ps, idx)
         | [_] \<Rightarrow> None
         | _ # c # r \<Rightarrow>
             if c \<noteq> CHR ''$'' \<and> schar c < 48 \<and> 57 < schar c then None
             else if c = CHR ''$'' then rewrite_pattern r True (butlast ps @ [last ps @ ''$'']) idx
             else rewrite_pattern r False ps (idx @ [schar c - 48]))"
  by pat_completeness auto
termination
  by (relation "measure (\<lambda>(s, _). length s)") (auto dest!: dropped_two)

declare rewrite_pattern.simps [simp del]

definition new_rule :: "string \<Rightarrow> string \<Rightarrow> bool \<Rightarrow> exn + rewrite_rule" where
  "new_rule expr pat final =
     (case rewrite_pattern pat False [] [] of
        None \<Rightarrow> Inl (Cppcms_error (''Invalid rewrite pattern :'' @ pat))
      | Some (ps, idx) \<Rightarrow> Inr \<lparr>rr_expression = expr, rr_pattern = ps, rr_index = idx, rr_final = final\<rparr>)"

definition rewrite_once :: "rewrite_rule \<Rightarrow> string \<Rightarrow> (int \<times> int) list \<Rightarrow> string" where
  "rewrite_once r url marks =
     concat (map2 (\<lambda>p i. p @ submatch url marks i) (rr_pattern r) (rr_index r)) @ last (rr_pattern r)"

fun rewrite :: "pcre \<Rightarrow> rewrite_rule list \<Rightarrow> string \<Rightarrow> string" where
  "rewrite pcre [] url = url"
| "rewrite pcre (r # rs) url =
     (case regex_marks pcre (rr_expression r) url of
        None \<Rightarrow> rewrite pcre rs url
      | Some marks \<Rightarrow>
          let url = c_str (rewrite_once r url marks) in if rr_final r then url else rewrite pcre rs url)"

section \<open>The embedded server\<close>

text \<open>
  The settings it reads; the CGI variables are a list in the order they were added, and the first of two
  with the same name is the one that is found (the code leaves that to \<open>std::sort\<close>).
\<close>

record http_config =
  http_ip :: string
  http_port :: int
  http_behind_proxy :: bool
  http_addr_variables :: "string list"
  http_script_names :: "string list"
  http_rules :: "rewrite_rule list"

type_synonym cgi_env = "(string \<times> string) list"

definition env_get :: "cgi_env \<Rightarrow> string \<Rightarrow> string option" where
  "env_get e name = map_of e name"

definition getenv :: "cgi_env \<Rightarrow> string \<Rightarrow> string" where
  "getenv e name = (case env_get e name of None \<Rightarrow> [] | Some v \<Rightarrow> v)"

definition cgi_char :: "char \<Rightarrow> char" where
  "cgi_char c =
     (if c = CHR ''-'' then CHR ''_'' else if CHR ''a'' \<le> c \<and> c \<le> CHR ''z'' then chr (byte c - 97 + 65) else c)"

definition parse_single_header :: "string \<Rightarrow> (string \<times> string) option" where
  "parse_single_header h =
     (let p = skip_ws h; name = takeWhile token_char p
      in if name = [] then None
         else case skip_ws (tocken p) of
                [] \<Rightarrow> None
              | c # r \<Rightarrow> if c \<noteq> CHR '':'' then None else Some (map cgi_char name, c_str (skip_ws r)))"

record http_conn =
  hc_parser :: hparser
  hc_env :: cgi_env
  hc_method :: string
  hc_uri :: string
  hc_first :: bool
  hc_total :: nat

definition new_http_conn :: "http_config \<Rightarrow> string \<Rightarrow> http_conn" where
  "new_http_conn cfg software =
     \<lparr>hc_parser = new_hparser,
      hc_env = [(''SERVER_SOFTWARE'', software), (''SERVER_NAME'', http_ip cfg), (''SERVER_PORT'', dec (http_port cfg)),
                (''GATEWAY_INTERFACE'', ''CGI/1.0''), (''SERVER_PROTOCOL'', ''HTTP/1.0'')],
      hc_method = [], hc_uri = [], hc_first = False, hc_total = 0\<rparr>"

text \<open>A complete line: the request line first, then headers; \<open>None\<close> for a protocol violation.\<close>

definition got_header :: "http_conn \<Rightarrow> http_conn option" where
  "got_header k =
     (let h = hp_line (hc_parser k) in
      if \<not> hc_first k then
        (let rm = takeWhile (\<lambda>c. c \<noteq> CHR '' '') h; r = drop (length rm) h;
             q = takeWhile (\<lambda>c. c \<noteq> CHR '' '') (tl r)
         in if r = [] \<or> length q = length (tl r) then None
            else Some (k\<lparr>hc_first := True, hc_method := c_str rm, hc_uri := c_str q\<rparr>))
      else case parse_single_header h of
             None \<Rightarrow> None
           | Some (name, v) \<Rightarrow>
               Some (k\<lparr>hc_env := hc_env k @
                 [(if name = ''CONTENT_LENGTH'' \<or> name = ''CONTENT_TYPE'' then name else ''HTTP_'' @ name, v)]\<rparr>))"

lemma got_header_parser: "got_header k = Some k' \<Longrightarrow> hc_parser k' = hc_parser k"
  by (auto simp: got_header_def Let_def split: if_splits option.splits)

text \<open>How reading the headers ends, when it does: \<open>Ready\<close> with what was read behind them.\<close>

datatype read_result = More | Violation | Ready string

function header_loop :: "http_conn \<Rightarrow> string \<Rightarrow> read_result \<times> http_conn" where
  "header_loop k s =
     (case hp_step (hc_parser k) s of
        ((r, rest), p) \<Rightarrow>
          let k = k\<lparr>hc_parser := p\<rparr> in
          case r of
            More_data \<Rightarrow> (if hc_total k > 16384 then Violation else More, k)
          | Got_header \<Rightarrow> (case got_header k of None \<Rightarrow> (Violation, k) | Some k \<Rightarrow> header_loop k rest)
          | End_of_headers \<Rightarrow> (Ready rest, k)
          | Error_observed \<Rightarrow> (Violation, k))"
  by pat_completeness auto
termination
  by (relation "measure (\<lambda>(k, s). 2 * length s + (if hp_state (hc_parser k) = Space_or_other_expected then 1 else 0))")
    (auto dest!: sym[THEN hp_step_header] got_header_parser)

definition some_headers_data_read :: "string \<Rightarrow> http_conn \<Rightarrow> read_result \<times> http_conn" where
  "some_headers_data_read s k = header_loop (k\<lparr>hc_total := hc_total k + length s\<rparr>) s"

text \<open>
  \<open>process_request\<close>, with the address of the peer. \<open>None\<close> stands for the answer \<open>400 Bad Request\<close>.
  \<open>mounted_script\<close> is the loop over the script names: the first one the path lies under.
\<close>

definition under_script :: "string \<Rightarrow> string \<Rightarrow> bool" where
  "under_script path name \<longleftrightarrow>
     length name \<le> length path \<and> take (length name) path = name \<and>
     (length path = length name \<or> path ! length name = CHR ''/'')"

definition remote_address :: "http_config \<Rightarrow> string \<Rightarrow> cgi_env \<Rightarrow> string" where
  "remote_address cfg peer e =
     (if http_behind_proxy cfg
      then (case find (\<lambda>v. env_get e v \<noteq> None) (http_addr_variables cfg) of
              None \<Rightarrow> peer
            | Some v \<Rightarrow> the (env_get e v))
      else peer)"

definition query_variable :: "string \<Rightarrow> cgi_env" where
  "query_variable uri =
     (let path = takeWhile (\<lambda>c. c \<noteq> CHR ''?'') uri
      in if path = uri then [] else [(''QUERY_STRING'', drop (length path + 1) uri)])"

definition mounted_script :: "string list \<Rightarrow> string \<Rightarrow> cgi_env \<times> string" where
  "mounted_script names path =
     (case find (under_script path) names of
        None \<Rightarrow> ([], path)
      | Some name \<Rightarrow> ([(''SCRIPT_NAME'', name)], drop (length name) path))"

definition process_request :: "http_config \<Rightarrow> pcre \<Rightarrow> string \<Rightarrow> http_conn \<Rightarrow> cgi_env option" where
  "process_request cfg pcre peer k =
     (if hc_method k = [] \<or> tocken (hc_method k) \<noteq> [] then None
      else
        let e = hc_env k @ [(''REQUEST_METHOD'', hc_method k)];
            uri = rewrite pcre (http_rules cfg) (hc_uri k);
            addr = remote_address cfg peer e
        in if uri = [] \<or> hd uri \<noteq> CHR ''/'' then None
           else
             let (script, path) = mounted_script (http_script_names cfg) (takeWhile (\<lambda>c. c \<noteq> CHR ''?'') uri)
             in Some (e @ [(''REMOTE_HOST'', addr), (''REMOTE_ADDR'', addr)] @ query_variable uri @ script @
                  [(''PATH_INFO'', c_str (urldecode path))]))"

section \<open>SCGI\<close>

text \<open>
  \<open>on_first_read\<close> and \<open>on_headers_chunk_read\<close>: sixteen bytes come first, with the length of the headers;
  then the rest of the headers, which are pairs of texts that end with a zero. The second read is for
  \<open>scgi_wanted\<close> bytes; \<open>None\<close> is a protocol violation. A text that does not end before the comma is read
  past the end of the buffer: the code puts a zero there only when it refuses the request.
\<close>

definition scgi_wanted :: "string \<Rightarrow> nat option" where
  "scgi_wanted first =
     (let sep = length (takeWhile (\<lambda>c. c \<noteq> CHR '':'') first);
          len = atoi (c_str (take sep first))
      in if sep \<ge> 16 \<or> len < 0 \<or> 16384 < len then None
         else let size = sep + 2 + nat len
              in if size \<le> length first then None else Some (size - length first))"

function scgi_pairs :: "string \<Rightarrow> exn + cgi_env" where
  "scgi_pairs s =
     (if s = [] then Inr []
      else if CHR 0x00 \<notin> set s then Inl Undefined_read
      else let key = c_str s; r = drop (length key + 1) s
           in if r = [] then Inr []
              else if CHR 0x00 \<notin> set r then Inl Undefined_read
              else let v = c_str r
                   in case scgi_pairs (drop (length v + 1) r) of
                        Inl x \<Rightarrow> Inl x
                      | Inr e \<Rightarrow> Inr ((key, v) # e))"
  by pat_completeness auto
termination by (relation "measure length") auto

declare scgi_pairs.simps [simp del]

definition scgi_headers :: "string \<Rightarrow> string \<Rightarrow> (exn + cgi_env) option" where
  "scgi_headers first rest =
     (let buf = first @ rest; sep = length (takeWhile (\<lambda>c. c \<noteq> CHR '':'') first)
      in if last buf \<noteq> CHR '','' then None else Some (scgi_pairs (butlast (drop (sep + 1) buf))))"

text \<open>
  The other end: \<open>make_scgi_header\<close> of \<open>src/forwarder.cpp\<close>, which is what a forwarded request begins with.
  The variables are a map in the order of the names; the length of the content comes first.
\<close>

definition content_length_first :: "cgi_env \<Rightarrow> cgi_env" where
  "content_length_first e =
     (case env_get e ''CONTENT_LENGTH'' of None \<Rightarrow> (''CONTENT_LENGTH'', ''0'') | Some v \<Rightarrow> (''CONTENT_LENGTH'', v)) #
     filter (\<lambda>(k, v). k \<noteq> ''CONTENT_LENGTH'') e"

definition scgi_text :: "cgi_env \<Rightarrow> string" where
  "scgi_text e = concat (map (\<lambda>(k, v). k @ [CHR 0x00] @ v @ [CHR 0x00]) e)"

definition make_scgi_header :: "cgi_env \<Rightarrow> string" where
  "make_scgi_header e =
     (let env_str = scgi_text (content_length_first e) in dec_nat (length env_str) @ '':'' @ env_str @ '','')"

section \<open>Mount points\<close>

text \<open>
  \<open>mount_point.cpp\<close>: an expression that is empty (\<open>None\<close>) accepts everything; one of path and script
  name is selected for the application, as a whole or one group of it.
\<close>

record mount_point =
  mp_host :: "string option"
  mp_script :: "string option"
  mp_path :: "string option"
  mp_group :: int
  mp_by_path :: bool

definition default_mount :: mount_point where
  "default_mount = \<lparr>mp_host = None, mp_script = None, mp_path = None, mp_group = 0, mp_by_path = True\<rparr>"

definition accepts_all :: "pcre \<Rightarrow> string option \<Rightarrow> string \<Rightarrow> bool" where
  "accepts_all pcre expr s \<longleftrightarrow> (case expr of None \<Rightarrow> True | Some r \<Rightarrow> regex_marks pcre r s \<noteq> None)"

definition select_part :: "pcre \<Rightarrow> int \<Rightarrow> string option \<Rightarrow> string \<Rightarrow> string option" where
  "select_part pcre grp expr s =
     (case expr of
        None \<Rightarrow> Some s
      | Some r \<Rightarrow>
          (case regex_marks pcre r s of
             None \<Rightarrow> None
           | Some marks \<Rightarrow> Some (if grp = 0 then s else submatch s marks grp)))"

definition mount_match :: "pcre \<Rightarrow> mount_point \<Rightarrow> string \<Rightarrow> string \<Rightarrow> string \<Rightarrow> string option" where
  "mount_match pcre m host script path =
     (if \<not> accepts_all pcre (mp_host m) host then None
      else if mp_by_path m
      then (if accepts_all pcre (mp_script m) script then select_part pcre (mp_group m) (mp_path m) path else None)
      else (if accepts_all pcre (mp_path m) path then select_part pcre (mp_group m) (mp_script m) script else None))"

lemma default_mount_takes_all: "mount_match pcre default_mount host script path = Some path"
  by (simp add: mount_match_def default_mount_def accepts_all_def select_part_def)

section \<open>Packets make no difference\<close>

lemma hp_step_append:
  "hp_step p (s @ t) =
     (case hp_step p s of ((r, rest), p') \<Rightarrow> if r = More_data then hp_step p' t else ((r, rest @ t), p'))"
proof (induction s arbitrary: p)
  case (Cons c s)
  obtain x k where "hp_byte p c = (x, k)" by (cases "hp_byte p c")
  then show ?case using Cons by (cases x) (auto simp: hp_byte_more)
qed simp

declare header_loop.simps [simp del]

lemma got_header_total:
  "got_header (k\<lparr>hc_total := n\<rparr>) = map_option (\<lambda>k. k\<lparr>hc_total := n\<rparr>) (got_header k)"
  by (auto simp: got_header_def Let_def split: option.splits)

lemma header_loop_append:
  assumes "m \<le> 16384"
  shows "header_loop (k\<lparr>hc_total := n\<rparr>) (s @ t) =
    (case header_loop (k\<lparr>hc_total := m\<rparr>) s of
       (Ready rest, k') \<Rightarrow> (Ready (rest @ t), k'\<lparr>hc_total := n\<rparr>)
     | (Violation, k') \<Rightarrow> (Violation, k'\<lparr>hc_total := n\<rparr>)
     | (More, k') \<Rightarrow> header_loop (k'\<lparr>hc_total := n\<rparr>) t)"
proof (induction k s rule: header_loop.induct)
  case (1 k s)
  obtain r rest p where p: "hp_step (hc_parser k) s = ((r, rest), p)" by (metis surj_pair)
  have whole: "hp_step (hc_parser k) (s @ t) = (if r = More_data then hp_step p t else ((r, rest @ t), p))"
    using hp_step_append[of "hc_parser k" s t] p by simp
  have g: "got_header (k\<lparr>hc_total := j, hc_parser := p\<rparr>) =
      map_option (\<lambda>k. k\<lparr>hc_total := j\<rparr>) (got_header (k\<lparr>hc_parser := p\<rparr>))" for j
    using got_header_total[of j "k\<lparr>hc_parser := p\<rparr>"] by (cases k) simp
  have swap: "k\<lparr>hc_parser := p, hc_total := j\<rparr> = k\<lparr>hc_total := j, hc_parser := p\<rparr>" for j by (cases k) simp
  note now = header_loop.simps[of "k\<lparr>hc_total := m\<rparr>" s] header_loop.simps[of "k\<lparr>hc_total := n\<rparr>" "s @ t"]
  show ?case
  proof (cases r)
    case More_data
    have "header_loop (k\<lparr>hc_total := n, hc_parser := p\<rparr>) t = header_loop (k\<lparr>hc_total := n\<rparr>) (s @ t)"
      using header_loop.simps[of "k\<lparr>hc_total := n, hc_parser := p\<rparr>" t] whole More_data by (simp add: now)
    then show ?thesis using p More_data assms by (simp add: now(1) swap)
  next
    case Got_header
    note [simp] = "1.IH"[OF p[symmetric] refl refl Got_header]
    show ?thesis using p whole Got_header g by (cases "got_header (k\<lparr>hc_parser := p\<rparr>)") (simp_all add: now)
  qed (use p whole in \<open>simp_all add: now\<close>)
qed

lemma header_loop_keeps_total: "header_loop k s = (r, k') \<Longrightarrow> hc_total k' = hc_total k"
proof (induction k s arbitrary: r k' rule: header_loop.induct)
  case (1 k s)
  obtain x rest p where p: "hp_step (hc_parser k) s = ((x, rest), p)" by (metis surj_pair)
  have t: "hc_total h = hc_total k" if "got_header (k\<lparr>hc_parser := p\<rparr>) = Some h" for h
    using that by (auto simp: got_header_def Let_def split: if_splits option.splits)
  show ?case
  proof (cases "got_header (k\<lparr>hc_parser := p\<rparr>)")
    case None
    with "1.prems" p show ?thesis by (cases x) (auto simp: header_loop.simps[of k s])
  next
    case (Some h)
    show ?thesis
    proof (cases "x = Got_header")
      case True
      then have "header_loop h rest = (r, k')" using "1.prems" p Some by (simp add: header_loop.simps[of k s])
      from "1.IH"[OF p[symmetric] refl refl True Some this] t[OF Some] show ?thesis by simp
    qed (use "1.prems" p in \<open>cases x, auto simp: header_loop.simps[of k s]\<close>)
  qed
qed

text \<open>
  A second packet: what the headers so far amount to is kept between two reads, and the whole is the same
  as if it had come at once, as long as the first packet was not refused for its length.
\<close>

lemma some_headers_data_read_append:
  assumes "hc_total k + length s \<le> 16384"
  shows "some_headers_data_read (s @ t) k =
    (case some_headers_data_read s k of
       (Ready rest, k') \<Rightarrow> (Ready (rest @ t), k'\<lparr>hc_total := hc_total k' + length t\<rparr>)
     | (Violation, k') \<Rightarrow> (Violation, k'\<lparr>hc_total := hc_total k' + length t\<rparr>)
     | (More, k') \<Rightarrow> some_headers_data_read t k')"
proof -
  obtain r k' where l: "header_loop (k\<lparr>hc_total := hc_total k + length s\<rparr>) s = (r, k')" by fastforce
  with header_loop_keeps_total[OF l] show ?thesis
    using header_loop_append[OF assms, of "hc_total k + length (s @ t)" k s t]
    by (cases r) (simp_all add: some_headers_data_read_def add.assoc)
qed

section \<open>What is forwarded is what arrives\<close>

lemma c_str_ends [simp]: "CHR 0x00 \<notin> set s \<Longrightarrow> c_str (s @ CHR 0x00 # r) = s"
  by (auto simp: c_str_def takeWhile_tail)

definition no_zero :: "cgi_env \<Rightarrow> bool" where
  "no_zero e \<longleftrightarrow> list_all (\<lambda>(k, v). CHR 0x00 \<notin> set k \<and> CHR 0x00 \<notin> set v) e"

lemma scgi_pairs_pair:
  "CHR 0x00 \<notin> set k \<Longrightarrow> CHR 0x00 \<notin> set v \<Longrightarrow> scgi_pairs (k @ CHR 0x00 # v @ CHR 0x00 # r) =
    (case scgi_pairs r of Inl x \<Rightarrow> Inl x | Inr e \<Rightarrow> Inr ((k, v) # e))"
  by (subst scgi_pairs.simps) (simp add: Let_def)

lemma scgi_pairs_text: "no_zero e \<Longrightarrow> scgi_pairs (scgi_text e) = Inr e"
proof (induction e)
  case (Cons p e)
  have "scgi_text ((k, v) # e) = k @ CHR 0x00 # v @ CHR 0x00 # scgi_text e" for k v
    by (simp add: scgi_text_def)
  with Cons show ?case by (cases p) (simp add: no_zero_def scgi_pairs_pair)
qed (simp add: scgi_text_def scgi_pairs.simps)

lemma length_dec_nat: "n < 10 ^ Suc k \<Longrightarrow> length (dec_nat n) \<le> Suc k"
proof (induction k arbitrary: n)
  case (Suc k)
  then have "n div 10 < 10 ^ Suc k" by (simp add: less_mult_imp_div_less mult.commute)
  from Suc.IH[OF this] show ?case by (subst dec_nat.simps) simp
qed (simp add: dec_nat.simps)

lemma no_colon_digits: "list_all is_digit ds \<Longrightarrow> takeWhile (\<lambda>c. c \<noteq> CHR '':'') ds = ds"
  by (auto simp: list_all_iff is_digit_def takeWhile_eq_all_conv less_eq_char_def)

lemma c_str_digits: "list_all is_digit ds \<Longrightarrow> c_str ds = ds"
  by (auto simp: list_all_iff is_digit_def c_str_def takeWhile_eq_all_conv less_eq_char_def)

lemma scgi_text_longer: "16 < length (make_scgi_header e)"
  by (simp add: make_scgi_header_def content_length_first_def scgi_text_def Let_def split: option.splits)

lemma forwarded_header_arrives:
  assumes e: "no_zero e" and l: "length (scgi_text (content_length_first e)) \<le> 16384"
  shows "scgi_wanted (take 16 (make_scgi_header e)) = Some (length (make_scgi_header e) - 16) \<and>
    scgi_headers (take 16 (make_scgi_header e)) (drop 16 (make_scgi_header e)) = Some (Inr (content_length_first e))"
proof -
  let ?t = "scgi_text (content_length_first e)"
  let ?d = "dec_nat (length ?t)"
  have h: "make_scgi_header e = ?d @ CHR '':'' # ?t @ '',''" by (simp add: make_scgi_header_def Let_def)
  have d: "length ?d < 16" using length_dec_nat[of "length ?t" 4] l by simp
  then obtain x where x: "take 16 (make_scgi_header e) = ?d @ CHR '':'' # x"
    by (cases "16 - length ?d") (auto simp: h)
  have sep: "takeWhile (\<lambda>c. c \<noteq> CHR '':'') (take 16 (make_scgi_header e)) = ?d"
    by (simp add: x takeWhile_tail no_colon_digits[OF dec_nat_digits])
  have "atoi ?d = int (length ?t)" using atoi_dec[of "int (length ?t)"] l by (simp add: dec_def)
  then have "scgi_wanted (take 16 (make_scgi_header e)) = Some (length (make_scgi_header e) - 16)"
    using scgi_text_longer[of e] l d
    by (simp add: scgi_wanted_def sep Let_def) (simp add: x c_str_digits[OF dec_nat_digits] h)
  moreover have "no_zero (content_length_first e)"
    using e by (auto simp: no_zero_def content_length_first_def env_get_def list_all_iff split: option.splits dest!: map_of_SomeD)
  then have "scgi_headers (take 16 (make_scgi_header e)) (drop 16 (make_scgi_header e)) = Some (Inr (content_length_first e))"
    by (simp add: scgi_headers_def sep Let_def) (simp add: h butlast_append scgi_pairs_text)
  ultimately show ?thesis by simp
qed

text \<open>
  a request that is forwarded arrives with its variables. The 16 bytes the receiver takes first
  tell how much more to read, exactly the rest of what \<open>make_scgi_header\<close> wrote, and that gives the
  variables it was called with, the length of the content in front, provided they are no longer than the
  16384 bytes the receiver accepts and hold no zero byte.
\<close>

theorem forwarded_variables_arrive:
  assumes e: "no_zero e" and l: "length (scgi_text (content_length_first e)) \<le> 16384"
  shows "scgi_wanted (take 16 (make_scgi_header e)) = Some (length (make_scgi_header e) - 16) \<and>
    scgi_headers (take 16 (make_scgi_header e)) (drop 16 (make_scgi_header e)) = Some (Inr (content_length_first e))"
  by (rule forwarded_header_arrives[OF assms])

lemma forwarded_variables_arrive_witness:
  "scgi_headers (take 16 (make_scgi_header [(''HTTP_HOST'', ''x''), (''PATH_INFO'', ''/'')]))
     (drop 16 (make_scgi_header [(''HTTP_HOST'', ''x''), (''PATH_INFO'', ''/'')])) =
   Some (Inr (content_length_first [(''HTTP_HOST'', ''x''), (''PATH_INFO'', ''/'')]))"
  by (rule forwarded_variables_arrive[THEN conjunct2]) (simp_all add: no_zero_def content_length_first_def env_get_def scgi_text_def)

section \<open>The variables are C strings\<close>

text \<open>The code hands the variables on as \<open>char const *\<close>: a zero byte inside one would be its end.\<close>

definition zero_free :: "string \<Rightarrow> bool" where
  "zero_free s \<longleftrightarrow> CHR 0x00 \<notin> set s"

definition http_config_ok :: "http_config \<Rightarrow> bool" where
  "http_config_ok cfg \<longleftrightarrow> zero_free (http_ip cfg) \<and> list_all zero_free (http_script_names cfg)"

definition conn_ok :: "http_conn \<Rightarrow> bool" where
  "conn_ok k \<longleftrightarrow> no_zero (hc_env k) \<and> zero_free (hc_method k) \<and> zero_free (hc_uri k)"

lemma zero_free_c_str [simp]: "zero_free (c_str s)"
  by (auto simp: zero_free_def c_str_def dest: set_takeWhileD)

lemma zero_free_parts: "zero_free (a @ b) \<longleftrightarrow> zero_free a \<and> zero_free b" "zero_free s \<Longrightarrow> zero_free (drop n s)"
  by (auto simp: zero_free_def dest: in_set_dropD)

lemma no_zero_append [simp]: "no_zero (e @ e') \<longleftrightarrow> no_zero e \<and> no_zero e'"
  by (simp add: no_zero_def)

lemma no_zero_Cons [simp]: "no_zero ((k, v) # e) \<longleftrightarrow> zero_free k \<and> zero_free v \<and> no_zero e" "no_zero []"
  by (auto simp: no_zero_def zero_free_def)

lemma zero_free_dec: "zero_free (dec i)"
proof -
  have "zero_free (dec_nat n)" for n
    using dec_nat_digits[of n] by (auto simp: zero_free_def list_all_iff is_digit_def less_eq_char_def)
  then show ?thesis by (simp add: dec_def zero_free_def)
qed

lemma cgi_char_zero: "token_char c \<Longrightarrow> cgi_char c \<noteq> CHR 0x00"
  by (auto simp: cgi_char_def token_char_def less_eq_char_def dest!: arg_cong[where f = byte])

lemma zero_free_name: "zero_free (map cgi_char (takeWhile token_char s))"
  using cgi_char_zero by (fastforce simp: zero_free_def dest!: set_takeWhileD)

lemma parse_single_header_zero_free: "parse_single_header h = Some (n, v) \<Longrightarrow> zero_free n \<and> zero_free v"
  by (auto simp: parse_single_header_def Let_def zero_free_name split: if_splits list.splits)

lemma zero_free_literal: "zero_free (c # s) \<longleftrightarrow> c \<noteq> CHR 0x00 \<and> zero_free s" "zero_free []"
  by (auto simp: zero_free_def)

lemma got_header_ok:
  assumes "conn_ok k" "got_header k = Some k'" shows "conn_ok k'"
proof (cases "hc_first k")
  case True
  then obtain n v where nv: "parse_single_header (hp_line (hc_parser k)) = Some (n, v)"
    and k': "k' = k\<lparr>hc_env := hc_env k @ [(if n = ''CONTENT_LENGTH'' \<or> n = ''CONTENT_TYPE'' then n else ''HTTP_'' @ n, v)]\<rparr>"
    using assms(2) by (auto simp: got_header_def Let_def split: option.splits)
  from parse_single_header_zero_free[OF nv] assms(1) show ?thesis
    by (auto simp: conn_ok_def k' zero_free_literal)
next
  case False
  then show ?thesis using assms by (auto simp: got_header_def Let_def conn_ok_def split: if_splits)
qed

lemma header_loop_ok: "conn_ok k \<Longrightarrow> header_loop k s = (r, k') \<Longrightarrow> conn_ok k'"
proof (induction k s arbitrary: r k' rule: header_loop.induct)
  case (1 k s)
  obtain x rest p where p: "hp_step (hc_parser k) s = ((x, rest), p)" by (metis surj_pair)
  have ok: "conn_ok (k\<lparr>hc_parser := p\<rparr>)" using "1.prems"(1) by (simp add: conn_ok_def)
  show ?case
  proof (cases "got_header (k\<lparr>hc_parser := p\<rparr>)")
    case None
    with "1.prems" p ok show ?thesis by (cases x) (auto simp: header_loop.simps[of k s])
  next
    case (Some h)
    show ?thesis
    proof (cases "x = Got_header")
      case True
      then have "header_loop h rest = (r, k')" using "1.prems" p Some by (simp add: header_loop.simps[of k s])
      from "1.IH"[OF p[symmetric] refl refl True Some got_header_ok[OF ok Some] this] show ?thesis .
    qed (use "1.prems" p ok in \<open>cases x, auto simp: header_loop.simps[of k s]\<close>)
  qed
qed

lemma new_http_conn_ok: "http_config_ok cfg \<Longrightarrow> zero_free software \<Longrightarrow> conn_ok (new_http_conn cfg software)"
  by (simp add: conn_ok_def new_http_conn_def http_config_ok_def zero_free_dec zero_free_literal)

lemma rewrite_zero_free: "zero_free url \<Longrightarrow> zero_free (rewrite pcre rs url)"
  by (induction pcre rs url rule: rewrite.induct) (auto simp: Let_def split: option.split)

lemma env_get_zero_free: "no_zero e \<Longrightarrow> env_get e name = Some v \<Longrightarrow> zero_free v"
  by (auto simp: no_zero_def env_get_def zero_free_def list_all_iff dest!: map_of_SomeD)

lemma remote_address_zero_free: "zero_free peer \<Longrightarrow> no_zero e \<Longrightarrow> zero_free (remote_address cfg peer e)"
  by (auto simp: remote_address_def find_Some_iff intro: env_get_zero_free split: option.split)

lemma query_variable_ok: "zero_free uri \<Longrightarrow> no_zero (query_variable uri)"
  by (simp add: query_variable_def Let_def zero_free_literal zero_free_parts(2))

lemma mounted_script_ok: "list_all zero_free names \<Longrightarrow> no_zero (fst (mounted_script names path))"
  by (auto simp: mounted_script_def zero_free_literal list_all_iff find_Some_iff split: option.split)


definition example_http :: http_config where
  "example_http = \<lparr>http_ip = ''127.0.0.1'', http_port = 80, http_behind_proxy = False, http_addr_variables = [],
     http_script_names = [''/blog''], http_rules = []\<rparr>"

definition example_head :: string where
  "example_head = ''GET /blog/rss?a=1 HTTP/1.0'' @ [CHR 0x0D, CHR 0x0A] @ ''Host: x'' @ [CHR 0x0D, CHR 0x0A, CHR 0x0D, CHR 0x0A]"

lemma example_head_is_read: "fst (header_loop (new_http_conn example_http ''CppCMS/1'') example_head) = Ready []"
  by code_simp


end
