(* ===== verification/Http_Server.thy ===== *)
theory Http_Server
  imports Multipart Http_Parser Routes
begin

text \<open>
  A request from the first byte on the connection to the last of its handler: \<open>request::prepare\<close> and
  \<open>get_buffer\<close> (\<open>src/http_request.cpp\<close>), the reading of the body and the answers to requests that are
  refused (\<open>src/cgi_api.cpp\<close>, \<open>src/http_api.cpp\<close>), the choice of the application (\<open>src/applications_pool.cpp\<close>,
  \<open>src/forwarder.cpp\<close>, \<open>src/http_context.cpp\<close>) and the state it starts from. Sockets and threads are left
  out: what arrives is a list of packets, one for each time the code waits for the peer.
\<close>

section \<open>What the variables say\<close>

record http_request =
  rq_get :: "(string \<times> string) list"
  rq_cookies :: "(string \<times> cookie) list"
  rq_length :: int
  rq_media :: media_info

definition prepare_request :: "cgi_env \<Rightarrow> http_request" where
  "prepare_request e =
     \<lparr>rq_get = (case parse_form_urlencoded (getenv e ''QUERY_STRING'') [] of (ok, g) \<Rightarrow> if ok then g else []),
      rq_cookies = parse_cookies (getenv e ''HTTP_COOKIE''),
      rq_length = (let s = getenv e ''CONTENT_LENGTH'' in if s = [] then 0 else strtol s),
      rq_media = parse_content_type (getenv e ''CONTENT_TYPE'')\<rparr>"

section \<open>Reading the body\<close>

text \<open>
  \<open>get_buffer\<close>: how much may be read next. For a body that is not kept as a whole, a negative remainder
  is a size \<open>vector::resize\<close> refuses.
\<close>

definition get_buffer :: "int \<Rightarrow> int \<Rightarrow> body \<Rightarrow> exn + nat" where
  "get_buffer buffer_size len b =
     (let reminder = len - int (bd_read b) in
      if bd_full b then Inr (nat reminder)
      else if reminder < buffer_size then (if reminder < 0 then Inl Length_error else Inr (nat reminder))
      else Inr (nat buffer_size))"

text \<open>
  \<open>on_some_content_read\<close> and what it waits for. \<open>input\<close> is what was read already, together with the headers
  or in a packet that was larger than the buffer; an empty packet is the end of the connection. The peer
  may stop sending: then the request is \<open>Stalled\<close>.
\<close>

datatype content_result = Content_read | Refused int | Stalled | Peer_closed | Crashed exn

function read_content ::
    "limits \<Rightarrow> int \<Rightarrow> media_info \<Rightarrow> int \<Rightarrow> string \<Rightarrow> string list \<Rightarrow> body \<Rightarrow> content_result \<times> body" where
  "read_content l buffer_size ct len input packets b =
     (case get_buffer buffer_size len b of
        Inl x \<Rightarrow> (Crashed x, b)
      | Inr avail \<Rightarrow>
          if avail = 0 then (Content_read, b)
          else if input \<noteq> [] then
            (case on_content_progress l ct len (take avail input) b of
               (r, b) \<Rightarrow> if r \<noteq> 0 then (Refused r, b) else read_content l buffer_size ct len (drop avail input) packets b)
          else (case packets of
                  [] \<Rightarrow> (Stalled, b)
                | p # ps \<Rightarrow> if p = [] then (Peer_closed, b) else read_content l buffer_size ct len p ps b))"
  by pat_completeness auto
termination
  by (relation "measures [\<lambda>(l, n, ct, len, s, ps, b). length s + length (concat ps), \<lambda>(l, n, ct, len, s, ps, b). length ps]") auto

declare read_content.simps [simp del]

text \<open>\<open>load_content\<close>, from \<open>on_content_start\<close> on.\<close>

definition load_content ::
    "limits \<Rightarrow> int \<Rightarrow> http_request \<Rightarrow> string \<Rightarrow> string list \<Rightarrow> content_result \<times> body" where
  "load_content l buffer_size rq input packets =
     (case on_content_start l (rq_media rq) (rq_length rq) (new_body (rq_length rq)) of
        (Inl x, b) \<Rightarrow> (Crashed x, b)
      | (Inr r, b) \<Rightarrow>
          if r \<noteq> 0 then (Refused r, b)
          else if rq_length rq \<noteq> 0
          then read_content l buffer_size (rq_media rq) (rq_length rq) input packets b
          else (Content_read, b))"

section \<open>Answers without an application\<close>

definition eol :: string where
  "eol = [CHR 0x0D, CHR 0x0A]"

definition status_line :: "int \<Rightarrow> string" where
  "status_line code =
     [chr (nat (48 + code div 100)), chr (nat (48 + code div 10 mod 10)), chr (nat (48 + code mod 10)), CHR '' ''] @
     status_to_string code"

definition handle_http_error :: "bool \<Rightarrow> int \<Rightarrow> string" where
  "handle_http_error generate_http_headers code =
     (if generate_http_headers
      then ''HTTP/1.0 '' @ status_line code @ eol @ ''Connection: close'' @ eol @ ''Content-Type: text/html'' @ eol @ eol
      else ''Content-Type: text/html'' @ eol @ ''Status: '' @ status_line code @ eol @ eol) @
     ''<html>'' @ eol @ ''<body>'' @ eol @ ''<h1>'' @ status_line code @ ''</h1>'' @ eol @ ''</body>'' @ eol @ ''</html>'' @ eol"

definition bad_request :: string where
  "bad_request = ''HTTP/1.0 400 Bad Request'' @ eol @ eol"

section \<open>What the embedded server sends\<close>

text \<open>
  \<open>format_output\<close>: the headers an application writes are in the style of CGI; the status line is made of
  its \<open>Status\<close> header and goes out in front of what was held back until it was found. \<open>fo_body\<close> is what
  was held back; a piece is a list of buffers. \<open>None\<close> is a protocol violation.
\<close>

record out_state =
  fo_parser :: hparser
  fo_done :: bool
  fo_body :: string

definition new_output :: out_state where
  "new_output = \<lparr>fo_parser = new_hparser, fo_done = False, fo_body = []\<rparr>"

definition addon :: "string \<Rightarrow> string" where
  "addon version = ''Server: CppCMS-Embedded/'' @ version @ eol @ ''Connection: close'' @ eol"

datatype output_head = Not_yet | Bad_output | Response_line string

function process_output_headers :: "string \<Rightarrow> hparser \<Rightarrow> string \<Rightarrow> output_head \<times> hparser" where
  "process_output_headers version p s =
     (case hp_step p s of
        ((r, rest), p) \<Rightarrow>
          case r of
            More_data \<Rightarrow> (Not_yet, p)
          | Got_header \<Rightarrow>
              (case parse_single_header (hp_line p) of
                 None \<Rightarrow> (Bad_output, p)
               | Some (name, v) \<Rightarrow>
                   if name = ''STATUS'' then (Response_line (''HTTP/1.0 '' @ v @ eol @ addon version), p)
                   else process_output_headers version p rest)
          | End_of_headers \<Rightarrow> (Response_line (''HTTP/1.0 200 Ok'' @ eol @ addon version), p)
          | Error_observed \<Rightarrow> (Bad_output, p))"
  by pat_completeness auto
termination
  by (relation "measure (\<lambda>(v, p, s). 2 * length s + (if hp_state p = Space_or_other_expected then 1 else 0))")
    (auto dest!: sym[THEN hp_step_header])

declare process_output_headers.simps [simp del]

fun output_entries :: "string \<Rightarrow> hparser \<Rightarrow> string list \<Rightarrow> output_head \<times> hparser" where
  "output_entries version p [] = (Not_yet, p)"
| "output_entries version p (s # ss) =
     (case process_output_headers version p s of
        (Not_yet, p) \<Rightarrow> output_entries version p ss
      | (r, p) \<Rightarrow> (r, p))"

definition format_output :: "string \<Rightarrow> string list \<Rightarrow> out_state \<Rightarrow> string option \<times> out_state" where
  "format_output version entries f =
     (if fo_done f then (Some (concat entries), f)
      else case output_entries version (fo_parser f) entries of
             (Not_yet, p) \<Rightarrow> (Some [], f\<lparr>fo_parser := p, fo_body := fo_body f @ concat entries\<rparr>)
           | (Bad_output, p) \<Rightarrow> (None, f\<lparr>fo_parser := p\<rparr>)
           | (Response_line l, p) \<Rightarrow>
               (Some (l @ fo_body f @ concat entries), f\<lparr>fo_parser := p, fo_done := True\<rparr>))"

text \<open>One call after the other; \<open>None\<close> from the first violation on.\<close>

fun write_pieces :: "string \<Rightarrow> string list list \<Rightarrow> out_state \<Rightarrow> string option" where
  "write_pieces version [] f = Some []"
| "write_pieces version (entries # es) f =
     (case format_output version entries f of
        (None, f) \<Rightarrow> None
      | (Some s, f) \<Rightarrow> (case write_pieces version es f of None \<Rightarrow> None | Some t \<Rightarrow> Some (s @ t)))"

section \<open>Choosing the application\<close>

record server =
  sv_http :: http_config
  sv_version :: string
  sv_mounts :: "mount_point list"
  sv_forward :: "(mount_point \<times> string \<times> int) list"
  sv_limits :: limits
  sv_buffer :: int
  sv_generate_headers :: bool
  sv_gzip :: bool
  sv_charset :: "string option"
  sv_powered_by :: string
  sv_csrf_automatic :: bool

fun get_application :: "pcre \<Rightarrow> mount_point list \<Rightarrow> string \<Rightarrow> string \<Rightarrow> string \<Rightarrow> string option" where
  "get_application pcre [] host script path = None"
| "get_application pcre (m # ms) host script path =
     (case mount_match pcre m host script path of
        Some matched \<Rightarrow> Some matched
      | None \<Rightarrow> get_application pcre ms host script path)"

fun check_forwarding_rules :: "pcre \<Rightarrow> (mount_point \<times> string \<times> int) list \<Rightarrow> string \<Rightarrow> string \<Rightarrow> string \<Rightarrow> string \<times> int" where
  "check_forwarding_rules pcre [] host script path = ([], 0)"
| "check_forwarding_rules pcre ((m, ip, port) # rules) host script path =
     (if mount_match pcre m host script path \<noteq> None then (ip, port)
      else check_forwarding_rules pcre rules host script path)"

section \<open>What a handler starts with\<close>

text \<open>\<open>strstr(...) != 0\<close>, of which only the answer matters.\<close>

definition occurs :: "string \<Rightarrow> string \<Rightarrow> bool" where
  "occurs needle s \<longleftrightarrow> list_ex (\<lambda>i. starts_with needle (drop i s)) [0..<Suc (length s)]"

text \<open>
  The constructor of the response; \<open>charset\<close> is absent when the settings keep it out of the content type.
  The mode is set when a synchronous application is dispatched.
\<close>

definition new_response :: "server \<Rightarrow> cgi_env \<Rightarrow> response" where
  "new_response sv e =
     set_header ''X-Powered-By'' (sv_powered_by sv) (set_content_header ''text/html''
       \<lparr>headers = Map.empty, added_headers = [], charset = sv_charset sv,
        client_gzip = sv_gzip sv \<and> occurs ''gzip'' (getenv e ''HTTP_ACCEPT_ENCODING''),
        io_mode_normal = False, disable_compression = False, ostream_requested = False,
        copy_to_cache_flag = False, finalized = False, zbuf_open = False, cached_open = False, sent = None, body = []\<rparr>)"

text \<open>
  The session's constructor, \<open>init\<close> and \<open>get_session_cookie\<close>: what lives longer than a request, the
  storage and the source of random numbers, is kept.
\<close>

definition session_of_request :: "server \<Rightarrow> session_config \<Rightarrow> http_request \<Rightarrow> mem_storage session \<Rightarrow> mem_storage session" where
  "session_of_request sv cfg rq s =
     s\<lparr>request_cookie := (case map_of (rq_cookies rq) (cookie_prefix cfg) of None \<Rightarrow> [] | Some c \<Rightarrow> ck_value c),
       temp_cookie := [], cookies_out := [], sdata := [], sdata_copy := [], loaded := False, saved := False,
       reset_flag := False, csrf_checked := False, csrf_do_validation := sv_csrf_automatic sv,
       cookie_names := map fst (rq_cookies rq)\<rparr>"

definition env_of_request :: "cgi_env \<Rightarrow> http_request \<Rightarrow> body \<Rightarrow> env \<Rightarrow> env" where
  "env_of_request e rq b v =
     v\<lparr>request_method := getenv e ''REQUEST_METHOD'', get_params := rq_get rq, post_params := bd_post b,
       uploads := map uf_data (bd_files b), header := getenv e\<rparr>"

definition site_of_request :: "cgi_env \<Rightarrow> http_request \<Rightarrow> body \<Rightarrow> site \<Rightarrow> site" where
  "site_of_request e rq b st =
     st\<lparr>req := env_of_request e rq b (req st), query_string := getenv e ''QUERY_STRING''\<rparr>"

definition world_of_request :: "server \<Rightarrow> session_config \<Rightarrow> cgi_env \<Rightarrow> http_request \<Rightarrow> world \<Rightarrow> world" where
  "world_of_request sv cfg e rq w =
     w\<lparr>rsp := (new_response sv e)\<lparr>io_mode_normal := True\<rparr>, ses := session_of_request sv cfg rq (ses w),
       cch := new_cache_if (module (cch w))\<rparr>"

section \<open>The whole exchange\<close>

datatype head_result = Head_missing | Head_refused | Head http_conn string "string list"

fun read_headers :: "http_conn \<Rightarrow> string list \<Rightarrow> head_result" where
  "read_headers k [] = Head_missing"
| "read_headers k (p # ps) =
     (if p = [] then Head_refused
      else case some_headers_data_read p k of
             (More, k) \<Rightarrow> read_headers k ps
           | (Violation, k) \<Rightarrow> Head_refused
           | (Ready rest, k) \<Rightarrow> Head k rest ps)"

datatype outcome =
    Unfinished
  | Dropped
  | Failed exn
  | Answered string
  | Forwarded string int
  | Handled "exn + unit" world

text \<open>
  \<open>on_headers_read\<close>, \<open>on_headers_ready\<close>, the body, and the application. The blog is the only
  application, mounted where \<open>sv_mounts\<close> says; \<open>handler\<close> is what it does with a path.
\<close>

definition with_variables ::
    "server \<Rightarrow> pcre \<Rightarrow> (site \<Rightarrow> string \<Rightarrow> unit handler) \<Rightarrow> site \<Rightarrow> cgi_env \<Rightarrow> string \<Rightarrow> string list \<Rightarrow> world \<Rightarrow> outcome" where
  "with_variables sv pcre handler st e input packets w =
     (let host = getenv e ''HTTP_HOST''; script = getenv e ''SCRIPT_NAME''; path = getenv e ''PATH_INFO'';
          (ip, port) = check_forwarding_rules pcre (sv_forward sv) host script path
      in if port \<noteq> 0 \<and> ip \<noteq> [] then Forwarded ip port
         else case get_application pcre (sv_mounts sv) host script path of
                None \<Rightarrow> Answered (handle_http_error (sv_generate_headers sv) 404)
              | Some matched \<Rightarrow>
                  let rq = prepare_request e in
                  (case load_content (sv_limits sv) (sv_buffer sv) rq input packets of
                     (Content_read, b) \<Rightarrow>
                       (case handler (site_of_request e rq b st) matched
                               (world_of_request sv (scfg (req st)) e rq w) of
                          (r, w) \<Rightarrow> Handled r w)
                   | (Refused code, b) \<Rightarrow> Answered (handle_http_error (sv_generate_headers sv) code)
                   | (Stalled, b) \<Rightarrow> Unfinished
                   | (Peer_closed, b) \<Rightarrow> Dropped
                   | (Crashed x, b) \<Rightarrow> Failed x))"

definition exchange ::
    "server \<Rightarrow> pcre \<Rightarrow> (site \<Rightarrow> string \<Rightarrow> unit handler) \<Rightarrow> site \<Rightarrow> string \<Rightarrow> string list \<Rightarrow> world \<Rightarrow> outcome" where
  "exchange sv pcre handler st peer packets w =
     (case read_headers (new_http_conn (sv_http sv) (''CppCMS/'' @ sv_version sv)) packets of
        Head_missing \<Rightarrow> Unfinished
      | Head_refused \<Rightarrow> Dropped
      | Head k input packets \<Rightarrow>
          (case process_request (sv_http sv) pcre peer k of
             None \<Rightarrow> Answered bad_request
           | Some e \<Rightarrow>
               (case with_variables sv pcre handler st e input packets w of
                  Answered s \<Rightarrow>
                    (case write_pieces (sv_version sv) [[s]] new_output of None \<Rightarrow> Dropped | Some t \<Rightarrow> Answered t)
                | r \<Rightarrow> r)))"

text \<open>
  A request that comes over SCGI: exactly 16 bytes first, then exactly what is missing of the headers
  (\<open>async_read\<close>), and the rest is the body.
\<close>

fun read_exactly :: "nat \<Rightarrow> string \<Rightarrow> string list \<Rightarrow> outcome + string \<times> string \<times> string list" where
  "read_exactly n input [] =
     (if n \<le> length input then Inr (take n input, drop n input, []) else Inl Unfinished)"
| "read_exactly n input (p # ps) =
     (if n \<le> length input then Inr (take n input, drop n input, p # ps)
      else if p = [] then Inl Dropped else read_exactly n (input @ p) ps)"

definition scgi_exchange ::
    "server \<Rightarrow> pcre \<Rightarrow> (site \<Rightarrow> string \<Rightarrow> unit handler) \<Rightarrow> site \<Rightarrow> string list \<Rightarrow> world \<Rightarrow> outcome" where
  "scgi_exchange sv pcre handler st packets w =
     (case read_exactly 16 [] packets of
        Inl r \<Rightarrow> r
      | Inr (first, input, packets) \<Rightarrow>
          (case scgi_wanted first of
             None \<Rightarrow> Dropped
           | Some n \<Rightarrow>
               (case read_exactly n input packets of
                  Inl r \<Rightarrow> r
                | Inr (rest, input, packets) \<Rightarrow>
                    (case scgi_headers first rest of
                       None \<Rightarrow> Dropped
                     | Some (Inl x) \<Rightarrow> Failed x
                     | Some (Inr e) \<Rightarrow> with_variables sv pcre handler st e input packets w))))"

text \<open>
  What \<open>cgi_forwarder\<close> writes to the other process: the variables, for which \<open>connection::getenv\<close> makes
  a map (the last of two with the same name stays), and the body as it comes.
\<close>

definition env_map :: "cgi_env \<Rightarrow> cgi_env" where
  "env_map e = fold (\<lambda>(k, v). omap_set k v) e []"

definition forwarded_bytes :: "cgi_env \<Rightarrow> string \<Rightarrow> string" where
  "forwarded_bytes e content = make_scgi_header (env_map e) @ take (nat (strtol (getenv e ''CONTENT_LENGTH''))) content"

section \<open>The pieces of the body\<close>

lemma fold_sort_part_read [simp]: "bd_read (fold sort_part fs b) = bd_read b"
  by (induction fs arbitrary: b) (simp_all add: sort_part_def)

lemma content_complete_read [simp]: "bd_read (content_complete ct b) = bd_read b"
  by (simp add: content_complete_def Let_def split: option.split)

lemma on_content_progress_read:
  "on_content_progress l ct len s b = (0, b') \<Longrightarrow> bd_read b' = bd_read b + length s"
  by (auto simp: on_content_progress_def Let_def split: if_splits option.splits prod.splits sum.splits)

lemma read_content_is_pieces:
  assumes "0 < n" "[] \<notin> set packets" "int (bd_read b) \<le> len" "len \<le> int (bd_read b + length (input @ concat packets))"
  shows "\<exists>ps. concat ps = take (nat len - bd_read b) (input @ concat packets) \<and>
    read_content l n ct len input packets b =
      (case receive_pieces l ct len ps b of (r, b') \<Rightarrow> (if r \<noteq> 0 then Refused r else Content_read, b'))"
  using assms
proof (induction l n ct len input packets b rule: read_content.induct)
  case (1 l n ct len input packets b)
  define m where "m = (if bd_full b then nat (len - int (bd_read b)) else nat (min (len - int (bd_read b)) n))"
  have buf: "get_buffer n len b = Inr m" using "1.prems"(3) by (auto simp: get_buffer_def m_def Let_def)
  show ?case
  proof (cases "m = 0")
    case True
    then have "read_content l n ct len input packets b = (Content_read, b)" by (simp add: read_content.simps buf)
    moreover have "nat len - bd_read b = 0" using True "1.prems"(1,3) by (auto simp: m_def split: if_splits)
    ultimately show ?thesis by (intro exI[of _ "[]"]) simp
  next
    case False
    show ?thesis
    proof (cases "input = []")
      case True
      with False "1.prems"(4) obtain p ps where p: "packets = p # ps" by (cases packets) (auto simp: m_def split: if_splits)
      then have "p \<noteq> []" using "1.prems"(2) by auto
      then have "read_content l n ct len input packets b = read_content l n ct len p ps b"
        using False True p by (subst read_content.simps) (simp add: buf)
      then show ?thesis using "1.IH"(2)[OF buf False _ p \<open>p \<noteq> []\<close>] True "1.prems" p by simp
    next
      case inp: False
      let ?all = "input @ concat packets"
      have m: "m \<le> nat len - bd_read b" using "1.prems"(3) by (auto simp: m_def split: if_splits)
      obtain r b' where r: "on_content_progress l ct len (take m input) b = (r, b')" by fastforce
      let ?tail = "take (nat len - bd_read b - length (take m input)) (drop m input @ concat packets)"
      have cut: "take m input @ ?tail = take (nat len - bd_read b) ?all"
        using m take_append[of "nat len - bd_read b" "take m input" "drop m input @ concat packets"]
        by (simp add: min_def flip: append_assoc split: if_splits)
      show ?thesis
      proof (cases "r = 0")
        case True
        have read: "bd_read b' = bd_read b + length (take m input)" using on_content_progress_read r True by blast
        have step: "read_content l n ct len input packets b = read_content l n ct len (drop m input) packets b'"
          using False inp r True by (subst read_content.simps) (simp add: buf)
        have "int (bd_read b') \<le> len" using m read "1.prems"(3) by simp
        moreover have "len \<le> int (bd_read b' + length (drop m input @ concat packets))" using "1.prems"(4) read by simp
        ultimately obtain ps where "concat ps = take (nat len - bd_read b') (drop m input @ concat packets)"
          "read_content l n ct len (drop m input) packets b' =
            (case receive_pieces l ct len ps b' of (r, b') \<Rightarrow> (if r \<noteq> 0 then Refused r else Content_read, b'))"
          using "1.IH"(1)[OF buf False inp r[symmetric]] True "1.prems"(1,2) by auto
        then show ?thesis
          using cut read step r True by (intro exI[of _ "take m input # ps"]) simp
      next
        case r0: False
        have "read_content l n ct len input packets b = (Refused r, b')"
          using False inp r r0 by (subst read_content.simps) (simp add: buf)
        then show ?thesis using cut r r0 by (intro exI[of _ "[take m input, ?tail]"]) simp
      qed
    qed
  qed
qed

lemma on_content_start_read: "on_content_start l ct len (new_body len) = (Inr 0, b) \<Longrightarrow> bd_read b = 0"
  by (auto simp: on_content_start_def new_body_def Let_def split: if_splits option.splits)

lemma load_content_is_progress:
  assumes "0 < n" "[] \<notin> set packets" "0 \<le> rq_length rq" "rq_length rq \<le> int (length (input @ concat packets))"
    "on_content_start l (rq_media rq) (rq_length rq) (new_body (rq_length rq)) = (Inr 0, b)"
    "on_content_progress l (rq_media rq) (rq_length rq) (take (nat (rq_length rq)) (input @ concat packets)) b = (r, b')"
  shows "fst (load_content l n rq input packets) = (if r \<noteq> 0 then Refused r else Content_read) \<and>
    (r = 0 \<longrightarrow> load_content l n rq input packets = (Content_read, b'))"
proof (cases "rq_length rq = 0")
  case True
  then show ?thesis using assms(5,6) by (auto simp: load_content_def on_content_start_def on_content_progress_def)
next
  case False
  have z: "bd_read b = 0" using on_content_start_read assms(5) .
  obtain ps where ps: "concat ps = take (nat (rq_length rq)) (input @ concat packets)"
    "read_content l n (rq_media rq) (rq_length rq) input packets b =
      (case receive_pieces l (rq_media rq) (rq_length rq) ps b of
         (r, b') \<Rightarrow> (if r \<noteq> 0 then Refused r else Content_read, b'))"
    using read_content_is_pieces[OF assms(1,2), of b "rq_length rq" input l "rq_media rq"] z assms(3,4) by auto
  have "int (length (concat ps)) = rq_length rq" unfolding ps(1) using assms(3,4) by simp
  from receive_pieces_whole[OF this assms(5)] show ?thesis
    using assms(5,6) False ps by (auto simp: load_content_def split: prod.splits)
qed

text \<open>Two ways in which the announced bytes may come, whatever comes behind them.\<close>

definition same_content :: "int \<Rightarrow> string \<Rightarrow> string list \<Rightarrow> string \<Rightarrow> string list \<Rightarrow> bool" where
  "same_content len input packets input' packets' \<longleftrightarrow>
     [] \<notin> set packets \<and> [] \<notin> set packets' \<and> 0 \<le> len \<and> len \<le> int (length (input @ concat packets)) \<and>
     len \<le> int (length (input' @ concat packets')) \<and>
     take (nat len) (input @ concat packets) = take (nat len) (input' @ concat packets')"

lemma load_content_cut:
  assumes "0 < n" "same_content (rq_length rq) input packets input' packets'"
  shows "fst (load_content l n rq input packets) = fst (load_content l n rq input' packets') \<and>
    (fst (load_content l n rq input packets) = Content_read \<longrightarrow>
      load_content l n rq input packets = load_content l n rq input' packets')"
proof (cases "\<exists>b. on_content_start l (rq_media rq) (rq_length rq) (new_body (rq_length rq)) = (Inr 0, b)")
  case True
  then obtain b where b: "on_content_start l (rq_media rq) (rq_length rq) (new_body (rq_length rq)) = (Inr 0, b)" by blast
  obtain r b' where r: "on_content_progress l (rq_media rq) (rq_length rq) (take (nat (rq_length rq)) (input @ concat packets)) b = (r, b')"
    by fastforce
  have s: "[] \<notin> set packets" "[] \<notin> set packets'" "0 \<le> rq_length rq" "rq_length rq \<le> int (length (input @ concat packets))"
    "rq_length rq \<le> int (length (input' @ concat packets'))"
    "take (nat (rq_length rq)) (input @ concat packets) = take (nat (rq_length rq)) (input' @ concat packets')"
    using assms(2) unfolding same_content_def by blast+
  from load_content_is_progress[OF assms(1) s(1,3,4) b r] load_content_is_progress[OF assms(1) s(2,3,5) b r[unfolded s(6)]]
  show ?thesis by (simp split: if_splits)
next
  case False
  then show ?thesis by (auto simp: load_content_def split: prod.splits sum.splits)
qed

lemma with_variables_cut:
  assumes "0 < sv_buffer sv" "same_content (rq_length (prepare_request e)) input packets input' packets'"
  shows "with_variables sv pcre handler st e input packets w = with_variables sv pcre handler st e input' packets' w"
proof -
  note c = load_content_cut[OF assms, of "sv_limits sv"]
  obtain x b x' b' where l: "load_content (sv_limits sv) (sv_buffer sv) (prepare_request e) input packets = (x, b)"
    "load_content (sv_limits sv) (sv_buffer sv) (prepare_request e) input' packets' = (x', b')" by fastforce
  with c have "x = x' \<and> (x = Content_read \<longrightarrow> b = b')" by simp
  then show ?thesis by (cases x) (auto simp: with_variables_def l Let_def split: option.split prod.split)
qed

section \<open>The pieces of the headers\<close>

lemma read_headers_finds:
  assumes "header_loop k h = (Ready [], k')" "hc_total k + length h \<le> 16384" "concat ps = h @ c" "[] \<notin> set ps"
  shows "\<exists>n rest qs. read_headers k ps = Head (k'\<lparr>hc_total := n\<rparr>) rest qs \<and> rest @ concat qs = c \<and> [] \<notin> set qs"
  using assms
proof (induction ps arbitrary: k k' h)
  case Nil
  have "hp_step (hc_parser k) [] = ((More_data, []), hc_parser k)" by simp
  with Nil show ?case by (simp add: header_loop.simps[of k "[]"])
next
  case (Cons p ps)
  have p: "p \<noteq> []" using Cons.prems(4) by auto
  have total: "fst (header_loop (k\<lparr>hc_total := n\<rparr>) (h @ x)) = Ready x \<and>
      snd (header_loop (k\<lparr>hc_total := n\<rparr>) (h @ x)) = k'\<lparr>hc_total := n\<rparr>" for n x
    using header_loop_append[of "hc_total k" n k h x] Cons.prems(1,2) by simp
  show ?case
  proof (cases "length h \<le> length p")
    case True
    with Cons.prems(3) obtain x where x: "p = h @ x" "x @ concat ps = c" by (auto simp: append_eq_append_conv2)
    then show ?thesis
      using total[of "hc_total k + length p" x] p Cons.prems(4)
      by (auto simp: some_headers_data_read_def split: prod.split)
  next
    case False
    then obtain h' where h: "h = p @ h'" "concat ps = h' @ c" "h' \<noteq> []"
      using Cons.prems(3) by (auto simp: append_eq_append_conv2)
    obtain r k1 where k1: "some_headers_data_read p k = (r, k1)" by fastforce
    have l: "hc_total k + length p \<le> 16384" using Cons.prems(2) h(1) by simp
    have all: "some_headers_data_read h k = (Ready [], k'\<lparr>hc_total := hc_total k + length h\<rparr>)"
      using total[of "hc_total k + length h" "[]"] by (simp add: some_headers_data_read_def prod_eq_iff)
    have t1: "hc_total k1 = hc_total k + length p"
      using k1 header_loop_keeps_total by (fastforce simp: some_headers_data_read_def)
    have more: "r = More" "some_headers_data_read h' k1 = (Ready [], k'\<lparr>hc_total := hc_total k + length h\<rparr>)"
      using some_headers_data_read_append[OF l, of h'] all h k1 by (auto split: read_result.splits)
    have "header_loop (k1\<lparr>hc_total := hc_total k + length p\<rparr>) h' = (Ready [], k'\<lparr>hc_total := hc_total k + length p\<rparr>)"
      using header_loop_append[of "hc_total k1 + length h'" "hc_total k + length p" k1 h' "[]"] Cons.prems(2) h(1) t1 more(2)
      by (simp add: some_headers_data_read_def add.assoc)
    moreover have "k1\<lparr>hc_total := hc_total k + length p\<rparr> = k1" using t1 by (cases k1) simp
    ultimately have "header_loop k1 h' = (Ready [], k'\<lparr>hc_total := hc_total k1\<rparr>)" unfolding t1 by metis
    from Cons.IH[OF this _ h(2)] show ?thesis
      using Cons.prems(2,4) h(1) p k1 more(1) t1 by auto
  qed
qed

lemma process_request_total: "process_request cfg pcre peer (k\<lparr>hc_total := n\<rparr>) = process_request cfg pcre peer k"
  by (simp add: process_request_def Let_def)

text \<open>
  A request that is there in full: the bytes are the headers \<open>h\<close>, which the parser takes to the last, and
  then at least as much as they announce.
\<close>

definition complete_request :: "server \<Rightarrow> pcre \<Rightarrow> string \<Rightarrow> string \<Rightarrow> string \<Rightarrow> bool" where
  "complete_request sv pcre peer h content \<longleftrightarrow>
     (case header_loop (new_http_conn (sv_http sv) (''CppCMS/'' @ sv_version sv)) h of
        (Ready rest, k) \<Rightarrow>
          rest = [] \<and>
          (case process_request (sv_http sv) pcre peer k of
             None \<Rightarrow> True
           | Some e \<Rightarrow> 0 \<le> rq_length (prepare_request e) \<and> rq_length (prepare_request e) \<le> int (length content))
      | _ \<Rightarrow> False)"

lemma exchange_complete:
  assumes "complete_request sv pcre peer h content" "length h \<le> 16384" "0 < sv_buffer sv"
    "concat ps = h @ content" "[] \<notin> set ps"
  shows "exchange sv pcre handler st peer ps w = exchange sv pcre handler st peer (if content = [] then [h] else [h, content]) w"
proof -
  let ?k = "new_http_conn (sv_http sv) (''CppCMS/'' @ sv_version sv)"
  obtain k where k: "header_loop ?k h = (Ready [], k)"
    using assms(1) by (auto simp: complete_request_def split: prod.splits read_result.splits)
  have z: "hc_total ?k = 0" by (simp add: new_http_conn_def)
  have "h \<noteq> []" using k by (auto simp: header_loop.simps[of _ "[]"] split: if_splits)
  let ?qs = "if content = [] then [h] else [h, content]"
  obtain n rest ps' where p: "read_headers ?k ps = Head (k\<lparr>hc_total := n\<rparr>) rest ps'" "rest @ concat ps' = content" "[] \<notin> set ps'"
    using read_headers_finds[OF k _ assms(4,5)] z assms(2) by auto
  have q0: "concat ?qs = h @ content" "[] \<notin> set ?qs" using \<open>h \<noteq> []\<close> by auto
  obtain m rest' qs' where q: "read_headers ?k ?qs = Head (k\<lparr>hc_total := m\<rparr>) rest' qs'" "rest' @ concat qs' = content" "[] \<notin> set qs'"
    using read_headers_finds[OF k _ q0] z assms(2) by auto
  show ?thesis
  proof (cases "process_request (sv_http sv) pcre peer k")
    case None
    then show ?thesis unfolding exchange_def p(1) q(1) head_result.case process_request_total by simp
  next
    case (Some e)
    with assms(1) k have "0 \<le> rq_length (prepare_request e)" "rq_length (prepare_request e) \<le> int (length (rest @ concat ps'))"
      by (auto simp: complete_request_def p(2))
    then have "same_content (rq_length (prepare_request e)) rest ps' rest' qs'"
      using p(2,3) q(2,3) by (simp add: same_content_def)
    from with_variables_cut[OF assms(3) this]
    have "with_variables sv pcre handler st e rest ps' w = with_variables sv pcre handler st e rest' qs' w" .
    then show ?thesis unfolding exchange_def p(1) q(1) head_result.case process_request_total Some by simp
  qed
qed

text \<open>
  Property C5. What comes of a request depends on its bytes and not on the packets they come in: the
  headers and the body may be cut anywhere, in the middle of a line or of a multipart boundary, and
  the outcome, answer, state of the site and all, is the same. The headers have to fit into the 16384 bytes
  that are read before the server gives up, and the body has to be there.
\<close>

theorem packets_make_no_difference:
  assumes "complete_request sv pcre peer h content" "length h \<le> 16384" "0 < sv_buffer sv"
    and "concat ps = h @ content" "[] \<notin> set ps" "concat qs = h @ content" "[] \<notin> set qs"
  shows "exchange sv pcre handler st peer ps w = exchange sv pcre handler st peer qs w"
  using exchange_complete[OF assms(1-5)] exchange_complete[OF assms(1-3,6,7)] by simp

section \<open>The status line\<close>

lemma process_output_headers_append:
  "process_output_headers v p (s @ t) =
     (case process_output_headers v p s of (Not_yet, p') \<Rightarrow> process_output_headers v p' t | r \<Rightarrow> r)"
proof (induction v p s rule: process_output_headers.induct)
  case (1 v p s)
  obtain r rest q where q: "hp_step p s = ((r, rest), q)" by (metis surj_pair)
  have whole: "hp_step p (s @ t) = (if r = More_data then hp_step q t else ((r, rest @ t), q))"
    using hp_step_append[of p s t] q by simp
  note now = process_output_headers.simps[of v p s] process_output_headers.simps[of v p "s @ t"]
  show ?case
  proof (cases r)
    case More_data
    then show ?thesis using q whole process_output_headers.simps[of v q t] by (simp add: now)
  next
    case Got_header
    note IH = "1.IH"[OF q[symmetric] refl Got_header]
    show ?thesis
    proof (cases "parse_single_header (hp_line q)")
      case (Some x)
      then show ?thesis using q whole Got_header IH[OF Some] by (cases x) (simp add: now)
    qed (use q whole Got_header in \<open>simp add: now\<close>)
  qed (use q whole in \<open>simp_all add: now\<close>)
qed

lemma output_entries_concat: "output_entries v p ss = process_output_headers v p (concat ss)"
proof (induction ss arbitrary: p)
  case Nil
  then show ?case by (simp add: process_output_headers.simps)
next
  case (Cons s ss)
  then show ?case by (auto simp: process_output_headers_append split: prod.split output_head.split)
qed

lemma write_pieces_done: "fo_done f \<Longrightarrow> write_pieces v ps f = Some (concat (concat ps))"
  by (induction ps) (simp_all add: format_output_def)

lemma write_pieces_whole:
  "\<not> fo_done f \<Longrightarrow> write_pieces v ps f =
     (case process_output_headers v (fo_parser f) (concat (concat ps)) of
        (Not_yet, _) \<Rightarrow> Some []
      | (Bad_output, _) \<Rightarrow> None
      | (Response_line l, _) \<Rightarrow> Some (l @ fo_body f @ concat (concat ps)))"
proof (induction ps arbitrary: f)
  case Nil
  then show ?case by (simp add: process_output_headers.simps)
next
  case (Cons es ps)
  obtain r p where r: "process_output_headers v (fo_parser f) (concat es) = (r, p)" by fastforce
  show ?case
    using Cons r by (cases r)
      (auto simp: format_output_def output_entries_concat process_output_headers_append write_pieces_done
        split: prod.split output_head.split option.split)
qed

text \<open>
  What the embedded server adds to a response does not depend on how the response is
  written: however its bytes are spread over calls and over the buffers of a call, they all go out
  unchanged and in order, behind the status line that its first \<open>Status\<close> header asks for; nothing goes out
  before that line is known, and after a malformed header the response is given up.
\<close>

theorem status_line_goes_first:
  "write_pieces v ps new_output =
     (case fst (process_output_headers v new_hparser (concat (concat ps))) of
        Not_yet \<Rightarrow> Some []
      | Bad_output \<Rightarrow> None
      | Response_line l \<Rightarrow> Some (l @ concat (concat ps)))"
  using write_pieces_whole[of new_output v ps]
  by (auto simp: new_output_def split: prod.splits output_head.splits)

section \<open>Every request is answered\<close>

lemma feed_status: "feed l c r m s = (Inl e, m') \<Longrightarrow> e \<in> {400, 413}"
proof (induction l c r m s rule: feed.induct)
  case (1 l c r m s)
  obtain x rest k where k: "consume (file_quota l) m s = ((x, rest), k)" by (metis surj_pair)
  show ?case
    using "1.prems" k "1.IH"[OF _ k[symmetric] refl]
    by (cases x) (auto simp: feed.simps[of l c r m s] split: if_splits)
qed

lemma on_content_progress_status: "on_content_progress l ct len s b = (r, b') \<Longrightarrow> r \<in> {0, 400, 413}"
  using feed_status by (fastforce simp: on_content_progress_def Let_def split: if_splits option.splits prod.splits sum.splits)

lemma on_content_start_status:
  "on_content_start l ct len b = (r, b') \<Longrightarrow> 0 \<le> len \<Longrightarrow> r \<in> {Inr 0, Inr 400, Inr 413}"
  by (auto simp: on_content_start_def split: if_splits option.splits)

lemma load_content_ends:
  assumes "0 < n" "[] \<notin> set packets" "0 \<le> rq_length rq" "rq_length rq \<le> int (length (input @ concat packets))"
  shows "fst (load_content l n rq input packets) \<in> {Content_read, Refused 400, Refused 413}"
proof -
  obtain x b where x: "on_content_start l (rq_media rq) (rq_length rq) (new_body (rq_length rq)) = (x, b)" by fastforce
  show ?thesis
  proof (cases "x = Inr 0")
    case True
    obtain r b' where r: "on_content_progress l (rq_media rq) (rq_length rq) (take (nat (rq_length rq)) (input @ concat packets)) b = (r, b')"
      by fastforce
    then show ?thesis
      using load_content_is_progress[OF assms x[unfolded True] r] on_content_progress_status[OF r] by auto
  qed (use on_content_start_status[OF x assms(3)] x in \<open>auto simp: load_content_def\<close>)
qed

lemma on_content_progress_ready:
  "on_content_progress l ct len s b = (0, b') \<Longrightarrow> s \<noteq> [] \<Longrightarrow> int (bd_read b + length s) = len \<Longrightarrow> bd_ready b'"
  by (auto simp: on_content_progress_def content_complete_def Let_def split: if_splits option.splits prod.splits sum.splits)

lemma load_content_ready:
  assumes "0 < n" "[] \<notin> set packets" "0 \<le> rq_length rq" "rq_length rq \<le> int (length (input @ concat packets))"
    "load_content l n rq input packets = (Content_read, b)"
  shows "bd_ready b"
proof (cases "rq_length rq = 0")
  case True
  then show ?thesis using assms(5) by (auto simp: load_content_def on_content_start_def new_body_def)
next
  case False
  obtain x b0 where x: "on_content_start l (rq_media rq) (rq_length rq) (new_body (rq_length rq)) = (x, b0)" by fastforce
  have i: "x = Inr 0" using assms(5) x by (auto simp: load_content_def split: sum.splits if_splits)
  let ?s = "take (nat (rq_length rq)) (input @ concat packets)"
  obtain r b' where r: "on_content_progress l (rq_media rq) (rq_length rq) ?s b0 = (r, b')" by fastforce
  have "r = 0 \<and> b' = b"
    using load_content_is_progress[OF assms(1-4) x[unfolded i] r] assms(5) by (auto split: if_splits)
  moreover have "length ?s = nat (rq_length rq)" using assms(3,4) by simp
  moreover have "bd_read b0 = 0" using on_content_start_read[OF x[unfolded i]] .
  ultimately have "on_content_progress l (rq_media rq) (rq_length rq) ?s b0 = (0, b)"
      "int (bd_read b0 + length ?s) = rq_length rq" "length ?s \<noteq> 0"
    using r False assms(3) by (auto simp del: length_take length_append take_append)
  then show ?thesis using on_content_progress_ready by blast
qed

lemma error_pages_parse:
  "case fst (process_output_headers v new_hparser (handle_http_error False 400)) of Response_line l \<Rightarrow> l \<noteq> [] | _ \<Rightarrow> False"
  "case fst (process_output_headers v new_hparser (handle_http_error False 404)) of Response_line l \<Rightarrow> l \<noteq> [] | _ \<Rightarrow> False"
  "case fst (process_output_headers v new_hparser (handle_http_error False 413)) of Response_line l \<Rightarrow> l \<noteq> [] | _ \<Rightarrow> False"
  by code_simp+

lemma error_page_is_sent:
  "code \<in> {400, 404, 413} \<Longrightarrow> \<exists>t. t \<noteq> [] \<and> write_pieces v [[handle_http_error False code]] new_output = Some t"
  using error_pages_parse[of v] status_line_goes_first[of v "[[handle_http_error False code]]"]
  by (auto split: output_head.splits)

lemma world_of_request_ok:
  assumes "world_ok w" shows "world_ok (world_of_request sv cfg e rq w)"
proof -
  have "cif_ok (new_cache_if (module (cch w)))"
    using assms cif_okD[of "cch w"] by (intro new_cache_if_ok) (simp add: world_ok_def web_ok_def)
  with assms show ?thesis by (simp add: world_ok_def web_ok_def world_of_request_def session_of_request_def)
qed

lemma finalize_finalizes: "finalize e w = (Inr (), w') \<Longrightarrow> finalized (rsp w')"
  unfolding finalize_def on_response_def
  by (cases "finalized (rsp w)") (auto simp: andThen_Inr_iff changes_apply)

lemma dispatch_request_finalizes: "dispatch_request e m w = (Inr (), w') \<Longrightarrow> finalized (rsp w')"
proof -
  assume d: "dispatch_request e m w = (Inr (), w')"
  obtain r w1 where r: "andThen (in_session (load memory_ops (scfg e) (now e))) (\<lambda>_.
      andThen (in_session (load memory_ops (scfg e) (now e))) (\<lambda>_. m)) w = (r, w1)" by fastforce
  show ?thesis
  proof (cases r)
    case (Inl x)
    have "andThen (translate_exception e x) (\<lambda>_. finalize e) w1 = (Inr (), w')"
      using d unfolding dispatch_request_def r Inl prod.case sum.case .
    then show ?thesis unfolding andThen_Inr_iff using finalize_finalizes by blast
  next
    case (Inr u)
    then have u: "r = Inr ()" by simp
    have "finalize e w1 = (Inr (), w')" using d unfolding dispatch_request_def r u prod.case sum.case old.unit.case .
    then show ?thesis by (rule finalize_finalizes)
  qed
qed


section \<open>Forwarding\<close>

lemma read_exactly_finds:
  assumes "n \<le> length (input @ concat ps)" "[] \<notin> set ps"
  shows "\<exists>rest qs. read_exactly n input ps = Inr (take n (input @ concat ps), rest, qs) \<and>
    rest @ concat qs = drop n (input @ concat ps) \<and> [] \<notin> set qs"
  using assms
proof (induction n input ps rule: read_exactly.induct)
  case (2 n input p ps)
  then show ?case by (cases "n \<le> length input") auto
qed simp

lemma map_of_env_map: "map_of (fold (\<lambda>(k, v). omap_set k v) e m) = map_of m ++ map_of (rev e)"
  by (induction e arbitrary: m) (auto simp: omap_simps)

lemma map_of_rev_distinct: "distinct (map fst e) \<Longrightarrow> map_of (rev e) = map_of e"
  by (induction e) (auto simp: fun_eq_iff map_add_def dom_def image_iff split: option.split dest: map_of_SomeD)

lemma getenv_env_map: "distinct (map fst e) \<Longrightarrow> env_get (env_map e) = env_get e"
  by (simp add: env_get_def[abs_def] env_map_def map_of_env_map map_of_rev_distinct)

lemma map_of_filter_other: "k \<noteq> c \<Longrightarrow> map_of (filter (\<lambda>(k, v). k \<noteq> c) e) k = map_of e k"
  by (induction e) auto

lemma getenv_content_length_first:
  assumes "env_get e ''CONTENT_LENGTH'' \<noteq> None" shows "env_get (content_length_first e) k = env_get e k"
  using assms map_of_filter_other[of k "''CONTENT_LENGTH''" e]
  by (auto simp: content_length_first_def env_get_def split: option.split)

lemma with_variables_getenv:
  assumes "env_get e = env_get e'"
  shows "with_variables sv pcre handler st e = with_variables sv pcre handler st e'"
proof -
  have g: "getenv e = getenv e'" using assms by (simp add: getenv_def fun_eq_iff)
  then have "prepare_request e = prepare_request e'" "site_of_request e = site_of_request e'"
    "world_of_request sv (scfg (req st)) e = world_of_request sv (scfg (req st)) e'"
    by (simp_all add: fun_eq_iff prepare_request_def site_of_request_def env_of_request_def world_of_request_def new_response_def)
  note eqs = this g
  show ?thesis by (intro ext) (simp only: with_variables_def eqs)
qed

lemma no_zero_omap_set: "no_zero m \<Longrightarrow> CHR 0x00 \<notin> set k \<Longrightarrow> CHR 0x00 \<notin> set v \<Longrightarrow> no_zero (omap_set k v m)"
  by (induction k v m rule: omap_set.induct) (auto simp: no_zero_def)

lemma no_zero_env_map: "no_zero e \<Longrightarrow> no_zero (env_map e)"
proof -
  have "no_zero e \<Longrightarrow> no_zero m \<Longrightarrow> no_zero (fold (\<lambda>(k, v). omap_set k v) e m)" for m
  proof (induction e arbitrary: m)
    case (Cons p e)
    then show ?case by (cases p) (simp add: no_zero_omap_set no_zero_def[of "_ # _"] flip: no_zero_def)
  qed simp
  then show "no_zero e \<Longrightarrow> no_zero (env_map e)" by (simp add: env_map_def no_zero_def)
qed

text \<open>
  Property C6. Forwarding is transparent. A server that gets over SCGI what \<open>cgi_forwarder\<close> writes, in
  whatever packets, does exactly what the forwarding server would have done with the request itself: the
  same handler in the same state, with the same variables and the same body. The request must have every
  variable once, a length that is announced and kept, and at most 16384 bytes of variables.
\<close>

theorem forwarding_is_transparent:
  assumes "distinct (map fst e)" "no_zero e" "length (scgi_text (content_length_first (env_map e))) \<le> 16384"
    and "env_get e ''CONTENT_LENGTH'' = Some l" "l \<noteq> []" "0 \<le> strtol l" "strtol l \<le> int (length content)"
    and "0 < sv_buffer sv" "concat ps = forwarded_bytes e content" "[] \<notin> set ps"
  shows "scgi_exchange sv pcre handler st ps w = with_variables sv pcre handler st e content [] w"
proof -
  let ?h = "make_scgi_header (env_map e)" and ?f = "content_length_first (env_map e)"
  let ?c = "take (nat (strtol l)) content"
  have m: "env_get (env_map e) = env_get e" using getenv_env_map[OF assms(1)] .
  then have f: "env_get ?f = env_get e" using assms(4) getenv_content_length_first[of "env_map e"] by (simp add: fun_eq_iff)
  have len: "rq_length (prepare_request ?f) = strtol l"
    using assms(4,5) f by (simp add: prepare_request_def getenv_def)
  have all: "concat ps = ?h @ ?c" using assms(4,9) by (simp add: forwarded_bytes_def getenv_def)
  have sixteen: "16 < length ?h" by (rule scgi_text_longer)
  have wanted: "scgi_wanted (take 16 ?h) = Some (length ?h - 16)" "scgi_headers (take 16 ?h) (drop 16 ?h) = Some (Inr ?f)"
    using forwarded_header_arrives[OF no_zero_env_map[OF assms(2)] assms(3)] by blast+
  obtain i1 ps1 where r1: "read_exactly 16 [] ps = Inr (take 16 ?h, i1, ps1)" "i1 @ concat ps1 = drop 16 ?h @ ?c" "[] \<notin> set ps1"
    using read_exactly_finds[of 16 "[]" ps] all sixteen assms(10) by auto
  obtain i2 ps2 where r2: "read_exactly (length ?h - 16) i1 ps1 = Inr (drop 16 ?h, i2, ps2)" "i2 @ concat ps2 = ?c" "[] \<notin> set ps2"
    using read_exactly_finds[of "length ?h - 16" i1 ps1] r1(2,3) by auto
  have "same_content (rq_length (prepare_request ?f)) i2 ps2 content []"
    using r2(2,3) assms(6,7) by (simp add: same_content_def len)
  from with_variables_cut[OF assms(8) this]
  have "with_variables sv pcre handler st ?f i2 ps2 w = with_variables sv pcre handler st e content [] w"
    unfolding with_variables_getenv[OF f] .
  then show ?thesis by (simp add: scgi_exchange_def r1(1) r2(1) wanted)
qed

section \<open>Examples\<close>

definition example_server :: server where
  "example_server = \<lparr>sv_http = example_http, sv_version = ''1'', sv_mounts = [default_mount], sv_forward = [],
     sv_limits = example_limits, sv_buffer = 8, sv_generate_headers = False, sv_gzip = True, sv_charset = Some ''UTF-8'',
     sv_powered_by = ''CppCMS'', sv_csrf_automatic = True\<rparr>"

definition example_post_head :: string where
  "example_post_head = ''POST /blog/x HTTP/1.0'' @ eol @ ''Content-Length: 3'' @ eol @ eol"

lemma example_post_is_complete: "complete_request example_server (\<lambda>_ _. None) ''127.0.0.1'' example_post_head ''a=1''"
  by code_simp

lemma example_post_is_short: "length example_post_head \<le> 16384"
  by (simp add: example_post_head_def eol_def)

lemma packets_make_no_difference_witness:
  "exchange example_server (\<lambda>_ _. None) (\<lambda>st path. ret ()) (example_site (example_env ''GET'' [])) ''127.0.0.1''
     [example_post_head, ''a=1''] (example_world (\<lambda>_. None)) =
   exchange example_server (\<lambda>_ _. None) (\<lambda>st path. ret ()) (example_site (example_env ''GET'' [])) ''127.0.0.1''
     [take 7 example_post_head, drop 7 example_post_head @ ''a'', ''=1''] (example_world (\<lambda>_. None))"
  by (rule packets_make_no_difference[OF example_post_is_complete example_post_is_short])
    (simp_all add: example_server_def example_post_head_def flip: append_assoc)


definition example_variables :: cgi_env where
  "example_variables = [(''PATH_INFO'', ''/x''), (''CONTENT_LENGTH'', ''3'')]"

lemma forwarding_is_transparent_witness:
  "let bytes = forwarded_bytes example_variables ''a=1'' in
   scgi_exchange example_server (\<lambda>_ _. None) (\<lambda>st path. ret ()) (example_site (example_env ''GET'' []))
     [take 20 bytes, drop 20 bytes] (example_world (\<lambda>_. None)) =
   with_variables example_server (\<lambda>_ _. None) (\<lambda>st path. ret ()) (example_site (example_env ''GET'' []))
     example_variables ''a=1'' [] (example_world (\<lambda>_. None))"
proof -
  have e: "distinct (map fst example_variables)" "no_zero example_variables"
    "env_get example_variables ''CONTENT_LENGTH'' = Some ''3''" "strtol ''3'' = 3"
    "scgi_text (content_length_first (env_map example_variables)) =
       ''CONTENT_LENGTH'' @ [CHR 0x00] @ ''3'' @ [CHR 0x00] @ ''PATH_INFO'' @ [CHR 0x00] @ ''/x'' @ [CHR 0x00]"
    "take 20 (forwarded_bytes example_variables ''a=1'') \<noteq> []" "drop 20 (forwarded_bytes example_variables ''a=1'') \<noteq> []"
    by code_simp+
  have ps: "[] \<notin> set [take 20 (forwarded_bytes example_variables ''a=1''), drop 20 (forwarded_bytes example_variables ''a=1'')]"
    unfolding list.set insert_iff empty_iff using e(6,7) by metis
  show ?thesis
    unfolding Let_def
    by (rule forwarding_is_transparent[OF e(1,2) _ e(3) _ _ _ _ _ ps]) (simp_all only: e(5), simp_all add: e(4) example_server_def)
qed

end
